(* ===== verification/Kernel_Prelude.thy ===== *)
theory Kernel_Prelude
  imports Main "HOL-Library.Word" "HOL-Library.Monad_Syntax"
begin

text \<open>
  Shared vocabulary of the development.

  Conventions used by every component theory:
  \<^item> A call that may fail to return (a Rust panic, a debug assertion, an arithmetic
    overflow of the dev profile, an endless loop, a dereference of a dangling pointer) has a
    result of type \<open>'a run\<close>, an option whose \<open>None\<close> is named \<open>panic\<close>.
  \<^item> A Rust \<open>Result<T, E>\<close> is a sum: \<open>Inl e\<close> is \<open>Err(e)\<close> and \<open>Inr x\<close> is \<open>Ok(x)\<close>.
  \<^item> State is passed explicitly; an operation on \<open>&mut self\<close> returns the new state.
  \<^item> Raw pointers are natural numbers; a nullable pointer is an option.

  The theory also holds the list-segment predicate \<open>lseg\<close> that relates every intrusive
  singly linked list of the kernel (CSpace free list, run queues, endpoint wait queues, buddy
  free lists) to the list of its nodes, and a contract for intrusive FIFO queues.
\<close>

section \<open>Outcomes\<close>

type_synonym 'a run = "'a option"

abbreviation (input) panic :: "'a run" where
  "panic \<equiv> None"

abbreviation (input) ret :: "'a \<Rightarrow> 'a run" where
  "ret \<equiv> Some"

type_synonym ('e, 'a) result = "'e + 'a"

type_synonym u8 = "8 word"
type_synonym u16 = "16 word"
type_synonym u32 = "32 word"
type_synonym u64 = "64 word"

type_synonym ptr = nat

named_theorems upd_simps "how a store update reads back"
named_theorems inv_intros "invariant preservation rules"

section \<open>Checked machine arithmetic\<close>

text \<open>\<open>a - b\<close> on an unsigned machine integer held as a natural number: underflow panics
  in the dev profile.\<close>

definition usub :: "nat \<Rightarrow> nat \<Rightarrow> nat run" where
  "usub a b = (if b \<le> a then ret (a - b) else panic)"

lemma usub_ok [simp]: "b \<le> a \<Longrightarrow> usub a b = ret (a - b)"
  by (simp add: usub_def)

lemma usub_panic_iff: "usub a b = panic \<longleftrightarrow> a < b"
  by (simp add: usub_def)

section \<open>Lists\<close>

text \<open>\<open>Iterator::position\<close>.\<close>

fun position :: "('a \<Rightarrow> bool) \<Rightarrow> 'a list \<Rightarrow> nat option" where
  "position P [] = None"
| "position P (x # xs) = (if P x then Some 0 else map_option Suc (position P xs))"

lemma position_None: "position P xs = None \<longleftrightarrow> (\<forall>x \<in> set xs. \<not> P x)"
  by (induction xs) auto

lemma position_Some:
  "position P xs = Some n \<longleftrightarrow> n < length xs \<and> P (xs ! n) \<and> (\<forall>i < n. \<not> P (xs ! i))"
proof (induction xs arbitrary: n)
  case Nil
  then show ?case by simp
next
  case (Cons x xs)
  show ?case
  proof (cases n)
    case 0
    then show ?thesis by simp
  next
    case (Suc m)
    then show ?thesis
      using Cons.IH [of m] by (auto simp: less_Suc_eq_0_disj All_less_Suc2)
  qed
qed

section \<open>Intrusive singly linked lists\<close>

fun lseg :: "('p \<Rightarrow> 'p option) \<Rightarrow> 'p option \<Rightarrow> 'p list \<Rightarrow> 'p option \<Rightarrow> bool" where
  "lseg nx p [] q \<longleftrightarrow> p = q"
| "lseg nx p (x # xs) q \<longleftrightarrow> p = Some x \<and> lseg nx (nx x) xs q"

abbreviation llist :: "('p \<Rightarrow> 'p option) \<Rightarrow> 'p option \<Rightarrow> 'p list \<Rightarrow> bool" where
  "llist nx p xs \<equiv> lseg nx p xs None"

lemma lseg_append:
  "lseg nx p (xs @ ys) q \<longleftrightarrow> (\<exists>r. lseg nx p xs r \<and> lseg nx r ys q)"
  by (induction xs arbitrary: p) auto

lemma lseg_cong:
  "(\<And>x. x \<in> set xs \<Longrightarrow> nx x = nx' x) \<Longrightarrow> lseg nx p xs q = lseg nx' p xs q"
  by (induction xs arbitrary: p) auto

lemma lseg_upd [simp]: "a \<notin> set xs \<Longrightarrow> lseg (nx(a := v)) p xs q = lseg nx p xs q"
  by (rule lseg_cong) auto

lemma llist_None [simp]: "llist nx None xs \<longleftrightarrow> xs = []"
  by (cases xs) auto

lemma llist_Some: "llist nx (Some a) xs \<longleftrightarrow> (\<exists>ys. xs = a # ys \<and> llist nx (nx a) ys)"
  by (cases xs) auto

lemma llist_unique: "llist nx p xs \<Longrightarrow> llist nx p ys \<Longrightarrow> xs = ys"
  by (induction xs arbitrary: p ys) (auto simp: llist_Some)

lemma llist_distinct: "llist nx p xs \<Longrightarrow> distinct xs"
proof (induction xs arbitrary: p)
  case Nil
  then show ?case by simp
next
  case (Cons x xs)
  have "x \<notin> set xs"
  proof
    assume "x \<in> set xs"
    then obtain us vs where "xs = us @ x # vs" by (auto dest: split_list)
    then have "llist nx (nx x) vs" "llist nx (nx x) (us @ x # vs)"
      using Cons.prems by (auto simp: lseg_append)
    from llist_unique [OF this] show False by simp
  qed
  then show ?case using Cons by auto
qed

lemma llist_snoc_last:
  "llist nx p (xs @ [x]) \<Longrightarrow> lseg nx p xs (Some x) \<and> nx x = None"
  by (auto simp: lseg_append)

lemma lseg_snoc_upd:
  assumes "lseg nx p xs None" "xs \<noteq> []" "x \<notin> set xs" "distinct xs"
  shows "lseg (nx(last xs := Some x, x := None)) p (xs @ [x]) None"
proof -
  obtain ys l where xs: "xs = ys @ [l]" using assms(2) by (metis append_butlast_last_id)
  then show ?thesis
    using assms by (auto simp: lseg_append)
qed

end
