(* ===== verification/Cap_Slot.thy ===== *)
theory Cap_Slot
  imports Kernel_Prelude
begin

unbundle bit_operations_syntax

text \<open>
  Capability slots: \<open>kernel/src/cap/slot.rs\<close>. The slot identifier, the tag, the rights
  bitmask and the slot record with its derivation links, and the encoding of the intrusive
  free list in \<open>deriv_parent\<close> of a null slot.
\<close>

section \<open>Identifiers, tags and rights\<close>

text \<open>\<open>index\<close> is a \<open>NonZeroU32\<close>; only \<open>SlotId_new\<close> builds one from a user value, and it
  panics on zero.\<close>

record slot_id =
  cspace_id :: nat
  index :: nat

definition SlotId_new :: "nat \<Rightarrow> nat \<Rightarrow> slot_id run" where
  "SlotId_new c i = (if i = 0 then panic else ret \<lparr>cspace_id = c, index = i\<rparr>)"

datatype cap_tag =
    TagNull | TagFrame | TagAddressSpace | TagEndpoint | TagSignal | TagEventQueue
  | TagInterrupt | TagMmioRegion | TagThread | TagCSpace | TagWaitSet | TagIoPortRange
  | TagSchedControl | TagSbiControl

type_synonym rights = u32

definition NONE :: rights where "NONE = 0"
definition MAP :: rights where "MAP = push_bit 0 1"
definition WRITE :: rights where "WRITE = push_bit 1 1"
definition EXECUTE :: rights where "EXECUTE = push_bit 2 1"
definition READ :: rights where "READ = push_bit 3 1"
definition SEND :: rights where "SEND = push_bit 4 1"
definition RECEIVE :: rights where "RECEIVE = push_bit 5 1"
definition GRANT :: rights where "GRANT = push_bit 6 1"
definition SIGNAL :: rights where "SIGNAL = push_bit 7 1"
definition WAIT :: rights where "WAIT = push_bit 8 1"
definition POST :: rights where "POST = push_bit 9 1"
definition RECV :: rights where "RECV = push_bit 10 1"
definition CONTROL :: rights where "CONTROL = push_bit 11 1"
definition OBSERVE :: rights where "OBSERVE = push_bit 12 1"
definition INSERT :: rights where "INSERT = push_bit 13 1"
definition DELETE :: rights where "DELETE = push_bit 14 1"
definition DERIVE :: rights where "DERIVE = push_bit 15 1"
definition REVOKE :: rights where "REVOKE = push_bit 16 1"
definition MODIFY :: rights where "MODIFY = push_bit 17 1"
definition USE :: rights where "USE = push_bit 18 1"
definition ELEVATE :: rights where "ELEVATE = push_bit 19 1"
definition CALL :: rights where "CALL = push_bit 20 1"

lemmas rights_defs =
  NONE_def MAP_def WRITE_def EXECUTE_def READ_def SEND_def RECEIVE_def GRANT_def SIGNAL_def
  WAIT_def POST_def RECV_def CONTROL_def OBSERVE_def INSERT_def DELETE_def DERIVE_def
  REVOKE_def MODIFY_def USE_def ELEVATE_def CALL_def

definition contains :: "rights \<Rightarrow> rights \<Rightarrow> bool" where
  "contains r m \<longleftrightarrow> r AND m = m"

definition violates_wx :: "rights \<Rightarrow> bool" where
  "violates_wx r \<longleftrightarrow> contains r (WRITE OR EXECUTE)"

section \<open>Slots\<close>

record capability_slot =
  tag :: cap_tag
  rights :: rights
  token :: u64
  object :: "ptr option"
  deriv_parent :: "slot_id option"
  deriv_first_child :: "slot_id option"
  deriv_next_sibling :: "slot_id option"
  deriv_prev_sibling :: "slot_id option"

definition null_slot :: capability_slot where
  "null_slot = \<lparr>tag = TagNull, rights = NONE, token = 0, object = None, deriv_parent = None,
     deriv_first_child = None, deriv_next_sibling = None, deriv_prev_sibling = None\<rparr>"

definition is_null :: "capability_slot \<Rightarrow> bool" where
  "is_null s \<longleftrightarrow> tag s = TagNull"

definition clear :: "capability_slot \<Rightarrow> capability_slot" where
  "clear s = null_slot"

definition set_next_free :: "nat option \<Rightarrow> capability_slot \<Rightarrow> capability_slot run" where
  "set_next_free nxt s =
     (let s = s\<lparr>tag := TagNull, rights := NONE, token := 0, object := None,
        deriv_first_child := None, deriv_next_sibling := None, deriv_prev_sibling := None\<rparr>
      in case nxt of
           None \<Rightarrow> ret (s\<lparr>deriv_parent := None\<rparr>)
         | Some i \<Rightarrow> (if i = 0 then panic
                     else ret (s\<lparr>deriv_parent := Some \<lparr>cspace_id = 0, index = i\<rparr>\<rparr>)))"

text \<open>The debug assertion that the slot is null is a panic.\<close>

definition next_free :: "capability_slot \<Rightarrow> nat option run" where
  "next_free s = (if tag s = TagNull then ret (map_option index (deriv_parent s)) else panic)"

text \<open>The content of a slot on the free list whose successor is \<open>nxt\<close>.\<close>

definition free_slot_value :: "nat option \<Rightarrow> capability_slot" where
  "free_slot_value nxt =
     null_slot\<lparr>deriv_parent := map_option (\<lambda>i. \<lparr>cspace_id = 0, index = i\<rparr>) nxt\<rparr>"

section \<open>Lemmas\<close>

lemma set_next_free_eq:
  "set_next_free nxt s = (if nxt = Some 0 then panic else ret (free_slot_value nxt))"
  by (cases s; cases nxt)
    (auto simp: set_next_free_def free_slot_value_def null_slot_def Let_def)

lemma next_free_free_slot [simp]: "next_free (free_slot_value nxt) = ret nxt"
  by (cases nxt) (auto simp: next_free_def free_slot_value_def null_slot_def)

lemma is_null_free_slot [simp]: "is_null (free_slot_value nxt)"
  by (simp add: is_null_def free_slot_value_def null_slot_def)

lemma is_null_null_slot [simp]: "is_null null_slot"
  by (simp add: is_null_def null_slot_def)

lemma next_free_null_slot [simp]: "next_free null_slot = ret None"
  by (simp add: next_free_def null_slot_def)

lemma free_slot_value_None: "free_slot_value None = null_slot"
  by (simp add: free_slot_value_def null_slot_def)

lemma free_slot_value_sel [simp]:
  "tag (free_slot_value nxt) = TagNull" "rights (free_slot_value nxt) = 0"
  "object (free_slot_value nxt) = None" "deriv_first_child (free_slot_value nxt) = None"
  by (simp_all add: free_slot_value_def null_slot_def NONE_def)

lemma next_free_None_iff [simp]: "next_free s = None \<longleftrightarrow> \<not> is_null s"
  by (simp add: next_free_def is_null_def)

text \<open>Containment of rights masks is a partial order with intersection as meet; deriving a
  capability intersects its rights with a mask.\<close>

lemma contains_refl [simp]: "contains r r"
  by (simp add: contains_def)

lemma contains_trans: "contains a b \<Longrightarrow> contains b c \<Longrightarrow> contains a c"
  by (metis contains_def word_bw_assocs(1))

lemma contains_antisym: "contains a b \<Longrightarrow> contains b a \<Longrightarrow> a = b"
  by (metis contains_def word_bw_comms(1))

lemma contains_and [simp]: "contains r (r AND m)"
  by (simp add: contains_def word_bw_assocs(1) [symmetric])

lemma contains_and_mono: "contains r s \<Longrightarrow> contains r (s AND m)"
  using contains_and contains_trans by blast

lemma contains_bit_iff: "contains r m \<longleftrightarrow> (\<forall>i. bit m i \<longrightarrow> bit r i)"
proof
  assume "contains r m"
  then show "\<forall>i. bit m i \<longrightarrow> bit r i" by (metis contains_def bit_and_iff)
next
  assume "\<forall>i. bit m i \<longrightarrow> bit r i"
  then show "contains r m" by (auto simp: contains_def bit_and_iff intro: bit_word_eqI)
qed

lemma contains_or: "contains r (a OR b) \<longleftrightarrow> contains r a \<and> contains r b"
  by (auto simp: contains_bit_iff bit_or_iff)

end
