(* ===== verification/Cap_Space.thy ===== *)
theory Cap_Space
  imports Cap_Slot
begin

text \<open>
  Capability spaces: \<open>kernel/src/cap/cspace.rs\<close>. A CSpace is a two-level directory of
  64-slot pages that grows on demand; its free slots form a singly linked list threaded through
  \<open>deriv_parent\<close> of the null slots. The spinlock is not modelled: each operation is one atomic
  step under the lock.

  The representation predicate \<open>cs_rep cs fl\<close> says that the pages are a prefix of the
  directory, that the usable slots are exactly \<open>1..allocated_slots\<close>, and that the free list
  visits the list \<open>fl\<close> of distinct null slots; every operation is described by its effect on
  \<open>fl\<close> and on the slot contents.
\<close>

section \<open>Model\<close>

definition L2_SIZE :: nat where "L2_SIZE = 64"
definition L1_SIZE :: nat where "L1_SIZE = 256"

datatype cap_error = OutOfSlots | OutOfMemory | InvalidIndex | WxViolation

type_synonym cspace_page = "capability_slot list"

record cspace =
  cs_id :: nat
  directory :: "cspace_page option list"
  allocated_slots :: nat
  max_slots :: nat
  free_head :: "nat option"
  free_count :: nat

definition CSpace_new :: "nat \<Rightarrow> nat \<Rightarrow> cspace" where
  "CSpace_new i m = \<lparr>cs_id = i, directory = replicate L1_SIZE None, allocated_slots = 0,
     max_slots = m, free_head = None, free_count = 0\<rparr>"

text \<open>\<open>slot\<close> and \<open>slot_mut\<close> index the directory array with a bounds check: an index past the
  last directory entry panics, an unallocated page gives \<open>None\<close>. \<open>put_slot\<close> is the store
  through the reference that \<open>slot_mut\<close> returned.\<close>

definition slot :: "cspace \<Rightarrow> nat \<Rightarrow> capability_slot option run" where
  "slot cs i =
     (let page_idx = i div L2_SIZE; slot_idx = i mod L2_SIZE
      in if page_idx < length (directory cs)
         then ret (map_option (\<lambda>p. p ! slot_idx) (directory cs ! page_idx))
         else panic)"

definition put_slot :: "cspace \<Rightarrow> nat \<Rightarrow> capability_slot \<Rightarrow> cspace" where
  "put_slot cs i s =
     (let page_idx = i div L2_SIZE; slot_idx = i mod L2_SIZE
      in cs\<lparr>directory := (directory cs)
           [page_idx := map_option (\<lambda>p. p[slot_idx := s]) (directory cs ! page_idx)]\<rparr>)"

text \<open>The loop of \<open>grow\<close> over \<open>(start_slot..end_slot).rev()\<close>: \<open>k\<close> slots remain.\<close>

fun thread_free ::
  "nat \<Rightarrow> nat \<Rightarrow> nat \<Rightarrow> cspace_page \<Rightarrow> nat option \<Rightarrow> (cspace_page \<times> nat option) run"
where
  "thread_free base start 0 page nxt = ret (page, nxt)"
| "thread_free base start (Suc k) page nxt =
     (case set_next_free nxt (page ! (start + k)) of
        None \<Rightarrow> panic
      | Some s \<Rightarrow> thread_free base start k (page[start + k := s]) (Some (base + (start + k))))"

definition grow :: "cspace \<Rightarrow> ((cap_error, unit) result \<times> cspace) run" where
  "grow cs =
     (case position (\<lambda>p. p = None) (directory cs) of
        None \<Rightarrow> ret (Inl OutOfSlots, cs)
      | Some page_idx \<Rightarrow>
          (let base = page_idx * L2_SIZE;
               start_slot = (if page_idx = 0 then 1 else 0);
               available = L2_SIZE - start_slot;
               remaining_quota = max_slots cs - allocated_slots cs;
               new_free = min available remaining_quota
           in if new_free = 0 then ret (Inl OutOfSlots, cs)
              else do {
                (page, nxt) \<leftarrow> thread_free base start_slot new_free
                                 (replicate L2_SIZE null_slot) (free_head cs);
                ret (Inr (), cs\<lparr>free_head := nxt,
                       allocated_slots := allocated_slots cs + new_free,
                       free_count := free_count cs + new_free,
                       directory := (directory cs)[page_idx := Some page]\<rparr>)
              }))"

definition allocate_slot :: "cspace \<Rightarrow> ((cap_error, nat) result \<times> cspace) run" where
  "allocate_slot cs = do {
     (r, cs) \<leftarrow> (if free_head cs = None then grow cs else ret (Inr (), cs));
     (case r of
        Inl e \<Rightarrow> ret (Inl e, cs)
      | Inr _ \<Rightarrow>
          (case free_head cs of
             None \<Rightarrow> ret (Inl OutOfSlots, cs)
           | Some idx \<Rightarrow> do {
               s \<leftarrow> slot cs idx;
               (case s of
                  None \<Rightarrow> ret (Inl InvalidIndex, cs)
                | Some s \<Rightarrow> do {
                    nxt \<leftarrow> next_free s;
                    let cs = put_slot (cs\<lparr>free_head := nxt\<rparr>) idx (clear s);
                    n \<leftarrow> usub (free_count cs) 1;
                    ret (Inr idx, cs\<lparr>free_count := n\<rparr>)
                  })
             }))
   }"

definition free_slot :: "nat \<Rightarrow> cspace \<Rightarrow> cspace run" where
  "free_slot i cs = do {
     s \<leftarrow> slot cs i;
     (case s of
        None \<Rightarrow> ret cs
      | Some s \<Rightarrow> do {
          s' \<leftarrow> set_next_free (free_head cs) s;
          ret ((put_slot cs i s')\<lparr>free_head := Some i, free_count := free_count cs + 1\<rparr>)
        })
   }"

text \<open>The populated slot that \<open>insert_cap\<close> and \<open>insert_cap_at\<close> write field by field.\<close>

definition cap_slot :: "cap_tag \<Rightarrow> rights \<Rightarrow> ptr \<Rightarrow> capability_slot \<Rightarrow> capability_slot" where
  "cap_slot t r ob s = s\<lparr>tag := t, rights := r, token := 0, object := Some ob,
     deriv_parent := None, deriv_first_child := None, deriv_next_sibling := None,
     deriv_prev_sibling := None\<rparr>"

definition insert_cap ::
  "cap_tag \<Rightarrow> rights \<Rightarrow> ptr \<Rightarrow> cspace \<Rightarrow> ((cap_error, nat) result \<times> cspace) run"
where
  "insert_cap t r ob cs = do {
     (res, cs) \<leftarrow> allocate_slot cs;
     (case res of
        Inl e \<Rightarrow> ret (Inl e, cs)
      | Inr i \<Rightarrow> do {
          s \<leftarrow> slot cs i;
          (case s of
             None \<Rightarrow> ret (Inl InvalidIndex, cs)
           | Some s \<Rightarrow> ret (Inr i, put_slot cs i (cap_slot t r ob s)))
        })
   }"

partial_function (option) pre_allocate ::
  "nat \<Rightarrow> cspace \<Rightarrow> ((cap_error, unit) result \<times> cspace) run"
where
  "pre_allocate min_free cs =
     (if free_count cs < min_free
      then (case grow cs of
              None \<Rightarrow> None
            | Some (r, cs') \<Rightarrow>
                (case r of Inl e \<Rightarrow> Some (Inl e, cs') | Inr _ \<Rightarrow> pre_allocate min_free cs'))
      else Some (Inr (), cs))"

text \<open>\<open>self.slot(i).and_then(CapabilitySlot::next_free)\<close>.\<close>

definition slot_next_free :: "cspace \<Rightarrow> nat \<Rightarrow> nat option run" where
  "slot_next_free cs i = do {
     s \<leftarrow> slot cs i;
     (case s of None \<Rightarrow> ret None | Some s \<Rightarrow> next_free s)
   }"

partial_function (option) walk_free_list :: "nat \<Rightarrow> nat \<Rightarrow> cspace \<Rightarrow> (bool \<times> cspace) run"
where
  "walk_free_list target cur cs =
     (case slot_next_free cs cur of
        None \<Rightarrow> None
      | Some None \<Rightarrow> Some (False, cs)
      | Some (Some next_idx) \<Rightarrow>
          (if next_idx = target
           then do {
             after \<leftarrow> slot_next_free cs target;
             s \<leftarrow> slot cs cur;
             (case s of
                None \<Rightarrow> None
              | Some s \<Rightarrow> do {
                  s' \<leftarrow> set_next_free after s;
                  n \<leftarrow> usub (free_count cs) 1;
                  Some (True, (put_slot cs cur s')\<lparr>free_count := n\<rparr>)
                })
           }
           else walk_free_list target next_idx cs))"

definition remove_from_free_list :: "nat \<Rightarrow> cspace \<Rightarrow> (bool \<times> cspace) run" where
  "remove_from_free_list target cs =
     (if free_head cs = Some target
      then do {
        nxt \<leftarrow> slot_next_free cs target;
        n \<leftarrow> usub (free_count cs) 1;
        ret (True, cs\<lparr>free_head := nxt, free_count := n\<rparr>)
      }
      else (case free_head cs of
              None \<Rightarrow> ret (False, cs)
            | Some cur \<Rightarrow> walk_free_list target cur cs))"

text \<open>The loop \<open>while self.directory[page_idx].is_none() { self.grow()?; }\<close>.\<close>

partial_function (option) grow_until ::
  "nat \<Rightarrow> cspace \<Rightarrow> ((cap_error, unit) result \<times> cspace) run"
where
  "grow_until page_idx cs =
     (if length (directory cs) \<le> page_idx then None
      else if directory cs ! page_idx = None
      then (case grow cs of
              None \<Rightarrow> None
            | Some (r, cs') \<Rightarrow>
                (case r of Inl e \<Rightarrow> Some (Inl e, cs') | Inr _ \<Rightarrow> grow_until page_idx cs'))
      else Some (Inr (), cs))"

definition insert_cap_at ::
  "nat \<Rightarrow> cap_tag \<Rightarrow> rights \<Rightarrow> ptr \<Rightarrow> cspace \<Rightarrow> ((cap_error, unit) result \<times> cspace) run"
where
  "insert_cap_at i t r ob cs =
     (if i = 0 then ret (Inl InvalidIndex, cs)
      else if max_slots cs \<le> i then ret (Inl InvalidIndex, cs)
      else do {
        (g, cs) \<leftarrow> grow_until (i div L2_SIZE) cs;
        (case g of
           Inl e \<Rightarrow> ret (Inl e, cs)
         | Inr _ \<Rightarrow> do {
             s \<leftarrow> slot cs i;
             (case s of
                None \<Rightarrow> ret (Inl InvalidIndex, cs)
              | Some s \<Rightarrow>
                  (if \<not> is_null s then ret (Inl InvalidIndex, cs)
                   else do {
                     (_, cs) \<leftarrow> remove_from_free_list i cs;
                     s \<leftarrow> slot cs i;
                     (case s of
                        None \<Rightarrow> ret (Inl InvalidIndex, cs)
                      | Some s \<Rightarrow> ret (Inr (), put_slot cs i (cap_slot t r ob s)))
                   }))
           })
      })"

definition populated_count :: "cspace \<Rightarrow> nat run" where
  "populated_count cs = usub (allocated_slots cs) (free_count cs)"

text \<open>The objects that \<open>for_each_object\<close> passes to its closure, in order.\<close>

definition page_objects :: "nat \<Rightarrow> cspace_page \<Rightarrow> ptr list" where
  "page_objects start page =
     List.map_filter (\<lambda>s. if tag s \<noteq> TagNull then object s else None) (drop start page)"

definition for_each_object :: "cspace \<Rightarrow> ptr list" where
  "for_each_object cs =
     concat (map (\<lambda>page_idx. case directory cs ! page_idx of
                    None \<Rightarrow> []
                  | Some page \<Rightarrow> page_objects (if page_idx = 0 then 1 else 0) page)
             [0..<L1_SIZE])"

section \<open>Reading and writing slots\<close>

text \<open>The contract between a store of capability slots and its clients: a write is read back at
  the same place and nowhere else. It is interpreted here for one CSpace, addressed by slot
  index, and in the derivation theory for the whole system, addressed by slot identifier.\<close>

locale slot_store =
  fixes wf :: "'st \<Rightarrow> bool"
    and get :: "'st \<Rightarrow> 'i \<Rightarrow> capability_slot option"
    and put :: "'st \<Rightarrow> 'i \<Rightarrow> capability_slot \<Rightarrow> 'st"
  assumes wf_put: "wf st \<Longrightarrow> wf (put st i s)"
    and get_put: "wf st \<Longrightarrow> get st i \<noteq> None \<Longrightarrow>
      get (put st i s) j = (if j = i then Some s else get st j)"
begin

lemma get_put_upd: "wf st \<Longrightarrow> get st i = Some s0 \<Longrightarrow> get (put st i s) = (get st)(i \<mapsto> s)"
  by (rule ext) (simp add: get_put)

lemma dom_put: "wf st \<Longrightarrow> get st i = Some s0 \<Longrightarrow> dom (get (put st i s)) = dom (get st)"
  by (auto simp: get_put_upd)

lemma put_commute:
  assumes "wf st" "get st i = Some a" "get st j = Some b" "i \<noteq> j"
  shows "get (put (put st i s) j t) = get (put (put st j t) i s)"
proof -
  have "get (put st i s) j = Some b" "get (put st j t) i = Some a"
    using assms by (simp_all add: get_put)
  then show ?thesis
    using assms by (simp add: get_put_upd [OF wf_put] get_put_upd fun_upd_twist)
qed

end

text \<open>What the proofs see of the directory: the slot of an index, without the bounds check of \<open>slot\<close>.\<close>

definition slot_at :: "cspace \<Rightarrow> nat \<Rightarrow> capability_slot option" where
  "slot_at cs i =
     (if i div L2_SIZE < length (directory cs)
      then map_option (\<lambda>p. p ! (i mod L2_SIZE)) (directory cs ! (i div L2_SIZE)) else None)"

definition dir_wf :: "cspace \<Rightarrow> bool" where
  "dir_wf cs \<longleftrightarrow> length (directory cs) = L1_SIZE \<and>
     (\<forall>p \<in> set (directory cs). \<forall>pg. p = Some pg \<longrightarrow> length pg = L2_SIZE)"

lemma slot_eq: "slot cs i =
    (if i div L2_SIZE < length (directory cs) then ret (slot_at cs i) else panic)"
  by (simp add: slot_def slot_at_def Let_def)

lemma slot_of_slot_at: "slot_at cs i = Some s \<Longrightarrow> slot cs i = ret (Some s)"
  by (auto simp: slot_eq slot_at_def split: if_splits)

lemma slot_panic_iff: "dir_wf cs \<Longrightarrow> slot cs i = panic \<longleftrightarrow> L1_SIZE * L2_SIZE \<le> i"
  by (auto simp: slot_eq dir_wf_def L1_SIZE_def L2_SIZE_def)

lemma slot_in_range: "dir_wf cs \<Longrightarrow> i < L1_SIZE * L2_SIZE \<Longrightarrow> slot cs i = ret (slot_at cs i)"
  by (auto simp: slot_eq dir_wf_def L1_SIZE_def L2_SIZE_def)

lemma put_slot_sel [simp]:
  "cs_id (put_slot cs i s) = cs_id cs" "allocated_slots (put_slot cs i s) = allocated_slots cs"
  "max_slots (put_slot cs i s) = max_slots cs" "free_head (put_slot cs i s) = free_head cs"
  "free_count (put_slot cs i s) = free_count cs"
  "length (directory (put_slot cs i s)) = length (directory cs)"
  by (simp_all add: put_slot_def Let_def)

lemma put_slot_page_None [simp]:
  "directory (put_slot cs i s) ! k = None \<longleftrightarrow> directory cs ! k = None"
  by (cases "k = i div L2_SIZE"; cases "k < length (directory cs)")
    (auto simp: put_slot_def Let_def list_update_beyond not_less)

lemma dir_wf_put: "dir_wf cs \<Longrightarrow> dir_wf (put_slot cs i s)"
proof (cases "i div L2_SIZE < length (directory cs)")
  case True
  assume wf: "dir_wf cs"
  then have "\<forall>pg. directory cs ! (i div L2_SIZE) = Some pg \<longrightarrow> length pg = L2_SIZE"
    using True nth_mem unfolding dir_wf_def by metis
  then show ?thesis
    using wf True
    by (cases "directory cs ! (i div L2_SIZE)") (auto simp: dir_wf_def put_slot_def Let_def
        dest!: set_update_subset_insert [THEN subsetD])
next
  case False
  assume "dir_wf cs"
  then show ?thesis using False
    by (simp add: dir_wf_def put_slot_def Let_def list_update_beyond not_less)
qed

lemma slot_at_put:
  assumes wf: "dir_wf cs" and "slot_at cs i \<noteq> None"
  shows "slot_at (put_slot cs i s) j = (if j = i then Some s else slot_at cs j)"
proof -
  obtain pg where pg: "i div L2_SIZE < length (directory cs)"
      "directory cs ! (i div L2_SIZE) = Some pg"
    using assms(2) by (auto simp: slot_at_def split: if_splits)
  then have len: "length pg = L2_SIZE" using wf by (metis dir_wf_def nth_mem)
  have "i mod L2_SIZE < L2_SIZE" by (simp add: L2_SIZE_def)
  moreover have "j = i \<longleftrightarrow> j div L2_SIZE = i div L2_SIZE \<and> j mod L2_SIZE = i mod L2_SIZE"
    by (metis div_mult_mod_eq)
  ultimately show ?thesis
    using pg len by (auto simp: slot_at_def put_slot_def Let_def nth_list_update)
qed

interpretation cslots: slot_store dir_wf slot_at put_slot
  by unfold_locales (auto simp: dir_wf_put slot_at_put)

lemma slot_at_cong [simp]:
  "slot_at (cs\<lparr>free_head := h\<rparr>) = slot_at cs" "slot_at (cs\<lparr>free_count := n\<rparr>) = slot_at cs"
  by (rule ext, simp add: slot_at_def)+

lemma dir_wf_cong [simp]:
  "dir_wf (cs\<lparr>free_head := h\<rparr>) = dir_wf cs" "dir_wf (cs\<lparr>free_count := n\<rparr>) = dir_wf cs"
  by (simp_all add: dir_wf_def)

section \<open>The representation predicate\<close>

text \<open>The successor that the free-list encoding stores in slot \<open>i\<close>.\<close>

definition free_next :: "cspace \<Rightarrow> nat \<Rightarrow> nat option" where
  "free_next cs i = (case slot_at cs i of None \<Rightarrow> None | Some s \<Rightarrow> map_option index (deriv_parent s))"

lemma free_next_cong [simp]:
  "free_next (cs\<lparr>free_head := h\<rparr>) = free_next cs" "free_next (cs\<lparr>free_count := n\<rparr>) = free_next cs"
  by (rule ext, simp add: free_next_def)+

text \<open>\<open>n\<close> pages are allocated, they are the first \<open>n\<close> directory entries, and the quota is
  spread over them.\<close>

definition pages_rep :: "cspace \<Rightarrow> nat \<Rightarrow> bool" where
  "pages_rep cs n \<longleftrightarrow> n \<le> L1_SIZE \<and> (\<forall>k < L1_SIZE. directory cs ! k = None \<longleftrightarrow> n \<le> k) \<and>
     allocated_slots cs = min (max_slots cs) (n * L2_SIZE - 1) \<and>
     (0 < n \<longrightarrow> (n - 1) * L2_SIZE - 1 < max_slots cs)"

text \<open>The abstract content of a CSpace: the capabilities it holds, by slot index.\<close>

definition caps :: "cspace \<Rightarrow> nat \<Rightarrow> capability_slot option" where
  "caps cs i = (case slot_at cs i of None \<Rightarrow> None | Some s \<Rightarrow> if is_null s then None else Some s)"

definition usable :: "cspace \<Rightarrow> nat set" where
  "usable cs = {i. 0 < i \<and> i \<le> allocated_slots cs}"

definition cs_rep :: "cspace \<Rightarrow> nat list \<Rightarrow> bool" where
  "cs_rep cs fl \<longleftrightarrow> dir_wf cs \<and> (\<exists>n. pages_rep cs n) \<and>
     llist (free_next cs) (free_head cs) fl \<and> free_count cs = length fl \<and>
     set fl \<subseteq> usable cs \<and> dom (caps cs) \<subseteq> usable cs - set fl"

text \<open>Every usable slot off the free list holds a capability: true whenever no operation is in
  progress.\<close>

definition cs_full :: "cspace \<Rightarrow> nat list \<Rightarrow> bool" where
  "cs_full cs fl \<longleftrightarrow> cs_rep cs fl \<and> dom (caps cs) = usable cs - set fl"

text \<open>How many slots the CSpace can hold: the quota, clipped by the directory; slot 0 is never
  usable.\<close>

definition capacity :: "cspace \<Rightarrow> nat" where
  "capacity cs = min (max_slots cs) (L1_SIZE * L2_SIZE - 1)"

lemma cs_rep_wf: "cs_rep cs fl \<Longrightarrow> dir_wf cs"
  by (simp add: cs_rep_def)

lemma cs_rep_distinct: "cs_rep cs fl \<Longrightarrow> distinct fl"
  by (auto simp: cs_rep_def dest: llist_distinct)

lemma cs_rep_unique: "cs_rep cs fl \<Longrightarrow> cs_rep cs fl' \<Longrightarrow> fl = fl'"
  by (auto simp: cs_rep_def dest: llist_unique)

lemma pages_slot_at:
  assumes "dir_wf cs" "pages_rep cs n"
  shows "slot_at cs i = None \<longleftrightarrow> n * L2_SIZE \<le> i"
proof -
  have "n * L2_SIZE \<le> i \<longleftrightarrow> n \<le> i div L2_SIZE"
    by (simp add: L2_SIZE_def less_eq_div_iff_mult_less_eq)
  then show ?thesis
    using assms by (auto simp: slot_at_def pages_rep_def dir_wf_def not_less)
qed

lemma usable_slot_at:
  assumes "cs_rep cs fl" "i \<in> usable cs"
  shows "\<exists>s. slot_at cs i = Some s"
proof -
  obtain n where n: "pages_rep cs n" using assms(1) by (auto simp: cs_rep_def)
  have "i < n * L2_SIZE"
    using assms(2) n by (auto simp: pages_rep_def L2_SIZE_def usable_def)
  then show ?thesis
    using pages_slot_at [OF cs_rep_wf [OF assms(1)] n, of i] by auto
qed

lemma allocated_le_capacity: "cs_rep cs fl \<Longrightarrow> allocated_slots cs \<le> capacity cs"
  by (auto simp: cs_rep_def pages_rep_def capacity_def L1_SIZE_def L2_SIZE_def)

lemma usable_in_range: "cs_rep cs fl \<Longrightarrow> i \<in> usable cs \<Longrightarrow> i < L1_SIZE * L2_SIZE"
  using allocated_le_capacity [of cs fl]
  by (auto simp: capacity_def L1_SIZE_def L2_SIZE_def usable_def)

lemma caps_Some: "caps cs i = Some s \<longleftrightarrow> slot_at cs i = Some s \<and> \<not> is_null s"
  by (auto simp: caps_def split: option.splits)

lemma caps_None: "caps cs i = None \<longleftrightarrow> (\<forall>s. slot_at cs i = Some s \<longrightarrow> is_null s)"
  by (auto simp: caps_def split: option.splits)

lemma caps_upd:
  "slot_at cs' = (slot_at cs)(i \<mapsto> s) \<Longrightarrow>
    caps cs' = (caps cs)(i := if is_null s then None else Some s)"
  by (auto simp: caps_def fun_eq_iff)

lemma caps_cong [simp]:
  "caps (cs\<lparr>free_head := h\<rparr>) = caps cs" "caps (cs\<lparr>free_count := n\<rparr>) = caps cs"
  by (rule ext, simp add: caps_def)+

lemma usable_cong [simp]:
  "usable (cs\<lparr>free_head := h\<rparr>) = usable cs" "usable (cs\<lparr>free_count := n\<rparr>) = usable cs"
  "usable (put_slot cs i s) = usable cs"
  by (simp_all add: usable_def)

lemma free_null:
  assumes "cs_rep cs fl" "i \<in> set fl"
  shows "\<exists>s. slot_at cs i = Some s \<and> is_null s"
proof -
  have "i \<in> usable cs" "caps cs i = None" using assms by (auto simp: cs_rep_def)
  then show ?thesis using usable_slot_at [OF assms(1)] by (fastforce simp: caps_None)
qed

lemma new_caps [simp]: "caps (CSpace_new i m) = Map.empty"
  by (rule ext) (simp add: caps_def slot_at_def CSpace_new_def)

lemma new_rep: "cs_rep (CSpace_new i m) []"
  by (auto simp: cs_rep_def dir_wf_def pages_rep_def)
    (auto simp: CSpace_new_def intro!: exI [of _ 0])

lemma new_full: "cs_full (CSpace_new i m) []"
  by (auto simp: cs_full_def new_rep usable_def) (simp add: CSpace_new_def)

section \<open>Growing\<close>

definition threaded :: "nat \<Rightarrow> nat \<Rightarrow> nat \<Rightarrow> nat option \<Rightarrow> cspace_page \<Rightarrow> cspace_page" where
  "threaded base start k nxt page =
     map (\<lambda>i. if start \<le> i \<and> i < start + k
              then free_slot_value (if Suc i = start + k then nxt else Some (Suc (base + i)))
              else page ! i) [0..<length page]"

lemma thread_free_spec:
  assumes "start + k \<le> length page" "0 < k \<longrightarrow> nxt \<noteq> Some 0"
  shows "thread_free base start k page nxt =
    ret (threaded base start k nxt page, if k = 0 then nxt else Some (base + start))"
  using assms
proof (induction k arbitrary: page nxt)
  case 0
  then show ?case by (auto simp: threaded_def intro!: nth_equalityI)
next
  case (Suc k)
  let ?page = "page[start + k := free_slot_value nxt]"
  have "threaded base start k (Some (base + (start + k))) ?page
      = threaded base start (Suc k) nxt page"
    using Suc.prems by (intro nth_equalityI)
      (auto simp: threaded_def nth_list_update
        intro!: arg_cong [where f = "\<lambda>x. free_slot_value (Some x)"])
  then show ?case using Suc by (auto simp: set_next_free_eq)
qed

lemma free_next_free_slot: "slot_at cs i = Some (free_slot_value nx) \<Longrightarrow> free_next cs i = nx"
  by (cases nx) (auto simp: free_next_def free_slot_value_def null_slot_def)

lemma lseg_upt:
  assumes "\<And>i. a \<le> i \<Longrightarrow> i < b \<Longrightarrow> nx i = (if Suc i = b then q else Some (Suc i))" "a < b"
  shows "lseg nx (Some a) [a..<b] q"
  using assms(2,1)
proof (induction "b - a" arbitrary: a)
  case 0
  then show ?case by simp
next
  case (Suc d)
  show ?case
  proof (cases "Suc a = b")
    case True
    then show ?thesis using Suc.prems by (auto simp: upt_rec)
  next
    case False
    then have "lseg nx (Some (Suc a)) [Suc a..<b] q" using Suc by auto
    then show ?thesis using Suc.prems False by (simp add: upt_conv_Cons)
  qed
qed

lemma position_pages:
  assumes "dir_wf cs" "pages_rep cs n"
  shows "position (\<lambda>p. p = None) (directory cs) = (if n < L1_SIZE then Some n else None)"
proof (cases "n < L1_SIZE")
  case True
  then show ?thesis using assms by (simp add: position_Some pages_rep_def dir_wf_def)
next
  case False
  then have "\<forall>k < L1_SIZE. directory cs ! k \<noteq> None" using assms by (auto simp: pages_rep_def)
  then show ?thesis using False assms(1) by (auto simp: position_None dir_wf_def in_set_conv_nth)
qed

lemma free_head_pos: "cs_rep cs fl \<Longrightarrow> free_head cs \<noteq> Some 0"
  by (cases fl) (auto simp: cs_rep_def usable_def)

lemma free_head_None: "cs_rep cs fl \<Longrightarrow> free_head cs = None \<longleftrightarrow> fl = []"
  by (cases fl) (auto simp: cs_rep_def)

text \<open>The CSpace that a successful \<open>grow\<close> leaves, in closed form.\<close>

definition grown :: "cspace \<Rightarrow> nat \<Rightarrow> nat \<Rightarrow> nat \<Rightarrow> cspace" where
  "grown cs n start k = cs\<lparr>free_head := Some (n * L2_SIZE + start),
     allocated_slots := allocated_slots cs + k, free_count := free_count cs + k,
     directory := (directory cs)[n := Some
       (threaded (n * L2_SIZE) start k (free_head cs) (replicate L2_SIZE null_slot))]\<rparr>"

lemma slot_at_grown:
  assumes "dir_wf cs" "n < L1_SIZE" "start + k \<le> L2_SIZE"
  shows "slot_at (grown cs n start k) i =
    (if i div L2_SIZE = n
     then Some (if start \<le> i - n * L2_SIZE \<and> i - n * L2_SIZE < start + k
                then free_slot_value (if Suc i = n * L2_SIZE + start + k then free_head cs
                                      else Some (Suc i))
                else null_slot)
     else slot_at cs i)"
proof (cases "i div L2_SIZE = n")
  case True
  then have "i = n * L2_SIZE + i mod L2_SIZE" "i mod L2_SIZE < L2_SIZE"
    by (simp_all add: L2_SIZE_def) (metis div_mult_mod_eq)
  then obtain j where "i = n * L2_SIZE + j" "j < L2_SIZE" by blast
  then show ?thesis using assms True
    by (auto simp: slot_at_def grown_def threaded_def dir_wf_def)
next
  case False
  then show ?thesis by (auto simp: slot_at_def grown_def)
qed

text \<open>Where the new slots of page \<open>n\<close> start and how many the quota allows.\<close>

lemma grow_quota:
  assumes "pages_rep cs n" "allocated_slots cs < max_slots cs" "n < L1_SIZE"
    and "start = (if n = 0 then 1 else 0)"
    and "k = min (L2_SIZE - start) (max_slots cs - allocated_slots cs)"
  shows "n * L2_SIZE + start = Suc (allocated_slots cs)" "0 < k" "start + k \<le> L2_SIZE"
    "allocated_slots cs + k = min (max_slots cs) (Suc n * L2_SIZE - 1)"
    "n * L2_SIZE - 1 < max_slots cs"
  using assms by (auto simp: pages_rep_def L2_SIZE_def min_def split: if_splits)

lemma grow_eq:
  assumes rep: "cs_rep cs fl" and n: "pages_rep cs n"
    and st: "start = (if n = 0 then 1 else 0)"
    and k: "k = min (L2_SIZE - start) (max_slots cs - allocated_slots cs)"
  shows "grow cs = (if n < L1_SIZE \<and> 0 < k then ret (Inr (), grown cs n start k)
                    else ret (Inl OutOfSlots, cs))"
proof -
  have "start + k \<le> length (replicate L2_SIZE null_slot)" using st k by (auto simp: L2_SIZE_def)
  then have "0 < k \<Longrightarrow> thread_free (n * L2_SIZE) start k (replicate L2_SIZE null_slot) (free_head cs)
      = ret (threaded (n * L2_SIZE) start k (free_head cs) (replicate L2_SIZE null_slot),
             Some (n * L2_SIZE + start))"
    using thread_free_spec free_head_pos [OF rep] by simp
  then show ?thesis
    using position_pages [OF cs_rep_wf [OF rep] n]
    by (simp add: grow_def Let_def grown_def flip: st k)
qed

lemma grown_free_next:
  assumes rep: "cs_rep cs fl" and "n < L1_SIZE" "start + k \<le> L2_SIZE" and n: "pages_rep cs n"
  shows "\<And>i. n * L2_SIZE + start \<le> i \<Longrightarrow> i < n * L2_SIZE + start + k \<Longrightarrow>
      free_next (grown cs n start k) i =
        (if Suc i = n * L2_SIZE + start + k then free_head cs else Some (Suc i))"
    and "i \<in> set fl \<Longrightarrow> free_next (grown cs n start k) i = free_next cs i"
proof -
  have div_n: "n * L2_SIZE \<le> i \<Longrightarrow> i < n * L2_SIZE + L2_SIZE \<Longrightarrow> i div L2_SIZE = n" for i
    by (simp add: L2_SIZE_def)
  fix i assume "n * L2_SIZE + start \<le> i" "i < n * L2_SIZE + start + k"
  then show "free_next (grown cs n start k) i =
        (if Suc i = n * L2_SIZE + start + k then free_head cs else Some (Suc i))"
    using assms(2,3) cs_rep_wf [OF rep] div_n [of i]
    by (intro free_next_free_slot) (auto simp: slot_at_grown)
next
  assume "i \<in> set fl"
  then have "slot_at cs i \<noteq> None" using free_null [OF rep] by auto
  then have "i < n * L2_SIZE" using pages_slot_at [OF cs_rep_wf [OF rep] n] by (metis not_le)
  then have "i div L2_SIZE \<noteq> n" by (auto simp: L2_SIZE_def)
  then show "free_next (grown cs n start k) i = free_next cs i"
    using assms(2,3) cs_rep_wf [OF rep] by (simp add: free_next_def slot_at_grown)
qed

lemma grown_caps:
  assumes "dir_wf cs" "pages_rep cs n" "n < L1_SIZE" "start + k \<le> L2_SIZE"
  shows "caps (grown cs n start k) = caps cs"
proof
  fix i
  have "slot_at cs i = None" if "i div L2_SIZE = n"
    using that pages_slot_at [OF assms(1,2), of i] by (auto simp: L2_SIZE_def)
  then show "caps (grown cs n start k) i = caps cs i"
    by (simp add: caps_def slot_at_grown [OF assms(1,3,4)])
qed

lemma grown_rep:
  assumes rep: "cs_rep cs fl" and n: "pages_rep cs n" and lt: "n < L1_SIZE"
      "allocated_slots cs < max_slots cs"
    and st: "start = (if n = 0 then 1 else 0)"
    and k: "k = min (L2_SIZE - start) (max_slots cs - allocated_slots cs)"
  shows "cs_rep (grown cs n start k)
    ([Suc (allocated_slots cs)..<Suc (allocated_slots cs + k)] @ fl)"
proof -
  let ?cs = "grown cs n start k" and ?a = "allocated_slots cs"
  note q = grow_quota [OF n lt(2,1) st k]
  note wf = cs_rep_wf [OF rep]
  note sa = slot_at_grown [OF wf lt(1) q(3)]
  note fn = grown_free_next [OF rep lt(1) q(3) n]
  have wf': "dir_wf ?cs"
    using wf by (auto simp: dir_wf_def grown_def threaded_def
        dest!: set_update_subset_insert [THEN subsetD])
  have pages: "pages_rep ?cs (Suc n)"
    using n lt q by (auto simp: pages_rep_def grown_def wf [unfolded dir_wf_def] nth_list_update)
  have div_n: "i div L2_SIZE = n" if "?a < i" "i \<le> ?a + k" for i
  proof -
    have "n * L2_SIZE \<le> i" "i < Suc n * L2_SIZE" using that q st by (auto split: if_splits)
    then show ?thesis by (simp add: L2_SIZE_def)
  qed
  have "lseg (free_next ?cs) (Some (Suc ?a)) [Suc ?a..<Suc (?a + k)] (free_head cs)"
    using q(1,2) fn(1) by (intro lseg_upt) (auto simp: q(1))
  moreover have "llist (free_next ?cs) (free_head cs) fl"
    using rep fn(2) by (simp add: cs_rep_def cong: lseg_cong)
  ultimately have "llist (free_next ?cs) (free_head ?cs) ([Suc ?a..<Suc (?a + k)] @ fl)"
    using q(1) by (auto simp: lseg_append grown_def)
  moreover note grown_caps [OF wf n lt(1) q(3)]
  moreover have "usable ?cs = usable cs \<union> {?a<..?a + k}"
    by (auto simp: usable_def grown_def)
  moreover have "{?a<..?a + k} \<inter> usable cs = {}" by (auto simp: usable_def)
  moreover have "free_count ?cs = length ([Suc ?a..<Suc (?a + k)] @ fl)"
    using rep by (simp add: cs_rep_def grown_def)
  moreover have "set ([Suc ?a..<Suc (?a + k)] @ fl) = {?a<..?a + k} \<union> set fl"
    by (auto simp del: upt_Suc)
  moreover have "dom (caps cs) \<subseteq> usable cs - set fl" "set fl \<subseteq> usable cs"
    using rep by (simp_all add: cs_rep_def)
  ultimately have "set ([Suc ?a..<Suc (?a + k)] @ fl) \<subseteq> usable ?cs"
      "dom (caps ?cs) \<subseteq> usable ?cs - set ([Suc ?a..<Suc (?a + k)] @ fl)"
    and "llist (free_next ?cs) (free_head ?cs) ([Suc ?a..<Suc (?a + k)] @ fl)"
    and "free_count ?cs = length ([Suc ?a..<Suc (?a + k)] @ fl)"
    by (simp_all del: upt_Suc) blast+
  then show ?thesis using wf' pages unfolding cs_rep_def by blast
qed

text \<open>What growing may do: the capabilities held, the identity and the quota stay.\<close>

definition extends :: "cspace \<Rightarrow> cspace \<Rightarrow> bool" where
  "extends cs cs' \<longleftrightarrow> cs_id cs' = cs_id cs \<and> max_slots cs' = max_slots cs \<and>
     allocated_slots cs \<le> allocated_slots cs' \<and> caps cs' = caps cs"

lemma extends_refl [simp]: "extends cs cs"
  by (simp add: extends_def)

lemma extends_trans: "extends a b \<Longrightarrow> extends b c \<Longrightarrow> extends a c"
  by (simp add: extends_def)

lemma extends_capacity: "extends cs cs' \<Longrightarrow> capacity cs' = capacity cs"
  by (simp add: extends_def capacity_def)

lemma grow_ok:
  assumes rep: "cs_rep cs fl" and "allocated_slots cs < capacity cs"
  shows "\<exists>cs'. grow cs = ret (Inr (), cs') \<and> extends cs cs' \<and>
    allocated_slots cs < allocated_slots cs' \<and>
    cs_rep cs' ([Suc (allocated_slots cs)..<Suc (allocated_slots cs')] @ fl)"
proof -
  obtain n where n: "pages_rep cs n" using rep by (auto simp: cs_rep_def)
  define start :: nat where "start = (if n = 0 then 1 else 0)"
  define k where "k = min (L2_SIZE - start) (max_slots cs - allocated_slots cs)"
  have lt: "n < L1_SIZE" "allocated_slots cs < max_slots cs"
    using assms(2) n by (auto simp: capacity_def pages_rep_def L1_SIZE_def L2_SIZE_def min_def
        split: if_splits)
  note q = grow_quota [OF n lt(2,1) start_def k_def]
  have "extends cs (grown cs n start k)"
    using grown_caps [OF cs_rep_wf [OF rep] n lt(1) q(3)] by (simp add: extends_def) (simp add: grown_def)
  moreover have "allocated_slots (grown cs n start k) = allocated_slots cs + k"
    by (simp add: grown_def)
  ultimately show ?thesis
    using grow_eq [OF rep n start_def k_def] grown_rep [OF rep n lt start_def k_def] lt q(2)
    by auto
qed

lemma grow_fail:
  assumes rep: "cs_rep cs fl" and "allocated_slots cs = capacity cs"
  shows "grow cs = ret (Inl OutOfSlots, cs)"
proof -
  obtain n where n: "pages_rep cs n" using rep by (auto simp: cs_rep_def)
  show ?thesis
    using grow_eq [OF rep n refl refl] assms(2) n
    by (auto simp: capacity_def pages_rep_def L1_SIZE_def L2_SIZE_def min_def split: if_splits)
qed

lemma grow_cases:
  assumes "cs_rep cs fl"
  obtains (full) "allocated_slots cs = capacity cs" "grow cs = ret (Inl OutOfSlots, cs)"
  | (grown) cs' where "grow cs = ret (Inr (), cs')" "extends cs cs'"
      "allocated_slots cs < allocated_slots cs'" "allocated_slots cs < capacity cs"
      "cs_rep cs' ([Suc (allocated_slots cs)..<Suc (allocated_slots cs')] @ fl)"
  using grow_ok [OF assms] grow_fail [OF assms] allocated_le_capacity [OF assms]
  by (metis le_neq_implies_less)

section \<open>Taking slots off the free list and putting them back\<close>

lemma pages_rep_cong [simp]:
  "pages_rep (put_slot cs i s) n = pages_rep cs n" "pages_rep (cs\<lparr>free_head := h\<rparr>) n = pages_rep cs n"
  "pages_rep (cs\<lparr>free_count := m\<rparr>) n = pages_rep cs n"
  by (simp_all add: pages_rep_def)

lemma slot_at_put_upd:
  assumes "cs_rep cs fl" "i \<in> usable cs"
  shows "slot_at (put_slot cs i s) = (slot_at cs)(i \<mapsto> s)"
  using usable_slot_at [OF assms] cslots.get_put_upd [OF cs_rep_wf [OF assms(1)]] by auto

lemma caps_put:
  assumes "cs_rep cs fl" "i \<in> usable cs"
  shows "caps (put_slot cs i s) = (caps cs)(i := if is_null s then None else Some s)"
  by (rule caps_upd [OF slot_at_put_upd [OF assms]])

lemma rep_put:
  assumes rep: "cs_rep cs fl" and i: "i \<in> usable cs - set fl"
  shows "cs_rep (put_slot cs i s) fl"
proof -
  have "llist (free_next (put_slot cs i s)) (free_head cs) fl
      = llist (free_next cs) (free_head cs) fl"
    using i slot_at_put_upd [OF rep, of i s] by (intro lseg_cong) (auto simp: free_next_def)
  then show ?thesis
    using rep i dir_wf_put [OF cs_rep_wf [OF rep], of i s] caps_put [OF rep, of i s]
    by (auto simp: cs_rep_def split: if_splits)
qed

lemma rep_drop_head:
  "cs_rep cs (i # fl) \<Longrightarrow> cs_rep (cs\<lparr>free_head := free_next cs i, free_count := length fl\<rparr>) fl"
  by (auto simp: cs_rep_def)

lemma rep_push:
  assumes rep: "cs_rep cs fl" and i: "i \<in> usable cs - set fl"
  shows "cs_rep ((put_slot cs i (free_slot_value (free_head cs)))
    \<lparr>free_head := Some i, free_count := Suc (length fl)\<rparr>) (i # fl)"
proof -
  let ?v = "free_slot_value (free_head cs)"
  have i': "i \<in> usable cs" using i by simp
  have "free_next (put_slot cs i ?v) i = free_head cs"
    by (rule free_next_free_slot) (simp add: slot_at_put_upd [OF rep i'])
  then show ?thesis
    using rep_put [OF rep i, of ?v] i caps_put [OF rep i', of ?v] by (auto simp: cs_rep_def)
qed

lemma next_free_at:
  assumes "cs_rep cs fl" "i \<in> set fl"
  shows "\<exists>s. slot cs i = ret (Some s) \<and> slot_at cs i = Some s \<and> is_null s \<and>
    next_free s = ret (free_next cs i)"
  using free_null [OF assms]
  by (auto simp: slot_of_slot_at next_free_def is_null_def free_next_def)

lemma allocate_free:
  assumes rep: "cs_rep cs (i # fl)"
  shows "\<exists>cs'. allocate_slot cs = ret (Inr i, cs') \<and> cs_rep cs' fl \<and>
    slot_at cs' i = Some null_slot \<and> caps cs' = caps cs \<and> cs_id cs' = cs_id cs \<and>
    max_slots cs' = max_slots cs \<and> allocated_slots cs' = allocated_slots cs"
proof -
  have hd: "free_head cs = Some i" and fc: "free_count cs = Suc (length fl)"
    using rep by (auto simp: cs_rep_def)
  obtain s where s: "slot cs i = ret (Some s)" "next_free s = ret (free_next cs i)"
    using next_free_at [OF rep, of i] by auto
  let ?c = "cs\<lparr>free_head := free_next cs i, free_count := length fl\<rparr>"
  let ?r = "put_slot ?c i null_slot"
  have c: "cs_rep ?c fl" by (rule rep_drop_head [OF rep])
  have i: "i \<in> usable ?c - set fl" "caps cs i = None"
    using cs_rep_distinct [OF rep] rep by (auto simp: cs_rep_def)
  have "put_slot (cs\<lparr>free_head := h\<rparr>) i null_slot\<lparr>free_count := n\<rparr>
      = put_slot (cs\<lparr>free_head := h, free_count := n\<rparr>) i null_slot" for h n
    by (simp add: put_slot_def Let_def)
  then have "allocate_slot cs = ret (Inr i, ?r)"
    using hd fc s by (simp add: allocate_slot_def clear_def)
  moreover have "slot_at ?r i = Some null_slot" "caps ?r = caps cs"
    using i slot_at_put_upd [OF c, of i] caps_put [OF c, of i null_slot] by auto
  ultimately show ?thesis using rep_put [OF c i(1)] by auto
qed

lemma allocate_grow:
  assumes rep: "cs_rep cs []"
  shows "allocate_slot cs = (case grow cs of
      Some (Inr _, cs') \<Rightarrow> allocate_slot cs' | Some (Inl e, cs') \<Rightarrow> Some (Inl e, cs') | None \<Rightarrow> None)"
proof -
  have hd: "free_head cs = None" using rep by (simp add: cs_rep_def)
  from rep show ?thesis
  proof (cases rule: grow_cases)
    case full
    then show ?thesis using hd by (simp add: allocate_slot_def)
  next
    case (grown cs')
    then have "free_head cs' \<noteq> None" using free_head_None [OF grown(5)] by simp
    then show ?thesis using hd grown by (auto simp: allocate_slot_def)
  qed
qed

text \<open>The outcomes of \<open>allocate_slot\<close>. \<open>taken cs cs' i fl\<close>: the cleared slot \<open>i\<close> left the free
  list, the capabilities held did not change.\<close>

definition taken :: "cspace \<Rightarrow> cspace \<Rightarrow> nat \<Rightarrow> nat list \<Rightarrow> bool" where
  "taken cs cs' i fl \<longleftrightarrow> cs_rep cs' fl \<and> i \<in> usable cs' - set fl \<and>
     cs_id cs' = cs_id cs \<and> max_slots cs' = max_slots cs \<and>
     allocated_slots cs \<le> allocated_slots cs' \<and>
     slot_at cs' i = Some null_slot \<and> caps cs' = caps cs"

lemma allocate_slot_cases:
  assumes rep: "cs_rep cs fl"
  obtains (full) "fl = []" "allocated_slots cs = capacity cs"
      "allocate_slot cs = ret (Inl OutOfSlots, cs)"
  | (ok) i fl' cs' where "allocate_slot cs = ret (Inr i, cs')" "taken cs cs' i fl'"
      "i \<in> set fl \<or> fl = [] \<and> i = Suc (allocated_slots cs)"
      "set fl' = (set fl \<union> (usable cs' - usable cs)) - {i}"
proof (cases fl)
  case (Cons i fl')
  obtain cs' where cs': "allocate_slot cs = ret (Inr i, cs')" "cs_rep cs' fl'"
      "slot_at cs' i = Some null_slot" "caps cs' = caps cs" "cs_id cs' = cs_id cs"
      "max_slots cs' = max_slots cs" "allocated_slots cs' = allocated_slots cs"
    using allocate_free [of cs i fl'] rep Cons by auto
  have "i \<in> usable cs - set fl'"
    using rep cs_rep_distinct [OF rep] Cons by (auto simp: cs_rep_def)
  moreover have "usable cs' = usable cs" using cs'(7) by (simp add: usable_def)
  ultimately have "taken cs cs' i fl'" "set fl' = (set fl \<union> (usable cs' - usable cs)) - {i}"
    using cs' Cons by (auto simp: taken_def)
  then show thesis using that(2) [OF cs'(1)] Cons by simp
next
  case Nil
  from rep show thesis
  proof (cases rule: grow_cases)
    case full
    then show ?thesis using that(1) Nil allocate_grow rep by simp
  next
    case (grown cs1)
    let ?i = "Suc (allocated_slots cs)"
    let ?fl = "[Suc ?i..<Suc (allocated_slots cs1)]"
    have rep1: "cs_rep cs1 (?i # ?fl)" using grown Nil by (simp add: upt_conv_Cons del: upt_Suc)
    obtain cs' where cs': "allocate_slot cs1 = ret (Inr ?i, cs')" "cs_rep cs' ?fl"
        "slot_at cs' ?i = Some null_slot" "caps cs' = caps cs1" "cs_id cs' = cs_id cs1"
        "max_slots cs' = max_slots cs1" "allocated_slots cs' = allocated_slots cs1"
      using allocate_free [OF rep1] by auto
    have "taken cs cs' ?i ?fl"
      using cs' grown(2,3) by (auto simp: taken_def extends_def usable_def)
    moreover have "allocate_slot cs = ret (Inr ?i, cs')"
      using allocate_grow [of cs] rep Nil grown(1) cs'(1) by simp
    moreover have "set ?fl = (usable cs' - usable cs) - {?i}"
      using cs'(7) by (auto simp: usable_def simp del: upt_Suc)
    ultimately show ?thesis using that(2) [of ?i cs' ?fl] Nil by (simp del: upt_Suc)
  qed
qed

lemma free_slot_rep:
  assumes rep: "cs_rep cs fl" and i: "i \<in> usable cs - set fl"
  shows "\<exists>cs'. free_slot i cs = ret cs' \<and> cs_rep cs' (i # fl) \<and> caps cs' = (caps cs)(i := None) \<and>
    slot_at cs' = (slot_at cs)(i \<mapsto> free_slot_value (free_head cs)) \<and> cs_id cs' = cs_id cs \<and>
    max_slots cs' = max_slots cs \<and> allocated_slots cs' = allocated_slots cs"
proof -
  have i': "i \<in> usable cs" using i by simp
  obtain s0 where s0: "slot_at cs i = Some s0" using usable_slot_at [OF rep i'] by auto
  have fc: "free_count cs = length fl" using rep by (simp add: cs_rep_def)
  have "free_slot i cs = ret ((put_slot cs i (free_slot_value (free_head cs)))
      \<lparr>free_head := Some i, free_count := Suc (length fl)\<rparr>)"
    using s0 fc free_head_pos [OF rep] by (simp add: free_slot_def slot_of_slot_at set_next_free_eq)
  then show ?thesis
    using rep_push [OF rep i] slot_at_put_upd [OF rep i'] caps_put [OF rep i'] by simp
qed

section \<open>Inserting capabilities\<close>

definition new_cap :: "cap_tag \<Rightarrow> rights \<Rightarrow> ptr \<Rightarrow> capability_slot" where
  "new_cap t r ob = \<lparr>tag = t, rights = r, token = 0, object = Some ob, deriv_parent = None,
     deriv_first_child = None, deriv_next_sibling = None, deriv_prev_sibling = None\<rparr>"

lemma cap_slot_eq [simp]: "cap_slot t r ob s = new_cap t r ob"
  by (cases s) (simp add: cap_slot_def new_cap_def)

lemma new_cap_sel [simp]:
  "tag (new_cap t r ob) = t" "rights (new_cap t r ob) = r" "token (new_cap t r ob) = 0"
  "object (new_cap t r ob) = Some ob" "deriv_parent (new_cap t r ob) = None"
  "deriv_first_child (new_cap t r ob) = None" "deriv_next_sibling (new_cap t r ob) = None"
  "deriv_prev_sibling (new_cap t r ob) = None"
  by (simp_all add: new_cap_def)

lemma is_null_new_cap [simp]: "is_null (new_cap t r ob) \<longleftrightarrow> t = TagNull"
  by (simp add: is_null_def)

text \<open>\<open>filled cs cs' i c fl\<close>: slot \<open>i\<close>, free or not yet allocated in \<open>cs\<close>, holds the capability
  \<open>c\<close> in \<open>cs'\<close> and the other capabilities are unchanged.\<close>

definition filled :: "cspace \<Rightarrow> cspace \<Rightarrow> nat \<Rightarrow> capability_slot \<Rightarrow> nat list \<Rightarrow> bool" where
  "filled cs cs' i c fl \<longleftrightarrow> cs_rep cs' fl \<and> i \<in> usable cs' - set fl \<and> caps cs i = None \<and>
     cs_id cs' = cs_id cs \<and> max_slots cs' = max_slots cs \<and>
     allocated_slots cs \<le> allocated_slots cs' \<and> caps cs' = (caps cs)(i \<mapsto> c)"

lemma taken_put:
  assumes t: "taken cs cs' i fl" and c: "\<not> is_null c"
  shows "filled cs (put_slot cs' i c) i c fl"
proof -
  have rep: "cs_rep cs' fl" and i: "i \<in> usable cs' - set fl"
    and s: "slot_at cs' i = Some null_slot"
    using t by (auto simp: taken_def)
  have "caps cs' i = None" using s by (simp add: caps_None)
  then have "caps cs i = None" using t by (simp add: taken_def)
  then show ?thesis
    using t c i rep_put [OF rep i] caps_put [OF rep, of i c] by (simp add: filled_def taken_def)
qed

lemma insert_cap_cases:
  assumes rep: "cs_rep cs fl" and t: "t \<noteq> TagNull"
  obtains (full) "fl = []" "allocated_slots cs = capacity cs"
      "insert_cap t r ob cs = ret (Inl OutOfSlots, cs)"
  | (ok) i fl' cs' where "insert_cap t r ob cs = ret (Inr i, cs')"
      "filled cs cs' i (new_cap t r ob) fl'"
      "i \<in> set fl \<or> fl = [] \<and> i = Suc (allocated_slots cs)"
      "set fl' = (set fl \<union> (usable cs' - usable cs)) - {i}"
  using rep
proof (cases rule: allocate_slot_cases)
  case full
  then show thesis using that(1) by (simp add: insert_cap_def)
next
  case (ok i fl' cs')
  then have "slot_at cs' i = Some null_slot" by (simp add: taken_def)
  then have "insert_cap t r ob cs = ret (Inr i, put_slot cs' i (new_cap t r ob))"
    using ok(1) by (simp add: insert_cap_def slot_of_slot_at)
  then show thesis using that(2) [OF _ taken_put [OF ok(2)]] ok(3,4) t by simp
qed

lemma filled_full:
  assumes "cs_full cs fl" "filled cs cs' i c fl'"
    "set fl' = (set fl \<union> (usable cs' - usable cs)) - {i}"
  shows "cs_full cs' fl'"
proof -
  have "usable cs \<subseteq> usable cs'" using assms(2) by (auto simp: filled_def usable_def)
  then show ?thesis
    using assms by (auto simp: cs_full_def filled_def)
qed

lemma insert_cap_full:
  assumes full: "cs_full cs fl" and "insert_cap t r ob cs = ret (res, cs')" and t: "t \<noteq> TagNull"
  shows "\<exists>fl'. cs_full cs' fl'"
proof -
  have rep: "cs_rep cs fl" using full by (simp add: cs_full_def)
  from rep t show ?thesis
  proof (cases rule: insert_cap_cases [where r = r and ob = ob])
    case full
    then show ?thesis using assms by auto
  next
    case (ok i fl' cs'')
    then have "cs_full cs'' fl'" using filled_full [OF full] by simp
    then show ?thesis using ok(1) assms(2) by auto
  qed
qed

section \<open>Growing ahead of time\<close>

lemma usable_grow:
  "allocated_slots a \<le> allocated_slots b \<Longrightarrow> allocated_slots b \<le> allocated_slots c \<Longrightarrow>
   set ([Suc (allocated_slots a)..<Suc (allocated_slots b)] @ fl) \<union> (usable c - usable b)
     = set fl \<union> (usable c - usable a)"
  by (auto simp: usable_def simp del: upt_Suc)

text \<open>\<open>pre_allocate\<close> returns: it succeeds exactly when the capacity leaves room for the requested
  number of free slots, and fails with \<open>OutOfSlots\<close> otherwise; in both cases the capabilities
  held are unchanged.\<close>

lemma pre_allocate_spec:
  assumes "cs_rep cs fl"
  shows "\<exists>r cs' fl'. pre_allocate m cs = ret (r, cs') \<and> cs_rep cs' fl' \<and> extends cs cs' \<and>
    set fl' = set fl \<union> (usable cs' - usable cs) \<and>
    (if m \<le> length fl + (capacity cs - allocated_slots cs)
     then r = Inr () \<and> m \<le> length fl' else r = Inl OutOfSlots)"
  using assms
proof (induction "capacity cs - allocated_slots cs" arbitrary: cs fl rule: less_induct)
  case less
  have fc: "free_count cs = length fl" using less.prems by (simp add: cs_rep_def)
  show ?case
  proof (cases "length fl < m")
    case False
    then show ?thesis
      using fc less.prems by (intro exI [of _ "Inr ()"] exI [of _ cs] exI [of _ fl])
        (simp add: pre_allocate.simps [of m cs])
  next
    case True
    from less.prems show ?thesis
    proof (cases rule: grow_cases)
      case full
      then show ?thesis
        using fc True less.prems by (intro exI [of _ "Inl OutOfSlots"] exI [of _ cs] exI [of _ fl])
          (simp add: pre_allocate.simps [of m cs])
    next
      case (grown cs1)
      let ?fl = "[Suc (allocated_slots cs)..<Suc (allocated_slots cs1)] @ fl"
      have cap: "capacity cs1 = capacity cs" by (rule extends_capacity [OF grown(2)])
      have lt: "capacity cs1 - allocated_slots cs1 < capacity cs - allocated_slots cs"
        using cap grown(3,4) by simp
      have le: "allocated_slots cs1 \<le> capacity cs"
        using allocated_le_capacity [OF grown(5)] cap by simp
      obtain r cs' fl' where IH: "pre_allocate m cs1 = ret (r, cs')" "cs_rep cs' fl'"
          "extends cs1 cs'" "set fl' = set ?fl \<union> (usable cs' - usable cs1)"
          "if m \<le> length ?fl + (capacity cs1 - allocated_slots cs1)
           then r = Inr () \<and> m \<le> length fl' else r = Inl OutOfSlots"
        using less.hyps [OF lt grown(5)] by blast
      have "pre_allocate m cs = ret (r, cs')"
        using True fc grown(1) IH(1) by (simp add: pre_allocate.simps [of m cs])
      moreover have "extends cs cs'" by (rule extends_trans [OF grown(2) IH(3)])
      moreover have "set fl' = set fl \<union> (usable cs' - usable cs)"
        using IH(3) grown(3) unfolding IH(4) by (intro usable_grow) (simp_all add: extends_def)
      moreover have "length ?fl + (capacity cs1 - allocated_slots cs1)
          = length fl + (capacity cs - allocated_slots cs)"
        using cap le grown(3) by simp
      ultimately show ?thesis using IH(2,5)
        by (intro exI [of _ r] exI [of _ cs'] exI [of _ fl']) (simp del: upt_Suc)
    qed
  qed
qed

lemma grow_until_spec:
  assumes "cs_rep cs fl" "page < L1_SIZE"
  shows "\<exists>r cs' fl'. grow_until page cs = ret (r, cs') \<and> cs_rep cs' fl' \<and> extends cs cs' \<and>
    set fl' = set fl \<union> (usable cs' - usable cs) \<and>
    (r = Inr () \<and> directory cs' ! page \<noteq> None \<or>
     r = Inl OutOfSlots \<and> directory cs' ! page = None \<and> allocated_slots cs' = capacity cs)"
  using assms
proof (induction "capacity cs - allocated_slots cs" arbitrary: cs fl rule: less_induct)
  case less
  have len: "length (directory cs) = L1_SIZE" using less.prems(1) by (simp add: cs_rep_def dir_wf_def)
  show ?case
  proof (cases "directory cs ! page = None")
    case False
    then show ?thesis
      using len less.prems by (intro exI [of _ "Inr ()"] exI [of _ cs] exI [of _ fl])
        (auto simp: grow_until.simps [of page cs])
  next
    case True
    from less.prems(1) show ?thesis
    proof (cases rule: grow_cases)
      case full
      then show ?thesis
        using len True less.prems by (intro exI [of _ "Inl OutOfSlots"] exI [of _ cs] exI [of _ fl])
          (simp add: grow_until.simps [of page cs])
    next
      case (grown cs1)
      let ?fl = "[Suc (allocated_slots cs)..<Suc (allocated_slots cs1)] @ fl"
      have cap: "capacity cs1 = capacity cs" by (rule extends_capacity [OF grown(2)])
      have lt: "capacity cs1 - allocated_slots cs1 < capacity cs - allocated_slots cs"
        using cap grown(3,4) by simp
      obtain r cs' fl' where IH: "grow_until page cs1 = ret (r, cs')" "cs_rep cs' fl'"
          "extends cs1 cs'" "set fl' = set ?fl \<union> (usable cs' - usable cs1)"
          "r = Inr () \<and> directory cs' ! page \<noteq> None \<or>
           r = Inl OutOfSlots \<and> directory cs' ! page = None \<and> allocated_slots cs' = capacity cs1"
        using less.hyps [OF lt grown(5) less.prems(2)] by blast
      have "grow_until page cs = ret (r, cs')"
        using True len less.prems(2) grown(1) IH(1) by (simp add: grow_until.simps [of page cs])
      moreover have "extends cs cs'" by (rule extends_trans [OF grown(2) IH(3)])
      moreover have "set fl' = set fl \<union> (usable cs' - usable cs)"
        using IH(3) grown(3) unfolding IH(4) by (intro usable_grow) (simp_all add: extends_def)
      ultimately show ?thesis using IH(2,5) cap
        by (intro exI [of _ r] exI [of _ cs'] exI [of _ fl']) (simp del: upt_Suc)
    qed
  qed
qed

section \<open>Removing a chosen slot from the free list\<close>

lemma rep_splice:
  assumes rep: "cs_rep cs (us @ c # t # ys)"
  shows "cs_rep ((put_slot cs c (free_slot_value (free_next cs t)))
      \<lparr>free_count := length (us @ c # ys)\<rparr>) (us @ c # ys)"
    and "caps (put_slot cs c (free_slot_value (free_next cs t))) = caps cs"
proof -
  let ?cs = "put_slot cs c (free_slot_value (free_next cs t))"
  have d: "distinct (us @ c # t # ys)" by (rule cs_rep_distinct [OF rep])
  have c: "c \<in> usable cs" "caps cs c = None" using rep by (auto simp: cs_rep_def)
  note sa = slot_at_put_upd [OF rep c(1)]
  show caps: "caps ?cs = caps cs"
    using caps_put [OF rep c(1)] c(2) by (simp add: fun_upd_idem)
  have fn: "free_next ?cs c = free_next cs t" "\<And>x. x \<noteq> c \<Longrightarrow> free_next ?cs x = free_next cs x"
    by (rule free_next_free_slot) (simp_all add: sa free_next_def)
  have "lseg (free_next cs) (free_head cs) us (Some c)" "llist (free_next cs) (free_next cs t) ys"
    using rep by (auto simp: cs_rep_def lseg_append)
  moreover have "lseg (free_next ?cs) (free_head cs) us (Some c) = lseg (free_next cs) (free_head cs) us (Some c)"
    using d by (intro lseg_cong fn(2)) auto
  moreover have "llist (free_next ?cs) (free_next cs t) ys = llist (free_next cs) (free_next cs t) ys"
    using d by (intro lseg_cong fn(2)) auto
  ultimately have "llist (free_next ?cs) (free_head cs) (us @ c # ys)"
    using fn(1) by (auto simp: lseg_append)
  then show "cs_rep (?cs\<lparr>free_count := length (us @ c # ys)\<rparr>) (us @ c # ys)"
    using rep caps dir_wf_put [OF cs_rep_wf [OF rep]] by (auto simp: cs_rep_def)
qed

lemma free_next_pos: "cs_rep cs (us @ t # ys) \<Longrightarrow> free_next cs t \<noteq> Some 0"
  by (cases ys) (auto simp: cs_rep_def lseg_append usable_def)

lemma slot_next_free_at: "cs_rep cs fl \<Longrightarrow> i \<in> set fl \<Longrightarrow> slot_next_free cs i = ret (free_next cs i)"
  using next_free_at [of cs fl i] by (auto simp: slot_next_free_def)

lemma walk_absent:
  "cs_rep cs (us @ c # vs) \<Longrightarrow> t \<notin> set vs \<Longrightarrow> walk_free_list t c cs = ret (False, cs)"
proof (induction vs arbitrary: us c)
  case Nil
  then have "slot_next_free cs c = ret None"
    using slot_next_free_at [OF Nil.prems(1), of c] by (simp add: cs_rep_def lseg_append)
  then show ?case by (simp add: walk_free_list.simps [of t c cs])
next
  case (Cons v vs)
  then have "slot_next_free cs c = ret (Some v)"
    using slot_next_free_at [OF Cons.prems(1), of c] by (auto simp: cs_rep_def lseg_append)
  moreover have "walk_free_list t v cs = ret (False, cs)"
    using Cons.IH [of "us @ [c]" v] Cons.prems by simp
  ultimately show ?case using Cons.prems(2) by (simp add: walk_free_list.simps [of t c cs])
qed

lemma walk_present:
  "cs_rep cs (us @ c # xs @ t # ys) \<Longrightarrow> t \<notin> set xs \<Longrightarrow>
   \<exists>cs'. walk_free_list t c cs = ret (True, cs') \<and> cs_rep cs' (us @ c # xs @ ys) \<and>
     caps cs' = caps cs \<and> cs_id cs' = cs_id cs \<and> max_slots cs' = max_slots cs \<and>
     allocated_slots cs' = allocated_slots cs"
proof (induction xs arbitrary: us c)
  case Nil
  then have rep: "cs_rep cs (us @ c # t # ys)" by simp
  have nx: "slot_next_free cs c = ret (Some t)" "slot_next_free cs t = ret (free_next cs t)"
    using slot_next_free_at [OF rep, of c] slot_next_free_at [OF rep, of t] rep
    by (auto simp: cs_rep_def lseg_append)
  obtain s where "slot cs c = ret (Some s)" using next_free_at [OF rep, of c] by auto
  moreover have "free_count cs = Suc (length (us @ c # ys))" using rep by (simp add: cs_rep_def)
  moreover have "free_next cs t \<noteq> Some 0" using free_next_pos [of cs "us @ [c]" t ys] rep by simp
  ultimately show ?case
    using nx rep_splice [OF rep]
    by (simp add: walk_free_list.simps [of t c cs] set_next_free_eq)
next
  case (Cons v xs)
  then have "slot_next_free cs c = ret (Some v)"
    using slot_next_free_at [OF Cons.prems(1), of c] by (auto simp: cs_rep_def lseg_append)
  then show ?case
    using Cons.IH [of "us @ [c]" v] Cons.prems by (simp add: walk_free_list.simps [of t c cs])
qed

lemma remove_from_free_list_spec:
  assumes rep: "cs_rep cs fl"
  shows "\<exists>cs'. remove_from_free_list t cs = ret (t \<in> set fl, cs') \<and> cs_rep cs' (remove1 t fl) \<and>
     caps cs' = caps cs \<and> cs_id cs' = cs_id cs \<and> max_slots cs' = max_slots cs \<and>
     allocated_slots cs' = allocated_slots cs"
proof (cases fl)
  case Nil
  then show ?thesis using rep by (simp add: remove_from_free_list_def cs_rep_def)
next
  case (Cons c vs)
  then have hd: "free_head cs = Some c" and rep': "cs_rep cs ([] @ c # vs)"
    using rep by (auto simp: cs_rep_def)
  show ?thesis
  proof (cases "c = t")
    case True
    have "slot_next_free cs t = ret (free_next cs t)" using slot_next_free_at [OF rep] True Cons by simp
    moreover have "free_count cs = Suc (length vs)" using rep Cons by (simp add: cs_rep_def)
    ultimately show ?thesis
      using hd True Cons rep_drop_head [of cs t vs] rep by (simp add: remove_from_free_list_def)
  next
    case False
    show ?thesis
    proof (cases "t \<in> set vs")
      case absent: False
      then show ?thesis using walk_absent [OF rep'] hd False Cons rep
        by (simp add: remove_from_free_list_def remove1_idem)
    next
      case True
      then obtain xs ys where "vs = xs @ t # ys" "t \<notin> set xs" by (meson split_list_first)
      then show ?thesis using walk_present [of cs "[]" c xs t ys] rep hd False Cons
        by (simp add: remove_from_free_list_def remove1_append)
    qed
  qed
qed

section \<open>Inserting at a chosen index\<close>

lemma page_present_usable:
  assumes rep: "cs_rep cs fl" and "0 < i" "i < max_slots cs" "i < L1_SIZE * L2_SIZE"
  shows "directory cs ! (i div L2_SIZE) \<noteq> None \<longleftrightarrow> i \<in> usable cs"
    and "allocated_slots cs = capacity cs \<Longrightarrow> i \<in> usable cs"
proof -
  obtain n where n: "pages_rep cs n" using rep by (auto simp: cs_rep_def)
  have "i div L2_SIZE < L1_SIZE" using assms(4) by (simp add: L1_SIZE_def L2_SIZE_def)
  then have "directory cs ! (i div L2_SIZE) \<noteq> None \<longleftrightarrow> i div L2_SIZE < n"
    using n by (auto simp: pages_rep_def)
  also have "\<dots> \<longleftrightarrow> i < n * L2_SIZE" by (auto simp: L2_SIZE_def)
  also have "\<dots> \<longleftrightarrow> i \<in> usable cs"
    using n assms(2,3) by (auto simp: pages_rep_def usable_def)
  finally show "directory cs ! (i div L2_SIZE) \<noteq> None \<longleftrightarrow> i \<in> usable cs" .
  show "i \<in> usable cs" if "allocated_slots cs = capacity cs"
    using that assms(2-) by (auto simp: usable_def capacity_def)
qed

text \<open>For a CSpace within the directory bound, the index chosen by the caller is accepted exactly
  when it is nonzero, below the quota and vacant; growing to reach it cannot fail.\<close>

lemma insert_cap_at_spec:
  assumes full: "cs_full cs fl" and t: "t \<noteq> TagNull" and mx: "max_slots cs \<le> L1_SIZE * L2_SIZE"
  shows "if 0 < i \<and> i < max_slots cs \<and> caps cs i = None
    then \<exists>cs' fl'. insert_cap_at i t r ob cs = ret (Inr (), cs') \<and>
           filled cs cs' i (new_cap t r ob) fl' \<and> cs_full cs' fl'
    else insert_cap_at i t r ob cs = ret (Inl InvalidIndex, cs)"
proof (cases "0 < i \<and> i < max_slots cs")
  case False
  then show ?thesis by (auto simp: insert_cap_at_def)
next
  case True
  have rep: "cs_rep cs fl" using full by (simp add: cs_full_def)
  have il: "i < L1_SIZE * L2_SIZE" using True mx by simp
  then have page: "i div L2_SIZE < L1_SIZE" by (rule less_mult_imp_div_less)
  obtain g cs1 fl1 where g: "grow_until (i div L2_SIZE) cs = ret (g, cs1)" "cs_rep cs1 fl1"
      "extends cs cs1" "set fl1 = set fl \<union> (usable cs1 - usable cs)"
      "g = Inr () \<and> directory cs1 ! (i div L2_SIZE) \<noteq> None \<or>
       g = Inl OutOfSlots \<and> directory cs1 ! (i div L2_SIZE) = None \<and> allocated_slots cs1 = capacity cs"
    using grow_until_spec [OF rep page] by blast
  have "i < max_slots cs1" using True g(3) by (simp add: extends_def)
  then have u: "i \<in> usable cs1" and gok: "g = Inr ()"
    using page_present_usable [OF g(2) _ _ il] True g(5) extends_capacity [OF g(3)] by auto
  obtain s where s: "slot_at cs1 i = Some s" using usable_slot_at [OF g(2) u] by auto
  have caps1: "caps cs1 = caps cs" using g(3) by (simp add: extends_def)
  show ?thesis
  proof (cases "caps cs i = None")
    case False
    then have "i \<in> usable cs" using rep by (auto simp: cs_rep_def)
    then have "directory cs ! (i div L2_SIZE) \<noteq> None"
      using page_present_usable [OF rep _ _ il] True by simp
    then have "cs1 = cs" using g(1) gok page cs_rep_wf [OF rep]
      by (auto simp: grow_until.simps [of _ cs] dir_wf_def)
    moreover have "\<not> is_null s"
      using False s caps_None [of cs1 i] by (auto simp: caps1)
    ultimately show ?thesis
      using False True g(1) gok s by (simp add: insert_cap_at_def slot_of_slot_at)
  next
    case vacant: True
    then have "is_null s" using s caps_None [of cs1 i] by (simp add: caps1)
    obtain cs2 where cs2: "remove_from_free_list i cs1 = ret (i \<in> set fl1, cs2)"
        "cs_rep cs2 (remove1 i fl1)" "caps cs2 = caps cs1" "cs_id cs2 = cs_id cs1"
        "max_slots cs2 = max_slots cs1" "allocated_slots cs2 = allocated_slots cs1"
      using remove_from_free_list_spec [OF g(2)] by blast
    have fl2: "set (remove1 i fl1) = set fl1 - {i}"
      using cs_rep_distinct [OF g(2)] by simp
    have u2: "usable cs2 = usable cs1" using cs2(6) by (simp add: usable_def)
    then have i2: "i \<in> usable cs2 - set (remove1 i fl1)" using u fl2 by simp
    obtain s2 where s2: "slot_at cs2 i = Some s2" using usable_slot_at [OF cs2(2)] u u2 by auto
    let ?cs = "put_slot cs2 i (new_cap t r ob)"
    have "insert_cap_at i t r ob cs = ret (Inr (), ?cs)"
      using True g(1) gok s \<open>is_null s\<close> cs2(1) s2 by (simp add: insert_cap_at_def slot_of_slot_at)
    moreover have f: "filled cs ?cs i (new_cap t r ob) (remove1 i fl1)"
      using rep_put [OF cs2(2) i2] i2 vacant g(3) cs2(3-6) t caps_put [OF cs2(2), of i]
      by (simp add: filled_def extends_def)
    moreover have "cs_full ?cs (remove1 i fl1)"
      using filled_full [OF full f] fl2 g(4) u2 by simp
    ultimately show ?thesis using True vacant by auto
  qed
qed

section \<open>Counting\<close>

lemma finite_usable [simp]: "finite (usable cs)" and card_usable: "card (usable cs) = allocated_slots cs"
proof -
  have "usable cs = {0<..allocated_slots cs}" by (auto simp: usable_def)
  then show "finite (usable cs)" "card (usable cs) = allocated_slots cs" by simp_all
qed

lemma full_count:
  assumes "cs_full cs fl"
  shows "card (dom (caps cs)) + length fl = allocated_slots cs" "free_count cs = length fl"
proof -
  have "distinct fl" "set fl \<subseteq> usable cs" "free_count cs = length fl"
    using assms cs_rep_distinct by (auto simp: cs_full_def cs_rep_def)
  moreover have "dom (caps cs) = usable cs - set fl" using assms by (simp add: cs_full_def)
  ultimately show "card (dom (caps cs)) + length fl = allocated_slots cs" "free_count cs = length fl"
    using card_mono [of "usable cs" "set fl"]
    by (simp_all add: card_Diff_subset distinct_card card_usable)
qed

lemma full_no_room:
  assumes "cs_full cs fl"
  shows "fl = [] \<and> allocated_slots cs = capacity cs \<longleftrightarrow> \<not> card (dom (caps cs)) < capacity cs"
proof -
  have "cs_rep cs fl" using assms by (simp add: cs_full_def)
  then show ?thesis
    using full_count(1) [OF assms] allocated_le_capacity [of cs fl]
    unfolding length_0_conv [symmetric] by linarith
qed

lemma slot_of_caps: "caps cs i = Some c \<Longrightarrow> slot cs i = ret (Some c)"
  by (simp add: caps_Some slot_of_slot_at)

lemma caps_usable: "cs_full cs fl \<Longrightarrow> caps cs i = Some c \<Longrightarrow> i \<in> usable cs - set fl"
  by (auto simp: cs_full_def)

text \<open>The contract of a capability table, as the system call layer uses it: insertion puts the
  capability at a fresh index while there is room, deletion removes exactly one entry.\<close>

locale cap_table =
  fixes inv :: "'st \<Rightarrow> bool"
    and table :: "'st \<Rightarrow> nat \<Rightarrow> capability_slot option"
    and room :: "'st \<Rightarrow> nat"
    and ins :: "cap_tag \<Rightarrow> rights \<Rightarrow> ptr \<Rightarrow> 'st \<Rightarrow> ((cap_error, nat) result \<times> 'st) run"
    and del :: "nat \<Rightarrow> 'st \<Rightarrow> 'st run"
  assumes ins_ok: "inv st \<Longrightarrow> t \<noteq> TagNull \<Longrightarrow> 0 < room st \<Longrightarrow>
      \<exists>i st'. ins t r ob st = ret (Inr i, st') \<and> inv st' \<and> table st i = None \<and> 0 < i \<and>
        table st' = (table st)(i \<mapsto> new_cap t r ob) \<and> room st' = room st - 1"
    and ins_full: "inv st \<Longrightarrow> t \<noteq> TagNull \<Longrightarrow> room st = 0 \<Longrightarrow>
      ins t r ob st = ret (Inl OutOfSlots, st)"
    and del_ok: "inv st \<Longrightarrow> table st i = Some c \<Longrightarrow>
      \<exists>st'. del i st = ret st' \<and> inv st' \<and> table st' = (table st)(i := None) \<and>
        room st' = room st + 1"
begin

lemma ins_total: "inv st \<Longrightarrow> t \<noteq> TagNull \<Longrightarrow> \<exists>res st'. ins t r ob st = ret (res, st') \<and> inv st'"
  using ins_ok ins_full by (metis gr0I)

lemma ins_del:
  assumes "inv st" "t \<noteq> TagNull" "ins t r ob st = ret (Inr i, st')"
  shows "\<exists>st''. del i st' = ret st'' \<and> inv st'' \<and> table st'' = table st \<and> room st'' = room st"
proof -
  have "0 < room st" using assms ins_full [OF assms(1,2)] by fastforce
  then have st': "inv st'" "table st i = None" "table st' = (table st)(i \<mapsto> new_cap t r ob)"
      "room st' = room st - 1"
    using ins_ok [OF assms(1,2) \<open>0 < room st\<close>, of r ob] assms(3) by auto
  then obtain st'' where "del i st' = ret st''" "inv st''" "table st'' = (table st')(i := None)"
      "room st'' = room st' + 1"
    using del_ok [OF st'(1), of i] by auto
  then show ?thesis using st' \<open>0 < room st\<close> by (auto simp: fun_upd_idem)
qed

end

definition cs_ok :: "cspace \<Rightarrow> bool" where
  "cs_ok cs \<longleftrightarrow> (\<exists>fl. cs_full cs fl)"

definition room :: "cspace \<Rightarrow> nat" where
  "room cs = capacity cs - card (dom (caps cs))"

lemma full_card_le: "cs_full cs fl \<Longrightarrow> card (dom (caps cs)) \<le> capacity cs"
  using full_count(1) [of cs fl] allocated_le_capacity [of cs fl] by (auto simp: cs_full_def)

lemma full_finite: "cs_full cs fl \<Longrightarrow> finite (dom (caps cs))"
  by (simp add: cs_full_def)

lemma insert_cap_ok:
  assumes "cs_full cs fl" "t \<noteq> TagNull" "card (dom (caps cs)) < capacity cs"
  shows "\<exists>i cs' fl'. insert_cap t r ob cs = ret (Inr i, cs') \<and> cs_full cs' fl' \<and>
    filled cs cs' i (new_cap t r ob) fl' \<and> (i \<in> set fl \<or> fl = [] \<and> i = Suc (allocated_slots cs))"
proof -
  have rep: "cs_rep cs fl" using assms(1) by (simp add: cs_full_def)
  from rep assms(2) show ?thesis
  proof (cases rule: insert_cap_cases [where r = r and ob = ob])
    case full
    then show ?thesis using full_no_room [OF assms(1)] assms(3) by simp
  next
    case (ok i fl' cs')
    then show ?thesis using filled_full [OF assms(1)] by blast
  qed
qed

lemma insert_cap_no_room:
  assumes "cs_full cs fl" "t \<noteq> TagNull" "\<not> card (dom (caps cs)) < capacity cs"
  shows "insert_cap t r ob cs = ret (Inl OutOfSlots, cs)"
proof -
  have rep: "cs_rep cs fl" and "fl = []" "allocated_slots cs = capacity cs"
    using assms full_no_room [OF assms(1)] by (auto simp: cs_full_def)
  then have "allocate_slot cs = ret (Inl OutOfSlots, cs)"
    using allocate_grow grow_fail by simp
  then show ?thesis by (simp add: insert_cap_def)
qed

lemma free_slot_full:
  assumes full: "cs_full cs fl" and c: "caps cs i = Some c"
  shows "\<exists>cs'. free_slot i cs = ret cs' \<and> cs_full cs' (i # fl) \<and> caps cs' = (caps cs)(i := None) \<and>
    cs_id cs' = cs_id cs \<and> max_slots cs' = max_slots cs \<and> allocated_slots cs' = allocated_slots cs"
proof -
  have rep: "cs_rep cs fl" using full by (simp add: cs_full_def)
  obtain cs' where "free_slot i cs = ret cs'" "cs_rep cs' (i # fl)" "caps cs' = (caps cs)(i := None)"
      "cs_id cs' = cs_id cs" "max_slots cs' = max_slots cs" "allocated_slots cs' = allocated_slots cs"
    using free_slot_rep [OF rep caps_usable [OF full c]] by auto
  then show ?thesis using full by (auto simp: cs_full_def usable_def)
qed

interpretation cst: cap_table cs_ok caps room insert_cap free_slot
proof unfold_locales
  fix cs t r ob assume "cs_ok cs" "t \<noteq> TagNull" "0 < room cs"
  then obtain fl where f: "cs_full cs fl" by (auto simp: cs_ok_def)
  obtain i cs' fl' where i: "insert_cap t r ob cs = ret (Inr i, cs')" "cs_full cs' fl'"
      "filled cs cs' i (new_cap t r ob) fl'"
    using insert_cap_ok [OF f \<open>t \<noteq> TagNull\<close>, of r ob] \<open>0 < room cs\<close> by (auto simp: room_def)
  moreover have "room cs' = room cs - 1"
    using i(3) full_finite [OF f] by (auto simp: room_def capacity_def filled_def card_insert_if)
  ultimately show "\<exists>i cs'. insert_cap t r ob cs = ret (Inr i, cs') \<and> cs_ok cs' \<and> caps cs i = None \<and>
      0 < i \<and> caps cs' = (caps cs)(i \<mapsto> new_cap t r ob) \<and> room cs' = room cs - 1"
    by (auto simp: filled_def cs_ok_def usable_def)
next
  fix cs t r ob assume "cs_ok cs" "t \<noteq> TagNull" "room cs = 0"
  then show "insert_cap t r ob cs = ret (Inl OutOfSlots, cs)"
    using insert_cap_no_room by (auto simp: cs_ok_def room_def)
next
  fix cs i c assume a: "cs_ok cs" "caps cs i = Some c"
  then obtain fl where f: "cs_full cs fl" by (auto simp: cs_ok_def)
  obtain cs' where cs': "free_slot i cs = ret cs'" "cs_full cs' (i # fl)"
      "caps cs' = (caps cs)(i := None)" "max_slots cs' = max_slots cs"
    using free_slot_full [OF f a(2)] by auto
  have "card (dom (caps cs) - {i}) = card (dom (caps cs)) - 1" "0 < card (dom (caps cs))"
    using a(2) full_finite [OF f] by (auto simp: card_gt_0_iff domI)
  moreover have "capacity cs' = capacity cs" using cs'(4) by (simp add: capacity_def)
  ultimately have "room cs' = room cs + 1"
    using cs'(3) full_card_le [OF f] by (simp add: room_def Suc_diff_le)
  then show "\<exists>cs'. free_slot i cs = ret cs' \<and> cs_ok cs' \<and> caps cs' = (caps cs)(i := None) \<and>
      room cs' = room cs + 1"
    using cs' by (auto simp: cs_ok_def)
qed

section \<open>Enumerating the objects of a CSpace\<close>

lemma map_filter_upt_shift:
  "List.map_filter f [a..<a + n] = List.map_filter (\<lambda>j. f (a + j)) [0..<n]"
  by (induction n) (auto simp: List.map_filter_def)

lemma map_filter_blocks:
  "List.map_filter f [0..<n * k] = concat (map (\<lambda>p. List.map_filter (\<lambda>j. f (p * k + j)) [0..<k]) [0..<n])"
proof (induction n)
  case 0
  then show ?case by (simp add: List.map_filter_def)
next
  case (Suc n)
  have "[0..<Suc n * k] = [0..<n * k] @ [n * k..<n * k + k]"
    using upt_add_eq_append [of 0 "n * k" k] by (simp add: add.commute)
  then have "List.map_filter f [0..<Suc n * k]
      = List.map_filter f [0..<n * k] @ List.map_filter f [n * k..<n * k + k]"
    by (simp only: List.map_filter_def) simp
  then show ?case using Suc map_filter_upt_shift [of f "n * k" k] by simp
qed

lemma map_filter_nth: "List.map_filter f xs = List.map_filter (\<lambda>j. f (xs ! j)) [0..<length xs]"
proof -
  have "List.map_filter f (map ((!) xs) [0..<length xs]) = List.map_filter (f \<circ> (!) xs) [0..<length xs]"
    by (simp add: List.map_filter_def filter_map comp_def)
  then show ?thesis by (simp add: map_nth comp_def)
qed

lemma for_each_object_eq:
  assumes rep: "cs_rep cs fl"
  shows "for_each_object cs =
    List.map_filter (\<lambda>i. Option.bind (caps cs i) object) [0..<L1_SIZE * L2_SIZE]"
proof -
  let ?g = "\<lambda>s. if tag s \<noteq> TagNull then object s else None"
  have c0: "caps cs 0 = None" using rep by (auto simp: cs_rep_def usable_def)
  have "(case directory cs ! p of None \<Rightarrow> []
         | Some page \<Rightarrow> page_objects (if p = 0 then 1 else 0) page)
      = List.map_filter (\<lambda>j. Option.bind (caps cs (p * L2_SIZE + j)) object) [0..<L2_SIZE]"
    (is "?lhs = ?rhs") if p: "p < L1_SIZE" for p
  proof (cases "directory cs ! p")
    case None
    then have "caps cs (p * L2_SIZE + j) = None" if "j < L2_SIZE" for j
      using that p by (simp add: caps_def slot_at_def)
    then have "List.map_filter (\<lambda>j. Option.bind (caps cs (p * L2_SIZE + j)) object) [0..<L2_SIZE] = []"
      by (auto simp: List.map_filter_def filter_empty_conv)
    then show ?thesis using None by simp
  next
    case (Some page)
    have len: "length (directory cs) = L1_SIZE" "length page = L2_SIZE"
      using cs_rep_wf [OF rep] p Some nth_mem unfolding dir_wf_def by metis+
    have at: "Option.bind (caps cs (p * L2_SIZE + j)) object = ?g (page ! j)" if "j < L2_SIZE" for j
      using that p len Some by (simp add: caps_def slot_at_def is_null_def)
    have "?rhs = List.map_filter (\<lambda>j. ?g (page ! j)) [0..<L2_SIZE]"
      using at by (auto simp: List.map_filter_def intro!: map_cong filter_cong)
    also have "\<dots> = List.map_filter ?g page" using map_filter_nth [of ?g page] len by simp
    also have "\<dots> = List.map_filter ?g (drop (if p = 0 then 1 else 0) page)"
    proof (cases "p = 0")
      case True
      then have "?g (page ! 0) = None" using at [of 0] c0 by (simp add: L2_SIZE_def)
      moreover obtain x xs where "page = x # xs" using len by (cases page) (auto simp: L2_SIZE_def)
      ultimately show ?thesis using True by (auto simp: List.map_filter_def)
    qed simp
    finally show ?thesis using Some by (simp add: page_objects_def)
  qed
  then show ?thesis
    unfolding for_each_object_def map_filter_blocks
    by (intro arg_cong [where f = concat] map_cong) simp_all
qed

section \<open>Properties\<close>

text \<open>(C4) Inserting into a CSpace. While fewer capabilities are held than the capacity (the quota,
  clipped to the 16383 slots the directory can address), \<open>insert_cap\<close> returns a nonzero index that
  held nothing, stores exactly the given capability there and changes no other capability; once the
  capacity is reached it fails with \<open>OutOfSlots\<close> and leaves the CSpace untouched. The free-list
  invariant is kept in both cases and no branch panics.\<close>

theorem insert_cap_spec:
  assumes "cs_full cs fl" "t \<noteq> TagNull"
  shows "if card (dom (caps cs)) < capacity cs
    then \<exists>i cs' fl'. insert_cap t r ob cs = ret (Inr i, cs') \<and> 0 < i \<and> i \<le> capacity cs \<and>
           caps cs i = None \<and> slot cs' i = ret (Some (new_cap t r ob)) \<and>
           caps cs' = (caps cs)(i \<mapsto> new_cap t r ob) \<and> cs_full cs' fl'
    else insert_cap t r ob cs = ret (Inl OutOfSlots, cs)"
proof (cases "card (dom (caps cs)) < capacity cs")
  case True
  obtain i cs' fl' where i: "insert_cap t r ob cs = ret (Inr i, cs')" "cs_full cs' fl'"
      "filled cs cs' i (new_cap t r ob) fl'"
    using insert_cap_ok [OF assms True, of r ob] by blast
  have "capacity cs' = capacity cs" "i \<in> usable cs'" using i(3) by (auto simp: filled_def capacity_def)
  moreover have "allocated_slots cs' \<le> capacity cs'"
    using i(2) allocated_le_capacity by (auto simp: cs_full_def)
  ultimately show ?thesis
    using True i by (auto simp: filled_def usable_def slot_of_caps)
next
  case False
  then show ?thesis using insert_cap_no_room [OF assms] by simp
qed

lemma capacity_new: "capacity (CSpace_new i m) = min m 16383"
  by (simp add: capacity_def CSpace_new_def L1_SIZE_def L2_SIZE_def)

lemma new_max_slots: "max_slots (CSpace_new i m) = m"
  by (simp add: CSpace_new_def)

theorem insert_cap_spec_witness:
  "\<exists>i cs' fl'. insert_cap TagFrame MAP 7 (CSpace_new 0 16384) = ret (Inr i, cs') \<and> 0 < i \<and>
     caps cs' = [i \<mapsto> new_cap TagFrame MAP 7] \<and> cs_full cs' fl'"
  using insert_cap_spec [OF new_full [of 0 16384], of TagFrame MAP 7] by (auto simp: capacity_new)

text \<open>(C5) Freeing a held slot. \<open>free_slot\<close> removes exactly that capability, keeps the invariant,
  and the next insertion reuses the freed index (the free list is a stack).\<close>

theorem free_slot_reuse:
  assumes "cs_full cs fl" "caps cs i = Some c" "t \<noteq> TagNull"
  shows "\<exists>cs' cs'' fl'. free_slot i cs = ret cs' \<and> caps cs' = (caps cs)(i := None) \<and>
    cs_full cs' (i # fl) \<and> insert_cap t r ob cs' = ret (Inr i, cs'') \<and>
    caps cs'' = (caps cs)(i \<mapsto> new_cap t r ob) \<and> cs_full cs'' fl'"
proof -
  obtain cs' where cs': "free_slot i cs = ret cs'" "cs_full cs' (i # fl)"
      "caps cs' = (caps cs)(i := None)"
    using free_slot_full [OF assms(1,2)] by auto
  have room: "card (dom (caps cs')) < capacity cs'"
    using full_no_room [OF cs'(2)] by blast
  obtain j cs'' fl' where j: "insert_cap t r ob cs' = ret (Inr j, cs'')" "cs_full cs'' fl'"
      "filled cs' cs'' j (new_cap t r ob) fl'"
    using insert_cap_ok [OF cs'(2) assms(3) room, of r ob] by blast
  have "\<exists>c''. allocate_slot cs' = ret (Inr i, c'') \<and> slot_at c'' i = Some null_slot"
    using allocate_free cs'(2) by (fastforce simp: cs_full_def)
  then have "j = i" using j(1) by (auto simp: insert_cap_def slot_of_slot_at)
  then show ?thesis using cs' j by (auto simp: filled_def)
qed

theorem free_slot_reuse_witness:
  "\<exists>i cs cs' cs''. insert_cap TagFrame MAP 7 (CSpace_new 0 16384) = ret (Inr i, cs) \<and>
     free_slot i cs = ret cs' \<and> caps cs' = Map.empty \<and>
     insert_cap TagSignal WAIT 8 cs' = ret (Inr i, cs'')"
proof -
  obtain i cs fl where i: "insert_cap TagFrame MAP 7 (CSpace_new 0 16384) = ret (Inr i, cs)"
      "cs_full cs fl" "filled (CSpace_new 0 16384) cs i (new_cap TagFrame MAP 7) fl"
    using insert_cap_ok [OF new_full [of 0 16384], of TagFrame MAP 7] by (auto simp: capacity_new)
  then have "caps cs = [i \<mapsto> new_cap TagFrame MAP 7]" by (simp add: filled_def)
  then show ?thesis
    using free_slot_reuse [OF i(2), of i "new_cap TagFrame MAP 7" TagSignal WAIT 8] i(1) by auto
qed

text \<open>(C6) Inserting at an index the caller chooses. With a quota within the directory bound,
  \<open>insert_cap_at\<close> returns, and it succeeds exactly when the index is nonzero, below the quota and
  vacant: the page is grown on demand, the index is taken off the free list wherever it stands on
  it, and only this entry of the CSpace changes. Every other index is refused with \<open>InvalidIndex\<close>
  and the CSpace is left as it was.\<close>

theorem insert_cap_at_iff:
  assumes "cs_full cs fl" "t \<noteq> TagNull" "max_slots cs \<le> 16384"
  shows "if 0 < i \<and> i < max_slots cs \<and> caps cs i = None
    then \<exists>cs' fl'. insert_cap_at i t r ob cs = ret (Inr (), cs') \<and>
           caps cs' = (caps cs)(i \<mapsto> new_cap t r ob) \<and> cs_full cs' fl'
    else insert_cap_at i t r ob cs = ret (Inl InvalidIndex, cs)"
  using insert_cap_at_spec [OF assms(1,2), of i r ob] assms(3)
  by (auto simp: filled_def L1_SIZE_def L2_SIZE_def split: if_splits)

theorem insert_cap_at_iff_witness:
  "(\<exists>cs' fl'. insert_cap_at 200 TagThread CONTROL 9 (CSpace_new 3 1000) = ret (Inr (), cs') \<and>
      caps cs' = [200 \<mapsto> new_cap TagThread CONTROL 9] \<and> cs_full cs' fl')"
  using insert_cap_at_iff [OF new_full [of 3 1000], of TagThread 200 CONTROL 9]
  by (simp add: new_max_slots)

text \<open>(C7) Reserving slots. \<open>pre_allocate m\<close> always returns. It succeeds exactly when \<open>m\<close> more
  capabilities fit below the capacity, and then \<open>m\<close> slots are free without further growth;
  otherwise it fails with \<open>OutOfSlots\<close>. Either way the capabilities held are unchanged.\<close>

theorem pre_allocate_total:
  assumes "cs_full cs fl"
  shows "\<exists>res cs' fl'. pre_allocate m cs = ret (res, cs') \<and> cs_full cs' fl' \<and> caps cs' = caps cs \<and>
    (if m \<le> room cs then res = Inr () \<and> m \<le> free_count cs' else res = Inl OutOfSlots)"
proof -
  have rep: "cs_rep cs fl" using assms by (simp add: cs_full_def)
  have room: "length fl + (capacity cs - allocated_slots cs) = room cs"
    using full_count [OF assms] allocated_le_capacity [OF rep] by (simp add: room_def)
  obtain res cs' fl' where p: "pre_allocate m cs = ret (res, cs')" "cs_rep cs' fl'" "extends cs cs'"
      "set fl' = set fl \<union> (usable cs' - usable cs)"
      "if m \<le> room cs then res = Inr () \<and> m \<le> length fl' else res = Inl OutOfSlots"
    using pre_allocate_spec [OF rep, of m] unfolding room by blast
  have "usable cs \<subseteq> usable cs'" using p(3) by (auto simp: extends_def usable_def)
  then have "cs_full cs' fl'" using assms p(2-4) by (auto simp: cs_full_def extends_def)
  moreover have "free_count cs' = length fl'" using p(2) by (simp add: cs_rep_def)
  ultimately show ?thesis using p by (auto simp: extends_def)
qed

theorem pre_allocate_total_witness:
  "\<exists>cs'. pre_allocate 100 (CSpace_new 1 500) = ret (Inr (), cs') \<and> 100 \<le> free_count cs'"
  using pre_allocate_total [OF new_full [of 1 500], of 100] by (auto simp: room_def capacity_new)

text \<open>(C8) Enumeration and count. \<open>for_each_object\<close> visits the objects of the held capabilities in
  index order, each once, and \<open>populated_count\<close>, which is computed from the counters alone, is
  the number of held capabilities.\<close>

theorem enumerate_objects:
  assumes "cs_full cs fl"
  shows "for_each_object cs = List.map_filter (\<lambda>i. Option.bind (caps cs i) object) [0..<16384] \<and>
    populated_count cs = ret (card (dom (caps cs)))"
proof
  have "cs_rep cs fl" using assms by (simp add: cs_full_def)
  then show "for_each_object cs = List.map_filter (\<lambda>i. Option.bind (caps cs i) object) [0..<16384]"
    using for_each_object_eq by (simp add: L1_SIZE_def L2_SIZE_def)
  show "populated_count cs = ret (card (dom (caps cs)))"
    using full_count [OF assms] by (simp add: populated_count_def flip: full_count(1) [OF assms])
qed

theorem enumerate_objects_witness:
  "for_each_object (CSpace_new 2 64) = [] \<and> populated_count (CSpace_new 2 64) = ret 0"
  using enumerate_objects [OF new_full [of 2 64]] by (simp add: List.map_filter_def)

end
