(* ===== verification/Derivation.thy ===== *)
theory Derivation
  imports Cap_Space
begin

text \<open>
  The capability derivation tree: \<open>kernel/src/cap/derivation.rs\<close>, on top of the CSpace registry
  of \<open>kernel/src/cap/mod.rs\<close>.

  \<open>cap_state\<close> is the part of the kernel's memory these functions touch: the heap of CSpaces, by
  address, and the registry that maps a CSpace identifier to an address. A slot identifier is
  resolved through the registry to a slot of a directory page; every write goes through
  \<open>modify_slot\<close>. Dereferencing an address with no CSpace behind it is undefined behaviour and
  is modelled like a panic. The loops over sibling lists and over the revocation stack are
  \<open>partial_function\<close>s: not returning is the value \<open>panic\<close>.

  The first layer of lemmas shows that under the invariant \<open>st_ok\<close> each function acts on the map
  \<open>gcaps\<close> from slot identifiers to live capabilities, and never panics on live identifiers.
\<close>

section \<open>The registry\<close>

definition MAX_CSPACES :: nat where "MAX_CSPACES = 4096"

record cap_state =
  cs_heap :: "ptr \<Rightarrow> cspace option"
  cspace_registry :: "nat \<Rightarrow> ptr option"
  next_cspace_id :: nat

definition register_cspace :: "nat \<Rightarrow> ptr \<Rightarrow> cap_state \<Rightarrow> cap_state" where
  "register_cspace i p st =
     (if i < MAX_CSPACES then st\<lparr>cspace_registry := (cspace_registry st)(i := Some p)\<rparr> else st)"

definition unregister_cspace :: "nat \<Rightarrow> cap_state \<Rightarrow> cap_state" where
  "unregister_cspace i st =
     (if i < MAX_CSPACES then st\<lparr>cspace_registry := (cspace_registry st)(i := None)\<rparr> else st)"

definition lookup_cspace :: "cap_state \<Rightarrow> nat \<Rightarrow> ptr option" where
  "lookup_cspace st i = (if MAX_CSPACES \<le> i then None else cspace_registry st i)"

definition alloc_cspace_id :: "cap_state \<Rightarrow> nat \<times> cap_state" where
  "alloc_cspace_id st =
     (next_cspace_id st, st\<lparr>next_cspace_id := (next_cspace_id st + 1) mod 2 ^ 32\<rparr>)"

section \<open>Resolving and writing slots\<close>

definition resolve_slot_mut :: "cap_state \<Rightarrow> slot_id \<Rightarrow> capability_slot option run" where
  "resolve_slot_mut st x =
     (case lookup_cspace st (cspace_id x) of
        None \<Rightarrow> ret None
      | Some p \<Rightarrow> (case cs_heap st p of None \<Rightarrow> panic | Some cs \<Rightarrow> slot cs (index x)))"

text \<open>The store through the reference that \<open>resolve_slot_mut\<close> returned.\<close>

definition store_slot :: "cap_state \<Rightarrow> slot_id \<Rightarrow> capability_slot \<Rightarrow> cap_state" where
  "store_slot st x s =
     (case lookup_cspace st (cspace_id x) of
        None \<Rightarrow> st
      | Some p \<Rightarrow> (case cs_heap st p of
                     None \<Rightarrow> st
                   | Some cs \<Rightarrow> st\<lparr>cs_heap := (cs_heap st)(p \<mapsto> put_slot cs (index x) s)\<rparr>))"

text \<open>\<open>if let Some(slot) = resolve_slot_mut(x) { ... }\<close>.\<close>

definition modify_slot ::
  "slot_id \<Rightarrow> (capability_slot \<Rightarrow> capability_slot) \<Rightarrow> cap_state \<Rightarrow> cap_state run"
where
  "modify_slot x f st = do {
     r \<leftarrow> resolve_slot_mut st x;
     (case r of None \<Rightarrow> ret st | Some s \<Rightarrow> ret (store_slot st x (f s)))
   }"

section \<open>Tree operations\<close>

definition link_child :: "slot_id \<Rightarrow> slot_id \<Rightarrow> cap_state \<Rightarrow> cap_state run" where
  "link_child parent child st = do {
     c \<leftarrow> resolve_slot_mut st child;
     (case c of
        None \<Rightarrow> ret st
      | Some _ \<Rightarrow> do {
          st \<leftarrow> modify_slot child
                  (\<lambda>s. s\<lparr>deriv_parent := Some parent, deriv_prev_sibling := None\<rparr>) st;
          p \<leftarrow> resolve_slot_mut st parent;
          let old_first = Option.bind p deriv_first_child;
          st \<leftarrow> modify_slot parent (\<lambda>s. s\<lparr>deriv_first_child := Some child\<rparr>) st;
          st \<leftarrow> (case old_first of
                   None \<Rightarrow> ret st
                 | Some o_id \<Rightarrow> modify_slot o_id (\<lambda>s. s\<lparr>deriv_prev_sibling := Some child\<rparr>) st);
          modify_slot child (\<lambda>s. s\<lparr>deriv_next_sibling := old_first\<rparr>) st
        })
   }"

definition unlink_node :: "slot_id \<Rightarrow> cap_state \<Rightarrow> cap_state run" where
  "unlink_node node st = do {
     r \<leftarrow> resolve_slot_mut st node;
     (case r of
        None \<Rightarrow> ret st
      | Some s \<Rightarrow> do {
          st \<leftarrow> modify_slot node (\<lambda>s. s\<lparr>deriv_parent := None, deriv_prev_sibling := None,
                                     deriv_next_sibling := None\<rparr>) st;
          st \<leftarrow> (case deriv_prev_sibling s of
                   Some prev_id \<Rightarrow>
                     modify_slot prev_id (\<lambda>t. t\<lparr>deriv_next_sibling := deriv_next_sibling s\<rparr>) st
                 | None \<Rightarrow>
                     (case deriv_parent s of
                        None \<Rightarrow> ret st
                      | Some parent_id \<Rightarrow> modify_slot parent_id
                          (\<lambda>t. t\<lparr>deriv_first_child := deriv_next_sibling s\<rparr>) st));
          (case deriv_next_sibling s of
             None \<Rightarrow> ret st
           | Some next_id \<Rightarrow>
               modify_slot next_id (\<lambda>t. t\<lparr>deriv_prev_sibling := deriv_prev_sibling s\<rparr>) st)
        })
   }"

partial_function (option) reparent_loop ::
  "slot_id option \<Rightarrow> slot_id option \<Rightarrow> cap_state \<Rightarrow> cap_state run"
where
  "reparent_loop new_parent cur st =
     (case cur of
        None \<Rightarrow> Some st
      | Some child_id \<Rightarrow>
          (case resolve_slot_mut st child_id of
             None \<Rightarrow> None
           | Some r \<Rightarrow>
               (case modify_slot child_id (\<lambda>s. s\<lparr>deriv_parent := new_parent\<rparr>) st of
                  None \<Rightarrow> None
                | Some st1 \<Rightarrow>
                    (case (case new_parent of
                             Some np \<Rightarrow> link_child np child_id st1
                           | None \<Rightarrow> modify_slot child_id
                               (\<lambda>s. s\<lparr>deriv_parent := None, deriv_prev_sibling := None,
                                     deriv_next_sibling := None\<rparr>) st1) of
                       None \<Rightarrow> None
                     | Some st2 \<Rightarrow>
                         reparent_loop new_parent (Option.bind r deriv_next_sibling) st2))))"

definition reparent_children :: "slot_id \<Rightarrow> slot_id option \<Rightarrow> cap_state \<Rightarrow> cap_state run" where
  "reparent_children node new_parent st = do {
     r \<leftarrow> resolve_slot_mut st node;
     (case r of
        None \<Rightarrow> ret st
      | Some s \<Rightarrow> do {
          st \<leftarrow> modify_slot node (\<lambda>s. s\<lparr>deriv_first_child := None\<rparr>) st;
          reparent_loop new_parent (deriv_first_child s) st
        })
   }"

text \<open>The work stack of \<open>revoke_subtree\<close> is a list whose head is the top of the Rust vector.\<close>

partial_function (option) push_siblings ::
  "cap_state \<Rightarrow> slot_id option \<Rightarrow> slot_id list \<Rightarrow> slot_id list run"
where
  "push_siblings st cur stack =
     (case cur of
        None \<Rightarrow> Some stack
      | Some x \<Rightarrow>
          (case resolve_slot_mut st x of
             None \<Rightarrow> None
           | Some r \<Rightarrow> push_siblings st (Option.bind r deriv_next_sibling) (x # stack)))"

partial_function (option) revoke_loop ::
  "slot_id list \<Rightarrow> cap_state \<Rightarrow> ptr list \<Rightarrow> (ptr list \<times> cap_state) run"
where
  "revoke_loop stack st to_dealloc =
     (case stack of
        [] \<Rightarrow> Some (to_dealloc, st)
      | node_id # rest \<Rightarrow>
          (case lookup_cspace st (cspace_id node_id) of
             None \<Rightarrow> revoke_loop rest st to_dealloc
           | Some p \<Rightarrow>
               (case cs_heap st p of
                  None \<Rightarrow> None
                | Some cs \<Rightarrow>
                    (case slot cs (index node_id) of
                       None \<Rightarrow> None
                     | Some r \<Rightarrow>
                         (case r of
                            None \<Rightarrow> revoke_loop rest st to_dealloc
                          | Some s \<Rightarrow>
                              (case free_slot (index node_id) cs of
                                 None \<Rightarrow> None
                               | Some cs' \<Rightarrow>
                                   (case push_siblings (st\<lparr>cs_heap := (cs_heap st)(p \<mapsto> cs')\<rparr>)
                                           (deriv_first_child s) rest of
                                      None \<Rightarrow> None
                                    | Some stack' \<Rightarrow>
                                        revoke_loop stack' (st\<lparr>cs_heap := (cs_heap st)(p \<mapsto> cs')\<rparr>)
                                          (case object s of
                                             None \<Rightarrow> to_dealloc
                                           | Some ob \<Rightarrow> to_dealloc @ [ob]))))))))"

definition revoke_subtree :: "slot_id \<Rightarrow> cap_state \<Rightarrow> (ptr list \<times> cap_state) run" where
  "revoke_subtree root st = do {
     r \<leftarrow> resolve_slot_mut st root;
     (case r of
        None \<Rightarrow> ret ([], st)
      | Some s \<Rightarrow> do {
          st \<leftarrow> modify_slot root (\<lambda>s. s\<lparr>deriv_first_child := None\<rparr>) st;
          stack \<leftarrow> push_siblings st (deriv_first_child s) [];
          revoke_loop stack st []
        })
   }"

section \<open>The map of live capabilities\<close>

definition gslot :: "cap_state \<Rightarrow> slot_id \<Rightarrow> capability_slot option" where
  "gslot st x = Option.bind (lookup_cspace st (cspace_id x))
     (\<lambda>p. Option.bind (cs_heap st p) (\<lambda>cs. slot_at cs (index x)))"

definition gcaps :: "cap_state \<Rightarrow> slot_id \<Rightarrow> capability_slot option" where
  "gcaps st x = Option.bind (lookup_cspace st (cspace_id x))
     (\<lambda>p. Option.bind (cs_heap st p) (\<lambda>cs. caps cs (index x)))"

text \<open>The registry maps each identifier to its own CSpace.\<close>

definition reg_wf :: "cap_state \<Rightarrow> bool" where
  "reg_wf st \<longleftrightarrow> (\<forall>c p. lookup_cspace st c = Some p \<longrightarrow>
     (\<exists>cs. cs_heap st p = Some cs \<and> cs_id cs = c))"

definition st_wf :: "cap_state \<Rightarrow> bool" where
  "st_wf st \<longleftrightarrow> reg_wf st \<and> (\<forall>p cs. cs_heap st p = Some cs \<longrightarrow> dir_wf cs)"

definition st_ok :: "cap_state \<Rightarrow> bool" where
  "st_ok st \<longleftrightarrow> reg_wf st \<and> (\<forall>p cs. cs_heap st p = Some cs \<longrightarrow> cs_ok cs)"

lemma reg_inj:
  "reg_wf st \<Longrightarrow> lookup_cspace st c = Some p \<Longrightarrow> lookup_cspace st c' = Some p \<Longrightarrow> c = c'"
  unfolding reg_wf_def by (metis option.inject)

lemma cs_ok_wf: "cs_ok cs \<Longrightarrow> dir_wf cs"
  by (auto simp: cs_ok_def cs_full_def cs_rep_def)

lemma st_ok_wf: "st_ok st \<Longrightarrow> st_wf st"
  by (auto simp: st_ok_def st_wf_def cs_ok_wf)

lemma gcaps_gslot: "gcaps st x = Some s \<longleftrightarrow> gslot st x = Some s \<and> \<not> is_null s"
  by (auto simp: gcaps_def gslot_def caps_Some split: bind_splits)

lemma lookup_heap_upd [simp]:
  "lookup_cspace (st\<lparr>cs_heap := h\<rparr>) = lookup_cspace st"
  by (rule ext) (simp add: lookup_cspace_def)

text \<open>Replacing the CSpace behind one registered identifier.\<close>

lemma gcaps_replace:
  assumes "reg_wf st" "lookup_cspace st c = Some p"
  shows "gcaps (st\<lparr>cs_heap := (cs_heap st)(p \<mapsto> cs')\<rparr>) x =
    (if cspace_id x = c then caps cs' (index x) else gcaps st x)"
proof (cases "cspace_id x = c")
  case True
  then show ?thesis using assms(2) by (simp add: gcaps_def)
next
  case False
  then have "lookup_cspace st (cspace_id x) \<noteq> Some p" using reg_inj [OF assms(1)] assms(2) by blast
  then show ?thesis using False by (cases "lookup_cspace st (cspace_id x)") (auto simp: gcaps_def)
qed

lemma gslot_replace:
  assumes "reg_wf st" "lookup_cspace st c = Some p"
  shows "gslot (st\<lparr>cs_heap := (cs_heap st)(p \<mapsto> cs')\<rparr>) x =
    (if cspace_id x = c then slot_at cs' (index x) else gslot st x)"
proof (cases "cspace_id x = c")
  case True
  then show ?thesis using assms(2) by (simp add: gslot_def)
next
  case False
  then have "lookup_cspace st (cspace_id x) \<noteq> Some p" using reg_inj [OF assms(1)] assms(2) by blast
  then show ?thesis using False by (cases "lookup_cspace st (cspace_id x)") (auto simp: gslot_def)
qed

lemma reg_wf_replace:
  assumes "reg_wf st" "cs_heap st p = Some cs" "cs_id cs' = cs_id cs"
  shows "reg_wf (st\<lparr>cs_heap := (cs_heap st)(p \<mapsto> cs')\<rparr>)"
  unfolding reg_wf_def
proof (intro allI impI)
  fix c q assume "lookup_cspace (st\<lparr>cs_heap := (cs_heap st)(p \<mapsto> cs')\<rparr>) c = Some q"
  then obtain c0 where "cs_heap st q = Some c0" "cs_id c0 = c"
    using assms(1) by (auto simp: reg_wf_def)
  then show "\<exists>cs. cs_heap (st\<lparr>cs_heap := (cs_heap st)(p \<mapsto> cs')\<rparr>) q = Some cs \<and> cs_id cs = c"
    using assms(2,3) by (cases "q = p") auto
qed

lemma slot_id_eq: "x = y \<longleftrightarrow> cspace_id x = cspace_id y \<and> index x = index (y :: slot_id)"
  by (cases x; cases y) auto

lemma gslot_cases:
  assumes "gslot st x = Some s"
  obtains p cs where "lookup_cspace st (cspace_id x) = Some p" "cs_heap st p = Some cs"
    "slot_at cs (index x) = Some s"
  using assms by (auto simp: gslot_def split: bind_splits)

lemma gcaps_cases:
  assumes "gcaps st x = Some s"
  obtains p cs where "lookup_cspace st (cspace_id x) = Some p" "cs_heap st p = Some cs"
    "caps cs (index x) = Some s"
  using assms by (auto simp: gcaps_def split: bind_splits)

interpretation gslots: slot_store st_wf gslot store_slot
proof unfold_locales
  fix st x s assume wf: "st_wf st"
  then show "st_wf (store_slot st x s)"
    by (auto simp: st_wf_def store_slot_def dir_wf_put reg_wf_replace split: option.splits)
  fix y assume "gslot st x \<noteq> None"
  then obtain s0 where "gslot st x = Some s0" by auto
  then obtain p cs where p: "lookup_cspace st (cspace_id x) = Some p" "cs_heap st p = Some cs"
      "slot_at cs (index x) = Some s0"
    by (rule gslot_cases)
  have "dir_wf cs" using wf p(2) by (auto simp: st_wf_def)
  then have "slot_at (put_slot cs (index x) s) i = (if i = index x then Some s else slot_at cs i)" for i
    using slot_at_put p(3) by simp
  moreover have "gslot st y = slot_at cs (index y)" if "cspace_id y = cspace_id x"
    using that p by (simp add: gslot_def)
  ultimately show "gslot (store_slot st x s) y = (if y = x then Some s else gslot st y)"
    using wf p by (auto simp: store_slot_def gslot_replace st_wf_def slot_id_eq)
qed

lemma resolve_live: "gslot st x = Some s \<Longrightarrow> resolve_slot_mut st x = ret (Some s)"
  by (erule gslot_cases) (simp add: resolve_slot_mut_def slot_of_slot_at)

lemma resolve_cap: "gcaps st x = Some s \<Longrightarrow> resolve_slot_mut st x = ret (Some s)"
  by (simp add: gcaps_gslot resolve_live)

lemma cs_ok_put:
  assumes "cs_ok cs" "caps cs i = Some s0" "\<not> is_null s"
  shows "cs_ok (put_slot cs i s)" "caps (put_slot cs i s) = (caps cs)(i \<mapsto> s)"
proof -
  obtain fl where fl: "cs_full cs fl" using assms(1) by (auto simp: cs_ok_def)
  have rep: "cs_rep cs fl" using fl by (simp add: cs_full_def)
  have i: "i \<in> usable cs - set fl" by (rule caps_usable [OF fl assms(2)])
  show c: "caps (put_slot cs i s) = (caps cs)(i \<mapsto> s)"
    using caps_put [OF rep, of i s] i assms(3) by simp
  have "cs_full (put_slot cs i s) fl"
    using fl i rep_put [OF rep i] c by (auto simp: cs_full_def)
  then show "cs_ok (put_slot cs i s)" by (auto simp: cs_ok_def)
qed

text \<open>The frame every tree operation keeps: registry, identifiers and the CSpaces that exist.\<close>

definition same_spaces :: "cap_state \<Rightarrow> cap_state \<Rightarrow> bool" where
  "same_spaces st st' \<longleftrightarrow> cspace_registry st' = cspace_registry st \<and>
     next_cspace_id st' = next_cspace_id st \<and>
     (\<forall>p. map_option (\<lambda>cs. (cs_id cs, max_slots cs)) (cs_heap st' p) =
          map_option (\<lambda>cs. (cs_id cs, max_slots cs)) (cs_heap st p))"

lemma same_spaces_refl [simp]: "same_spaces st st"
  by (simp add: same_spaces_def)

lemma same_spaces_trans: "same_spaces a b \<Longrightarrow> same_spaces b c \<Longrightarrow> same_spaces a c"
  by (simp add: same_spaces_def)

lemma modify_cap:
  assumes ok: "st_ok st" and x: "gcaps st x = Some s" and f: "\<not> is_null (f s)"
  shows "\<exists>st'. modify_slot x f st = ret st' \<and> st_ok st' \<and> gcaps st' = (gcaps st)(x \<mapsto> f s) \<and>
    same_spaces st st'"
proof -
  obtain p cs where p: "lookup_cspace st (cspace_id x) = Some p" "cs_heap st p = Some cs"
      "caps cs (index x) = Some s"
    using x by (rule gcaps_cases)
  let ?cs = "put_slot cs (index x) (f s)"
  let ?st = "st\<lparr>cs_heap := (cs_heap st)(p \<mapsto> ?cs)\<rparr>"
  have reg: "reg_wf st" "cs_ok cs" using ok p(2) by (auto simp: st_ok_def)
  note put = cs_ok_put [OF reg(2) p(3) f]
  have "modify_slot x f st = ret ?st"
    using resolve_cap [OF x] p by (simp add: modify_slot_def store_slot_def)
  moreover have "st_ok ?st"
    using ok put(1) reg_wf_replace [OF reg(1) p(2)] by (auto simp: st_ok_def)
  moreover have "gcaps st y = caps cs (index y)" if "cspace_id y = cspace_id x" for y
    using that p by (simp add: gcaps_def)
  then have "gcaps ?st = (gcaps st)(x \<mapsto> f s)"
    using gcaps_replace [OF reg(1) p(1)] put(2) by (auto simp: fun_eq_iff slot_id_eq)
  moreover have "same_spaces st ?st" using p(2) by (simp add: same_spaces_def)
  ultimately show ?thesis by blast
qed

section \<open>Tree operations on the map of live capabilities\<close>

text \<open>What each operation does to the map when all the slots it touches are live.\<close>

definition link_map ::
  "slot_id \<Rightarrow> slot_id \<Rightarrow> (slot_id \<Rightarrow> capability_slot option) \<Rightarrow> slot_id \<Rightarrow> capability_slot option"
where
  "link_map p c h =
     (let old = deriv_first_child (the (h p));
          h1 = h(c \<mapsto> (the (h c))\<lparr>deriv_parent := Some p, deriv_prev_sibling := None,
                    deriv_next_sibling := old\<rparr>,
                 p \<mapsto> (the (h p))\<lparr>deriv_first_child := Some c\<rparr>)
      in case old of None \<Rightarrow> h1 | Some x \<Rightarrow> h1(x \<mapsto> (the (h x))\<lparr>deriv_prev_sibling := Some c\<rparr>))"

definition unlink_map ::
  "slot_id \<Rightarrow> (slot_id \<Rightarrow> capability_slot option) \<Rightarrow> slot_id \<Rightarrow> capability_slot option"
where
  "unlink_map n h =
     (let s = the (h n);
          h1 = h(n \<mapsto> s\<lparr>deriv_parent := None, deriv_prev_sibling := None,
                    deriv_next_sibling := None\<rparr>);
          h2 = (case deriv_prev_sibling s of
                  Some q \<Rightarrow> h1(q \<mapsto> (the (h q))\<lparr>deriv_next_sibling := deriv_next_sibling s\<rparr>)
                | None \<Rightarrow> (case deriv_parent s of
                             None \<Rightarrow> h1
                           | Some p \<Rightarrow> h1(p \<mapsto> (the (h p))\<lparr>deriv_first_child := deriv_next_sibling s\<rparr>)))
      in case deriv_next_sibling s of
           None \<Rightarrow> h2
         | Some m \<Rightarrow> h2(m \<mapsto> (the (h m))\<lparr>deriv_prev_sibling := deriv_prev_sibling s\<rparr>))"

text \<open>An update of the derivation links keeps a slot live.\<close>

lemma is_null_links [simp]:
  "is_null (s\<lparr>deriv_parent := a\<rparr>) = is_null s" "is_null (s\<lparr>deriv_first_child := a\<rparr>) = is_null s"
  "is_null (s\<lparr>deriv_next_sibling := a\<rparr>) = is_null s"
  "is_null (s\<lparr>deriv_prev_sibling := a\<rparr>) = is_null s" "is_null (s\<lparr>token := k\<rparr>) = is_null s"
  by (simp_all add: is_null_def)

lemma gcaps_not_null: "gcaps st x = Some s \<Longrightarrow> \<not> is_null s"
  by (simp add: gcaps_gslot)

lemma modify_link:
  assumes "st_ok st" "gcaps st x = Some s" "\<And>s. is_null (f s) = is_null s"
  shows "\<exists>st'. modify_slot x f st = ret st' \<and> st_ok st' \<and> same_spaces st st' \<and>
    gcaps st' = (gcaps st)(x \<mapsto> f s)"
  using modify_cap [OF assms(1,2)] assms(3) gcaps_not_null [OF assms(2)] by blast

lemma modify_link_opt:
  assumes ok: "st_ok st" and x: "\<forall>x. q = Some x \<longrightarrow> gcaps st x \<noteq> None"
    and f: "\<And>s. is_null (f s) = is_null s"
  shows "\<exists>st'. (case q of None \<Rightarrow> ret st | Some x \<Rightarrow> modify_slot x f st) = ret st' \<and> st_ok st' \<and>
    same_spaces st st' \<and> gcaps st' = (case q of None \<Rightarrow> gcaps st
      | Some x \<Rightarrow> (gcaps st)(x \<mapsto> f (the (gcaps st x))))"
proof (cases q)
  case None
  then show ?thesis using ok by simp
next
  case (Some x)
  then obtain sx where sx: "gcaps st x = Some sx" using x by auto
  from modify_link [OF ok sx f] show ?thesis using sx Some by simp
qed

lemma link_child_caps:
  assumes ok: "st_ok st" and p: "gcaps st p = Some sp" and c: "gcaps st c = Some sc" and "p \<noteq> c"
    and old: "\<And>x. deriv_first_child sp = Some x \<Longrightarrow> gcaps st x \<noteq> None \<and> x \<noteq> p \<and> x \<noteq> c"
  shows "\<exists>st'. link_child p c st = ret st' \<and> st_ok st' \<and> same_spaces st st' \<and>
    gcaps st' = link_map p c (gcaps st)"
proof -
  let ?f1 = "\<lambda>s. s\<lparr>deriv_parent := Some p, deriv_prev_sibling := None\<rparr>"
  obtain st1 where st1: "modify_slot c ?f1 st = ret st1" "st_ok st1" "same_spaces st st1"
      "gcaps st1 = (gcaps st)(c \<mapsto> ?f1 sc)"
    using modify_link [OF ok c, of ?f1] by auto
  have p1: "gcaps st1 p = Some sp" using st1(4) p \<open>p \<noteq> c\<close> by simp
  let ?f2 = "\<lambda>s. s\<lparr>deriv_first_child := Some c\<rparr>"
  obtain st2 where st2: "modify_slot p ?f2 st1 = ret st2" "st_ok st2" "same_spaces st1 st2"
      "gcaps st2 = (gcaps st1)(p \<mapsto> ?f2 sp)"
    using modify_link [OF st1(2) p1, of ?f2] by auto
  let ?f3 = "\<lambda>s. s\<lparr>deriv_prev_sibling := Some c\<rparr>"
  have old2: "gcaps st2 x = gcaps st x \<and> gcaps st2 x \<noteq> None" if "deriv_first_child sp = Some x" for x
    using old [OF that] st1(4) st2(4) by auto
  then have old2a: "\<forall>x. deriv_first_child sp = Some x \<longrightarrow> gcaps st2 x \<noteq> None" by blast
  obtain st3 where st3: "(case deriv_first_child sp of None \<Rightarrow> ret st2
        | Some x \<Rightarrow> modify_slot x ?f3 st2) = ret st3" "st_ok st3" "same_spaces st2 st3"
      "gcaps st3 = (case deriv_first_child sp of None \<Rightarrow> gcaps st2
        | Some x \<Rightarrow> (gcaps st2)(x \<mapsto> ?f3 (the (gcaps st2 x))))"
    using modify_link_opt [OF st2(2) old2a, of ?f3] by auto
  let ?f4 = "\<lambda>s. s\<lparr>deriv_next_sibling := deriv_first_child sp\<rparr>"
  have c3: "gcaps st3 c = Some (?f1 sc)"
    using st1(4) st2(4) st3(4) \<open>p \<noteq> c\<close> old by (auto split: option.splits)
  obtain st4 where st4: "modify_slot c ?f4 st3 = ret st4" "st_ok st4" "same_spaces st3 st4"
      "gcaps st4 = (gcaps st3)(c \<mapsto> ?f4 (?f1 sc))"
    using modify_link [OF st3(2) c3, of ?f4] by auto
  have "link_child p c st = ret st4"
    using resolve_cap [OF c] resolve_cap [OF p1] st1(1) st2(1) st3(1) st4(1)
    by (simp add: link_child_def)
  moreover have "gcaps st4 = link_map p c (gcaps st)"
    using st1(4) st2(4) st3(4) st4(4) p c \<open>p \<noteq> c\<close> old old2
    by (auto simp: link_map_def Let_def fun_eq_iff split: option.splits)
  moreover have "same_spaces st st4"
    using st1(3) st2(3) st3(3) st4(3) same_spaces_trans by blast
  ultimately show ?thesis using st4(2) by blast
qed

text \<open>The slots that \<open>unlink_node\<close> writes are live and pairwise distinct.\<close>

definition unlink_ready :: "(slot_id \<Rightarrow> capability_slot option) \<Rightarrow> slot_id \<Rightarrow> bool" where
  "unlink_ready h n \<longleftrightarrow> (\<exists>s. h n = Some s \<and>
     (\<forall>q. deriv_prev_sibling s = Some q \<longrightarrow> h q \<noteq> None \<and> q \<noteq> n \<and> deriv_next_sibling s \<noteq> Some q) \<and>
     (\<forall>q. deriv_parent s = Some q \<longrightarrow> h q \<noteq> None \<and> q \<noteq> n \<and> deriv_next_sibling s \<noteq> Some q) \<and>
     (\<forall>q. deriv_next_sibling s = Some q \<longrightarrow> h q \<noteq> None \<and> q \<noteq> n))"

lemma unlink_node_caps:
  assumes ok: "st_ok st" and rd: "unlink_ready (gcaps st) n"
  shows "\<exists>st'. unlink_node n st = ret st' \<and> st_ok st' \<and> same_spaces st st' \<and>
    gcaps st' = unlink_map n (gcaps st)"
proof -
  obtain s where n: "gcaps st n = Some s" using rd by (auto simp: unlink_ready_def)
  let ?f1 = "\<lambda>s. s\<lparr>deriv_parent := None, deriv_prev_sibling := None, deriv_next_sibling := None\<rparr>"
  obtain st1 where st1: "modify_slot n ?f1 st = ret st1" "st_ok st1" "same_spaces st st1"
      "gcaps st1 = (gcaps st)(n \<mapsto> ?f1 s)"
    using modify_link [OF ok n, of ?f1] by auto
  let ?f2 = "\<lambda>t. t\<lparr>deriv_next_sibling := deriv_next_sibling s\<rparr>"
  let ?f3 = "\<lambda>t. t\<lparr>deriv_first_child := deriv_next_sibling s\<rparr>"
  have keep1: "gcaps st1 q = gcaps st q \<and> gcaps st1 q \<noteq> None"
    if "deriv_prev_sibling s = Some q \<or> deriv_parent s = Some q \<or> deriv_next_sibling s = Some q" for q
    using that rd n st1(4) by (auto simp: unlink_ready_def)
  have keep1a: "\<forall>q. deriv_prev_sibling s = Some q \<longrightarrow> gcaps st1 q \<noteq> None"
      "\<forall>q. deriv_parent s = Some q \<longrightarrow> gcaps st1 q \<noteq> None"
    using keep1 by blast+
  obtain st2 where st2: "(case deriv_prev_sibling s of Some q \<Rightarrow> modify_slot q ?f2 st1
        | None \<Rightarrow> (case deriv_parent s of None \<Rightarrow> ret st1 | Some p \<Rightarrow> modify_slot p ?f3 st1)) = ret st2"
      "st_ok st2" "same_spaces st1 st2"
      "gcaps st2 = (case deriv_prev_sibling s of Some q \<Rightarrow> (gcaps st1)(q \<mapsto> ?f2 (the (gcaps st1 q)))
        | None \<Rightarrow> (case deriv_parent s of None \<Rightarrow> gcaps st1
            | Some p \<Rightarrow> (gcaps st1)(p \<mapsto> ?f3 (the (gcaps st1 p)))))"
    using modify_link_opt [OF st1(2) keep1a(1), of ?f2]
      modify_link_opt [OF st1(2) keep1a(2), of ?f3]
    by (cases "deriv_prev_sibling s") auto
  let ?f4 = "\<lambda>t. t\<lparr>deriv_prev_sibling := deriv_prev_sibling s\<rparr>"
  have keep2: "gcaps st2 m = gcaps st m \<and> gcaps st2 m \<noteq> None" if "deriv_next_sibling s = Some m" for m
    using that rd n keep1 [of m] st2(4) by (auto simp: unlink_ready_def split: option.splits)
  then have keep2a: "\<forall>m. deriv_next_sibling s = Some m \<longrightarrow> gcaps st2 m \<noteq> None" by blast
  obtain st3 where st3: "(case deriv_next_sibling s of None \<Rightarrow> ret st2
        | Some x \<Rightarrow> modify_slot x ?f4 st2) = ret st3" "st_ok st3" "same_spaces st2 st3"
      "gcaps st3 = (case deriv_next_sibling s of None \<Rightarrow> gcaps st2
        | Some x \<Rightarrow> (gcaps st2)(x \<mapsto> ?f4 (the (gcaps st2 x))))"
    using modify_link_opt [OF st2(2) keep2a, of ?f4] by auto
  have "unlink_node n st = ret st3"
    using resolve_cap [OF n] st1(1) st2(1) st3(1) by (simp add: unlink_node_def)
  moreover have "gcaps st3 = unlink_map n (gcaps st)"
    using st1(4) st2(4) st3(4) n keep1 keep2
    by (simp add: unlink_map_def Let_def split: option.splits)
  moreover have "same_spaces st st3"
    using st1(3) st2(3) st3(3) same_spaces_trans by blast
  ultimately show ?thesis using st3(2) by blast
qed

lemma free_cap:
  assumes ok: "st_ok st" and x: "gcaps st x = Some s"
    and p: "lookup_cspace st (cspace_id x) = Some p" "cs_heap st p = Some cs"
  shows "\<exists>cs'. free_slot (index x) cs = ret cs' \<and>
    (let st' = st\<lparr>cs_heap := (cs_heap st)(p \<mapsto> cs')\<rparr>
     in st_ok st' \<and> same_spaces st st' \<and> gcaps st' = (gcaps st)(x := None))"
proof -
  have c: "caps cs (index x) = Some s" using x p by (simp add: gcaps_def)
  obtain fl where fl: "cs_full cs fl" using ok p(2) by (auto simp: st_ok_def cs_ok_def)
  obtain cs' where cs': "free_slot (index x) cs = ret cs'" "cs_full cs' (index x # fl)"
      "caps cs' = (caps cs)(index x := None)" "cs_id cs' = cs_id cs" "max_slots cs' = max_slots cs"
    using free_slot_full [OF fl c] by auto
  let ?st = "st\<lparr>cs_heap := (cs_heap st)(p \<mapsto> cs')\<rparr>"
  have reg: "reg_wf st" using ok by (simp add: st_ok_def)
  have "st_ok ?st"
    using ok cs'(2) reg_wf_replace [OF reg p(2) cs'(4)] by (auto simp: st_ok_def cs_ok_def)
  moreover have "gcaps st y = caps cs (index y)" if "cspace_id y = cspace_id x" for y
    using that p by (simp add: gcaps_def)
  then have "gcaps ?st = (gcaps st)(x := None)"
    using gcaps_replace [OF reg p(1)] cs'(3) by (auto simp: fun_eq_iff slot_id_eq)
  moreover have "same_spaces st ?st" using p(2) cs'(4,5) by (simp add: same_spaces_def)
  ultimately show ?thesis using cs'(1) by (simp add: Let_def)
qed

section \<open>CSpace operations through a pointer\<close>

text \<open>\<open>(*cs_ptr).insert_cap(...)\<close>, \<open>(*cs_ptr).insert_cap_at(...)\<close>, \<open>(*cs_ptr).free_slot(...)\<close> and
  \<open>(*cs_ptr).slot(...)\<close> as the system calls write them.\<close>

definition cspace_at :: "ptr \<Rightarrow> cap_state \<Rightarrow> cspace run" where
  "cspace_at p st = cs_heap st p"

definition put_cspace :: "ptr \<Rightarrow> cspace \<Rightarrow> cap_state \<Rightarrow> cap_state" where
  "put_cspace p cs st = st\<lparr>cs_heap := (cs_heap st)(p \<mapsto> cs)\<rparr>"

definition ptr_slot :: "ptr \<Rightarrow> nat \<Rightarrow> cap_state \<Rightarrow> capability_slot option run" where
  "ptr_slot p i st = do { cs \<leftarrow> cspace_at p st; slot cs i }"

definition ptr_insert_cap ::
  "ptr \<Rightarrow> cap_tag \<Rightarrow> rights \<Rightarrow> ptr \<Rightarrow> cap_state \<Rightarrow> ((cap_error, nat) result \<times> cap_state) run"
where
  "ptr_insert_cap p t r ob st = do {
     cs \<leftarrow> cspace_at p st;
     (res, cs') \<leftarrow> insert_cap t r ob cs;
     ret (res, put_cspace p cs' st)
   }"

definition ptr_insert_cap_at ::
  "ptr \<Rightarrow> nat \<Rightarrow> cap_tag \<Rightarrow> rights \<Rightarrow> ptr \<Rightarrow> cap_state \<Rightarrow> ((cap_error, unit) result \<times> cap_state) run"
where
  "ptr_insert_cap_at p i t r ob st = do {
     cs \<leftarrow> cspace_at p st;
     (res, cs') \<leftarrow> insert_cap_at i t r ob cs;
     ret (res, put_cspace p cs' st)
   }"

definition ptr_free_slot :: "ptr \<Rightarrow> nat \<Rightarrow> cap_state \<Rightarrow> cap_state run" where
  "ptr_free_slot p i st = do {
     cs \<leftarrow> cspace_at p st;
     cs' \<leftarrow> free_slot i cs;
     ret (put_cspace p cs' st)
   }"

text \<open>A pointer to a live CSpace that the registry knows under identifier \<open>c\<close>.\<close>

definition registered :: "cap_state \<Rightarrow> ptr \<Rightarrow> nat \<Rightarrow> bool" where
  "registered st p c \<longleftrightarrow> lookup_cspace st c = Some p"

lemma registered_cspace:
  "st_ok st \<Longrightarrow> registered st p c \<Longrightarrow> \<exists>cs. cs_heap st p = Some cs \<and> cs_id cs = c \<and> cs_ok cs"
  unfolding registered_def st_ok_def reg_wf_def by blast

lemma same_spaces_registered: "same_spaces st st' \<Longrightarrow> registered st' p c = registered st p c"
  by (simp add: same_spaces_def registered_def lookup_cspace_def)

lemma registered_gcaps:
  "st_ok st \<Longrightarrow> registered st p c \<Longrightarrow> cs_heap st p = Some cs \<Longrightarrow>
    gcaps st \<lparr>cspace_id = c, index = i\<rparr> = caps cs i"
  by (simp add: registered_def gcaps_def)

lemma ptr_slot_cap:
  assumes "st_ok st" "registered st p c"
  shows "gcaps st \<lparr>cspace_id = c, index = i\<rparr> = Some s \<longleftrightarrow>
    (ptr_slot p i st = ret (Some s) \<and> \<not> is_null s)"
proof -
  obtain cs where cs: "cs_heap st p = Some cs" using registered_cspace [OF assms] by auto
  have "caps cs i = Some s \<longleftrightarrow> slot cs i = ret (Some s) \<and> \<not> is_null s"
    by (auto simp: caps_Some slot_eq slot_at_def)
  then show ?thesis using registered_gcaps [OF assms cs] cs by (simp add: ptr_slot_def cspace_at_def)
qed

lemma put_cspace_ok:
  assumes ok: "st_ok st" and p: "registered st p c" "cs_heap st p = Some cs"
    and cs': "cs_ok cs'" "cs_id cs' = cs_id cs" "max_slots cs' = max_slots cs"
  shows "st_ok (put_cspace p cs' st)" "same_spaces st (put_cspace p cs' st)"
    and "gcaps (put_cspace p cs' st) x = (if cspace_id x = c then caps cs' (index x) else gcaps st x)"
proof -
  have reg: "reg_wf st" using ok by (simp add: st_ok_def)
  show "st_ok (put_cspace p cs' st)"
    using ok cs' reg_wf_replace [OF reg p(2) cs'(2)] by (auto simp: st_ok_def put_cspace_def)
  show "same_spaces st (put_cspace p cs' st)"
    using p cs' by (simp add: same_spaces_def put_cspace_def)
  show "gcaps (put_cspace p cs' st) x = (if cspace_id x = c then caps cs' (index x) else gcaps st x)"
    using gcaps_replace [OF reg p(1) [unfolded registered_def]] by (simp add: put_cspace_def)
qed

lemma put_cspace_upd:
  assumes "st_ok st" "registered st p c" "cs_heap st p = Some cs"
    and "cs_ok cs'" "cs_id cs' = cs_id cs" "max_slots cs' = max_slots cs"
    and "caps cs' = (caps cs)(i := v)"
  shows "gcaps (put_cspace p cs' st) = (gcaps st)(\<lparr>cspace_id = c, index = i\<rparr> := v)"
proof
  fix x :: slot_id
  show "gcaps (put_cspace p cs' st) x = ((gcaps st)(\<lparr>cspace_id = c, index = i\<rparr> := v)) x"
    using put_cspace_ok(3) [OF assms(1-6)] registered_gcaps [OF assms(1-3)] assms(7)
    by (cases x) auto
qed

text \<open>The free slots left in the CSpace behind a pointer.\<close>

definition ptr_room :: "cap_state \<Rightarrow> ptr \<Rightarrow> nat" where
  "ptr_room st p = (case cs_heap st p of None \<Rightarrow> 0 | Some cs \<Rightarrow> room cs)"

lemma ptr_insert_cap_ok:
  assumes ok: "st_ok st" and p: "registered st p c" and t: "t \<noteq> TagNull" and "0 < ptr_room st p"
  shows "\<exists>i st'. ptr_insert_cap p t r ob st = ret (Inr i, st') \<and> st_ok st' \<and> same_spaces st st' \<and> 0 < i \<and>
    gcaps st \<lparr>cspace_id = c, index = i\<rparr> = None \<and>
    gcaps st' = (gcaps st)(\<lparr>cspace_id = c, index = i\<rparr> \<mapsto> new_cap t r ob)"
proof -
  obtain cs where cs: "cs_heap st p = Some cs" "cs_ok cs" using registered_cspace [OF ok p] by auto
  then obtain fl where fl: "cs_full cs fl" by (auto simp: cs_ok_def)
  have "card (dom (caps cs)) < capacity cs" using assms(4) cs(1) by (simp add: ptr_room_def room_def)
  then obtain i cs' fl' where i: "insert_cap t r ob cs = ret (Inr i, cs')" "cs_full cs' fl'"
      "filled cs cs' i (new_cap t r ob) fl'"
    using insert_cap_ok [OF fl t, of r ob] by blast
  then have f: "cs_ok cs'" "cs_id cs' = cs_id cs" "max_slots cs' = max_slots cs" "0 < i"
      "caps cs' = (caps cs)(i \<mapsto> new_cap t r ob)" "caps cs i = None"
    by (auto simp: cs_ok_def filled_def usable_def)
  show ?thesis
    using i(1) cs(1) f(4,6) registered_gcaps [OF ok p cs(1), of i]
      put_cspace_ok(1,2) [OF ok p cs(1) f(1-3)] put_cspace_upd [OF ok p cs(1) f(1-3,5)]
    by (auto simp: ptr_insert_cap_def cspace_at_def)
qed

lemma ptr_insert_cap_full:
  assumes ok: "st_ok st" and p: "registered st p c" and t: "t \<noteq> TagNull" and "ptr_room st p = 0"
  shows "ptr_insert_cap p t r ob st = ret (Inl OutOfSlots, st)"
proof -
  obtain cs where cs: "cs_heap st p = Some cs" "cs_ok cs" using registered_cspace [OF ok p] by auto
  then show ?thesis
    using cst.ins_full [OF cs(2) t] assms(4)
    by (simp add: ptr_insert_cap_def cspace_at_def ptr_room_def put_cspace_def fun_upd_idem)
qed

lemma ptr_free_slot_ok:
  assumes ok: "st_ok st" and p: "registered st p c"
    and x: "gcaps st \<lparr>cspace_id = c, index = i\<rparr> = Some s"
  shows "\<exists>st'. ptr_free_slot p i st = ret st' \<and> st_ok st' \<and> same_spaces st st' \<and>
    gcaps st' = (gcaps st)(\<lparr>cspace_id = c, index = i\<rparr> := None)"
proof -
  obtain cs where cs: "cs_heap st p = Some cs" "cs_ok cs" using registered_cspace [OF ok p] by auto
  from free_cap [OF ok x, of p cs] p cs show ?thesis
    by (auto simp: Let_def ptr_free_slot_def cspace_at_def put_cspace_def registered_def)
qed

lemma ptr_insert_cap_other:
  "ptr_insert_cap p t r ob st = ret (res, st') \<Longrightarrow> q \<noteq> p \<Longrightarrow> cs_heap st' q = cs_heap st q"
  by (auto simp: ptr_insert_cap_def put_cspace_def Option.bind_eq_Some_conv split: prod.splits)

section \<open>Creating CSpaces\<close>

definition empty_state :: cap_state where
  "empty_state = \<lparr>cs_heap = Map.empty, cspace_registry = Map.empty, next_cspace_id = 0\<rparr>"

lemma empty_state_ok [simp]: "st_ok empty_state" "gcaps empty_state = Map.empty"
  by (auto simp: empty_state_def st_ok_def reg_wf_def lookup_cspace_def gcaps_def)

text \<open>A fresh CSpace is put on the heap and registered, as the creation path does.\<close>

definition add_cspace :: "ptr \<Rightarrow> nat \<Rightarrow> nat \<Rightarrow> cap_state \<Rightarrow> cap_state" where
  "add_cspace p i m st = register_cspace i p (put_cspace p (CSpace_new i m) st)"

lemma lookup_add_cspace:
  "lookup_cspace (add_cspace p i m st) c =
     (if c = i \<and> i < MAX_CSPACES then Some p else lookup_cspace st c)"
  by (simp add: add_cspace_def register_cspace_def put_cspace_def lookup_cspace_def)

lemma heap_add_cspace [simp]: "cs_heap (add_cspace p i m st) = (cs_heap st)(p \<mapsto> CSpace_new i m)"
  by (simp add: add_cspace_def register_cspace_def put_cspace_def)

lemma add_cspace_ok:
  assumes ok: "st_ok st" and new: "cs_heap st p = None" "lookup_cspace st i = None"
  shows "st_ok (add_cspace p i m st)" "gcaps (add_cspace p i m st) = gcaps st"
proof -
  have reg: "\<exists>cs. cs_heap st q = Some cs \<and> cs_id cs = c" if "lookup_cspace st c = Some q" for c q
    using ok that by (auto simp: st_ok_def reg_wf_def)
  have np: "lookup_cspace st c \<noteq> Some p" for c using reg [of c p] new(1) by auto
  have cs: "cs_ok (CSpace_new i m)" "cs_id (CSpace_new i m) = i"
    using new_full cs_ok_def by (auto simp: CSpace_new_def)
  show "st_ok (add_cspace p i m st)"
    using ok reg new cs np by (auto simp: st_ok_def reg_wf_def lookup_add_cspace)
  show "gcaps (add_cspace p i m st) = gcaps st"
    using new np by (auto simp: fun_eq_iff gcaps_def lookup_add_cspace split: Option.bind_splits)
qed

lemma registered_add_cspace:
  "i < MAX_CSPACES \<Longrightarrow> registered (add_cspace p i m st) p i"
  "registered st q c \<Longrightarrow> c \<noteq> i \<Longrightarrow> registered (add_cspace p i m st) q c"
  by (simp_all add: registered_def lookup_add_cspace)

lemma room_add_cspace [simp]:
  "ptr_room (add_cspace p i m st) q = (if q = p then min m 16383 else ptr_room st q)"
  by (simp add: ptr_room_def room_def capacity_new)

text \<open>Two CSpaces, the smallest state on which the examples below run.\<close>

definition two_spaces :: cap_state where
  "two_spaces = add_cspace 20 2 100 (add_cspace 10 1 100 empty_state)"

lemma two_spaces_ok:
  "st_ok two_spaces" "gcaps two_spaces = Map.empty" "registered two_spaces 10 1"
  "registered two_spaces 20 2" "0 < ptr_room two_spaces 10" "0 < ptr_room two_spaces 20"
proof -
  have e: "cs_heap empty_state p = None" "lookup_cspace empty_state c = None" for p c
    by (simp_all add: empty_state_def lookup_cspace_def)
  let ?s = "add_cspace 10 1 100 empty_state"
  have 1: "st_ok ?s" "gcaps ?s = Map.empty" using add_cspace_ok [OF _ e] by auto
  have 2: "cs_heap ?s 20 = None" "lookup_cspace ?s 2 = None" using e by (auto simp: lookup_add_cspace)
  show "st_ok two_spaces" "gcaps two_spaces = Map.empty"
    using add_cspace_ok [OF 1(1) 2] 1(2) by (auto simp: two_spaces_def)
  show "registered two_spaces 10 1" "registered two_spaces 20 2"
    unfolding two_spaces_def by (intro registered_add_cspace; simp add: MAX_CSPACES_def)+
  show "0 < ptr_room two_spaces 10" "0 < ptr_room two_spaces 20"
    by (simp_all add: two_spaces_def ptr_room_def room_def capacity_new)
qed

lemma gcaps_index: "st_ok st \<Longrightarrow> gcaps st x = Some s \<Longrightarrow> 0 < index x"
  by (auto simp: gcaps_def st_ok_def cs_ok_def split: Option.bind_splits)
    (metis DiffD1 caps_usable mem_Collect_eq usable_def)

end
