(* ===== verification/Derivation_Tree.thy ===== *)
theory Derivation_Tree
  imports Derivation "HOL-Library.Multiset"
begin

text \<open>
  The derivation links form a forest. \<open>tree_rep h ch L\<close> relates the map \<open>h\<close> of live capabilities
  to the abstract forest \<open>ch\<close>, which gives every capability the list of its children: the
  children of a node form a doubly linked list starting at \<open>deriv_first_child\<close>, every child points
  back to its parent, roots have no siblings, and a rank decreases towards the root, so there is no
  cycle. \<open>L\<close> is the set of nodes that an operation in progress has detached and whose own links
  are unconstrained; it is empty between operations.

  The operations of \<open>derivation.rs\<close> are shown to implement the obvious operations on \<open>ch\<close>, and
  \<open>revoke_subtree\<close> to remove exactly the strict descendants of its argument.
\<close>

section \<open>Doubly linked lists\<close>

type_synonym cap_map = "slot_id \<Rightarrow> capability_slot option"

fun dseg :: "cap_map \<Rightarrow> slot_id option \<Rightarrow> slot_id option \<Rightarrow> slot_id list \<Rightarrow> slot_id option \<Rightarrow>
  slot_id option \<Rightarrow> bool"
where
  "dseg h pv p [] pv' q \<longleftrightarrow> p = q \<and> pv = pv'"
| "dseg h pv p (x # xs) pv' q \<longleftrightarrow> p = Some x \<and>
     (\<exists>s. h x = Some s \<and> deriv_prev_sibling s = pv \<and> dseg h (Some x) (deriv_next_sibling s) xs pv' q)"

definition dll :: "cap_map \<Rightarrow> slot_id option \<Rightarrow> slot_id list \<Rightarrow> bool" where
  "dll h p xs \<longleftrightarrow> (\<exists>l. dseg h None p xs l None)"

lemma dseg_append:
  "dseg h pv p (xs @ ys) pv'' r \<longleftrightarrow> (\<exists>pv' q. dseg h pv p xs pv' q \<and> dseg h pv' q ys pv'' r)"
  by (induction xs arbitrary: pv p) auto

text \<open>Only the sibling links of the members matter.\<close>

definition same_sibs :: "cap_map \<Rightarrow> cap_map \<Rightarrow> slot_id \<Rightarrow> bool" where
  "same_sibs h h' x \<longleftrightarrow> map_option (\<lambda>s. (deriv_prev_sibling s, deriv_next_sibling s)) (h' x) =
     map_option (\<lambda>s. (deriv_prev_sibling s, deriv_next_sibling s)) (h x)"

lemma dseg_frame:
  "(\<And>x. x \<in> set xs \<Longrightarrow> same_sibs h h' x) \<Longrightarrow> dseg h pv p xs pv' q \<Longrightarrow> dseg h' pv p xs pv' q"
proof (induction xs arbitrary: pv p)
  case Nil
  then show ?case by simp
next
  case (Cons x xs)
  obtain s where s: "p = Some x" "h x = Some s" "deriv_prev_sibling s = pv"
      "dseg h (Some x) (deriv_next_sibling s) xs pv' q"
    using Cons.prems(2) by auto
  obtain s' where "h' x = Some s'" "deriv_prev_sibling s' = pv"
      "deriv_next_sibling s' = deriv_next_sibling s"
    using Cons.prems(1) [of x] s(2,3) by (auto simp: same_sibs_def)
  then show ?case using Cons s by auto
qed

lemma dll_frame: "(\<And>x. x \<in> set xs \<Longrightarrow> same_sibs h h' x) \<Longrightarrow> dll h p xs \<Longrightarrow> dll h' p xs"
  unfolding dll_def using dseg_frame by metis

text \<open>Relinking the first element to a new predecessor, and the last one to a new successor.\<close>

lemma dseg_reprev:
  assumes "dseg h pv p xs l q" "distinct xs"
    and "\<And>x. x \<in> set xs \<Longrightarrow> p \<noteq> Some x \<Longrightarrow> same_sibs h h' x"
    and "\<And>x s. p = Some x \<Longrightarrow> x \<in> set xs \<Longrightarrow> h x = Some s \<Longrightarrow> \<exists>s'. h' x = Some s' \<and>
      deriv_prev_sibling s' = pv' \<and> deriv_next_sibling s' = deriv_next_sibling s"
  shows "\<exists>l'. dseg h' pv' p xs l' q"
proof (cases xs)
  case Nil
  then show ?thesis using assms(1) by simp
next
  case (Cons x ys)
  then obtain s where s: "p = Some x" "h x = Some s" "dseg h (Some x) (deriv_next_sibling s) ys l q"
    using assms(1) by auto
  have "dseg h' (Some x) (deriv_next_sibling s) ys l q"
    using assms(2,3) s(1) Cons by (intro dseg_frame [OF _ s(3)]) auto
  then show ?thesis using assms(4) [OF s(1) _ s(2)] s(1) Cons by auto
qed

lemma dseg_renext:
  assumes "dseg h pv p (us @ [u]) l q"
    and "\<And>x. x \<in> set us \<Longrightarrow> same_sibs h h' x"
    and "\<And>s. h u = Some s \<Longrightarrow> \<exists>s'. h' u = Some s' \<and>
      deriv_prev_sibling s' = deriv_prev_sibling s \<and> deriv_next_sibling s' = q'"
  shows "dseg h' pv p (us @ [u]) (Some u) q'"
  using assms(1,3) dseg_frame [OF assms(2)] by (fastforce simp: dseg_append)

lemma dseg_last: "dseg h pv p xs l q \<Longrightarrow> l = (if xs = [] then pv else Some (last xs))"
  by (induction xs arbitrary: pv p) auto

definition next_of :: "cap_map \<Rightarrow> slot_id \<Rightarrow> slot_id option" where
  "next_of h x = Option.bind (h x) deriv_next_sibling"

lemma dseg_lseg: "dseg h pv p xs pv' q \<Longrightarrow> lseg (next_of h) p xs q"
  by (induction xs arbitrary: pv p) (auto simp: next_of_def)

lemma dll_llist: "dll h p xs \<Longrightarrow> llist (next_of h) p xs"
  by (auto simp: dll_def dest: dseg_lseg)

lemma dll_distinct: "dll h p xs \<Longrightarrow> distinct xs"
  by (blast dest: dll_llist llist_distinct)

lemma dll_live: "dll h p xs \<Longrightarrow> x \<in> set xs \<Longrightarrow> h x \<noteq> None"
proof -
  have "dseg h pv p xs l q \<Longrightarrow> x \<in> set xs \<Longrightarrow> h x \<noteq> None" for pv p l q
    by (induction xs arbitrary: pv p) auto
  then show "dll h p xs \<Longrightarrow> x \<in> set xs \<Longrightarrow> h x \<noteq> None" by (auto simp: dll_def)
qed

lemma dll_Nil [simp]: "dll h p [] \<longleftrightarrow> p = None"
  by (simp add: dll_def)

lemma dll_first: "dll h p xs \<Longrightarrow> p = (case xs of [] \<Rightarrow> None | x # _ \<Rightarrow> Some x)"
  by (cases xs) (auto simp: dll_def)

section \<open>The forest\<close>

definition tree_rep :: "cap_map \<Rightarrow> (slot_id \<Rightarrow> slot_id list) \<Rightarrow> slot_id set \<Rightarrow> bool" where
  "tree_rep h ch L \<longleftrightarrow>
     (\<forall>x. h x = None \<longrightarrow> ch x = []) \<and>
     (\<forall>x s. h x = Some s \<longrightarrow> dll h (deriv_first_child s) (ch x)) \<and>
     (\<forall>x y. y \<in> set (ch x) \<longrightarrow> y \<notin> L \<and> (\<exists>s. h y = Some s \<and> deriv_parent s = Some x)) \<and>
     (\<forall>y s x. h y = Some s \<longrightarrow> y \<notin> L \<longrightarrow> deriv_parent s = Some x \<longrightarrow> y \<in> set (ch x)) \<and>
     (\<forall>y s. h y = Some s \<longrightarrow> y \<notin> L \<longrightarrow> deriv_parent s = None \<longrightarrow>
        deriv_prev_sibling s = None \<and> deriv_next_sibling s = None) \<and>
     (\<exists>rank :: slot_id \<Rightarrow> nat. \<forall>x. \<forall>y \<in> set (ch x). rank x < rank y)"

lemma tree_repI:
  assumes "\<And>x. h x = None \<Longrightarrow> ch x = []"
    and "\<And>x s. h x = Some s \<Longrightarrow> dll h (deriv_first_child s) (ch x)"
    and "\<And>x y. y \<in> set (ch x) \<Longrightarrow> y \<notin> L \<and> (\<exists>s. h y = Some s \<and> deriv_parent s = Some x)"
    and "\<And>y s x. h y = Some s \<Longrightarrow> y \<notin> L \<Longrightarrow> deriv_parent s = Some x \<Longrightarrow> y \<in> set (ch x)"
    and "\<And>y s. h y = Some s \<Longrightarrow> y \<notin> L \<Longrightarrow> deriv_parent s = None \<Longrightarrow>
        deriv_prev_sibling s = None \<and> deriv_next_sibling s = None"
    and "\<And>x y. y \<in> set (ch x) \<Longrightarrow> (rank :: slot_id \<Rightarrow> nat) x < rank y"
  shows "tree_rep h ch L"
  unfolding tree_rep_def using assms by blast

lemma tree_repD:
  assumes "tree_rep h ch L"
  shows tree_dead: "h x = None \<Longrightarrow> ch x = []"
    and tree_dll: "h x = Some s \<Longrightarrow> dll h (deriv_first_child s) (ch x)"
    and tree_child: "y \<in> set (ch x) \<Longrightarrow> y \<notin> L \<and> (\<exists>s. h y = Some s \<and> deriv_parent s = Some x)"
    and tree_parent: "h y = Some s \<Longrightarrow> y \<notin> L \<Longrightarrow> deriv_parent s = Some x \<Longrightarrow> y \<in> set (ch x)"
    and tree_root: "h y = Some s \<Longrightarrow> y \<notin> L \<Longrightarrow> deriv_parent s = None \<Longrightarrow>
        deriv_prev_sibling s = None \<and> deriv_next_sibling s = None"
    and tree_rank: "\<exists>rank :: slot_id \<Rightarrow> nat. \<forall>x. \<forall>y \<in> set (ch x). rank x < rank y"
  using assms unfolding tree_rep_def by blast+

lemma tree_child_unique:
  "tree_rep h ch L \<Longrightarrow> y \<in> set (ch x) \<Longrightarrow> y \<in> set (ch x') \<Longrightarrow> x = x'"
  by (metis tree_child option.inject)

lemma tree_live: "tree_rep h ch L \<Longrightarrow> y \<in> set (ch x) \<Longrightarrow> h x \<noteq> None \<and> h y \<noteq> None"
  using tree_child [of h ch L y x] tree_dead [of h ch L x] by (cases "h x") auto

lemma tree_irrefl: "tree_rep h ch L \<Longrightarrow> x \<notin> set (ch x)"
  using tree_rank [of h ch L] by fastforce

lemma tree_distinct: "tree_rep h ch L \<Longrightarrow> distinct (ch x)"
  using tree_dll [of h ch L x] tree_dead [of h ch L x] by (cases "h x") (auto dest: dll_distinct)

lemma tree_weaken:
  assumes "tree_rep h ch L" "h c = Some s" "c \<notin> L" "deriv_parent s = None"
  shows "tree_rep h ch (insert c L)"
proof -
  note t = assms(1)
  obtain rank :: "slot_id \<Rightarrow> nat" where rank: "\<forall>x. \<forall>y \<in> set (ch x). rank x < rank y"
    using tree_rank [OF t] by blast
  have nc: "y \<noteq> c" if "y \<in> set (ch x)" for x y
    using tree_child [OF t that] assms(2,4) by auto
  show ?thesis
  proof (rule tree_repI [where rank = rank])
    fix x y assume y: "y \<in> set (ch x)"
    then show "y \<notin> insert c L \<and> (\<exists>s. h y = Some s \<and> deriv_parent s = Some x)"
      using tree_child [OF t y] nc by blast
    show "rank x < rank y" using rank y by blast
  qed (use t in \<open>auto dest: tree_dead tree_dll tree_parent tree_root\<close>)
qed

section \<open>Linking a detached node under a parent\<close>

lemma tree_first:
  assumes "tree_rep h ch L" "h p = Some sp"
  shows "deriv_first_child sp = (case ch p of [] \<Rightarrow> None | x # _ \<Rightarrow> Some x)"
  by (rule dll_first [OF tree_dll [OF assms]])

lemma link_map_at:
  assumes "h p = Some sp" "h c = Some sc" "p \<noteq> c"
    and "\<forall>x. deriv_first_child sp = Some x \<longrightarrow> h x \<noteq> None \<and> x \<noteq> p \<and> x \<noteq> c"
  shows "link_map p c h x =
    (if x = c then Some (sc\<lparr>deriv_parent := Some p, deriv_prev_sibling := None,
        deriv_next_sibling := deriv_first_child sp\<rparr>)
     else if x = p then Some (sp\<lparr>deriv_first_child := Some c\<rparr>)
     else if deriv_first_child sp = Some x
     then map_option (\<lambda>s. s\<lparr>deriv_prev_sibling := Some c\<rparr>) (h x) else h x)"
  using assms by (auto simp: link_map_def Let_def split: option.splits)

lemma link_map_tree:
  assumes t: "tree_rep h ch L" and c: "c \<in> L" "h c = Some sc" and p: "h p = Some sp" "p \<noteq> c"
    and rank: "\<forall>x. \<forall>y \<in> set (ch x). (rank :: slot_id \<Rightarrow> nat) x < rank y" "rank p < rank c"
  shows "tree_rep (link_map p c h) (ch(p := c # ch p)) (L - {c})"
proof -
  let ?h = "link_map p c h" and ?ch = "ch(p := c # ch p)"
  note first = tree_first [OF t p(1)]
  have c_out: "c \<notin> set (ch x)" for x using tree_child [OF t] c(1) by blast
  have old: "h x \<noteq> None \<and> x \<noteq> p \<and> x \<noteq> c" if "deriv_first_child sp = Some x" for x
  proof -
    have "x \<in> set (ch p)" using that first by (auto split: list.splits)
    then show ?thesis using tree_live [OF t] tree_irrefl [OF t, of p] c_out by auto
  qed
  then have "\<forall>x. deriv_first_child sp = Some x \<longrightarrow> h x \<noteq> None \<and> x \<noteq> p \<and> x \<noteq> c" by blast
  note at = link_map_at [OF p(1) c(2) p(2) this]
  have sibs: "same_sibs h ?h y" if "y \<noteq> c" "deriv_first_child sp \<noteq> Some y" for y
    using that p(1) by (simp add: same_sibs_def at)
  show ?thesis
  proof (rule tree_repI [where rank = rank])
    fix x assume "?h x = None"
    then show "?ch x = []"
      using tree_dead [OF t, of x] p c old by (auto simp: at split: if_splits)
  next
    fix x s assume s: "?h x = Some s"
    show "dll ?h (deriv_first_child s) (?ch x)"
    proof (cases "x = p")
      case False
      have d: "dll h (deriv_first_child s) (ch x)"
        using s False tree_dll [OF t, of x] c(2) by (auto simp: at split: if_splits)
      have "same_sibs h ?h y" if "y \<in> set (ch x)" for y
      proof (rule sibs)
        show "y \<noteq> c" using that c_out by blast
        show "deriv_first_child sp \<noteq> Some y"
          using that first tree_child_unique [OF t that, of p] False by (auto split: list.splits)
      qed
      from dll_frame [OF this d] show ?thesis using False by simp
    next
      case True
      obtain l where l: "dseg h None (deriv_first_child sp) (ch p) l None"
        using tree_dll [OF t p(1)] by (auto simp: dll_def)
      have "\<exists>l'. dseg ?h (Some c) (deriv_first_child sp) (ch p) l' None"
      proof (rule dseg_reprev [OF l tree_distinct [OF t]])
        show "same_sibs h ?h y" if "y \<in> set (ch p)" "deriv_first_child sp \<noteq> Some y" for y
          using that c_out by (intro sibs) auto
        show "\<exists>s'. ?h y = Some s' \<and> deriv_prev_sibling s' = Some c \<and>
            deriv_next_sibling s' = deriv_next_sibling s"
          if "deriv_first_child sp = Some y" "h y = Some s" for y s
          using that old [OF that(1)] at [of y] by simp
      qed
      then have "dll ?h (Some c) (c # ch p)"
        by (auto simp: dll_def at)
      then show ?thesis using s True p by (auto simp: at)
    qed
  next
    fix x y assume y: "y \<in> set (?ch x)"
    show "y \<notin> L - {c} \<and> (\<exists>s. ?h y = Some s \<and> deriv_parent s = Some x)"
    proof (cases "y = c")
      case True
      then have "x = p" using y c_out by (auto split: if_splits)
      then show ?thesis using True by (simp add: at)
    next
      case False
      then have y': "y \<in> set (ch x)" using y by (auto split: if_splits)
      from tree_child [OF t this] show ?thesis using False p(1) by (auto simp: at)
    qed
    show "rank x < rank y" using y rank by (auto split: if_splits)
  next
    fix y s x assume y: "?h y = Some s" "y \<notin> L - {c}" "deriv_parent s = Some x"
    show "y \<in> set (?ch x)"
    proof (cases "y = c")
      case True
      then show ?thesis using y by (auto simp: at)
    next
      case False
      then have "\<exists>s0. h y = Some s0 \<and> deriv_parent s0 = Some x"
        using y(1,3) p(1) by (auto simp: at split: if_splits)
      then show ?thesis using tree_parent [OF t] y(2) False by auto
    qed
  next
    fix y s assume y: "?h y = Some s" "y \<notin> L - {c}" "deriv_parent s = None"
    then have "y \<noteq> c" by (auto simp: at)
    moreover have "deriv_first_child sp \<noteq> Some y"
    proof
      assume o: "deriv_first_child sp = Some y"
      then have "y \<in> set (ch p)" using first by (auto split: list.splits)
      from tree_child [OF t this] show False
        using y(1,3) o \<open>y \<noteq> c\<close> p(1) by (auto simp: at split: if_splits)
    qed
    ultimately show "deriv_prev_sibling s = None \<and> deriv_next_sibling s = None"
      using y tree_root [OF t, of y] p(1) by (auto simp: at split: if_splits)
  qed
qed

lemma link_child_tree:
  assumes ok: "st_ok st" and t: "tree_rep (gcaps st) ch L" and c: "c \<in> L" "gcaps st c = Some sc"
    and p: "gcaps st p = Some sp" "p \<noteq> c"
    and rank: "\<forall>x. \<forall>y \<in> set (ch x). (rank :: slot_id \<Rightarrow> nat) x < rank y" "rank p < rank c"
  shows "\<exists>st'. link_child p c st = ret st' \<and> st_ok st' \<and> same_spaces st st' \<and>
    gcaps st' = link_map p c (gcaps st) \<and> tree_rep (gcaps st') (ch(p := c # ch p)) (L - {c})"
proof -
  have "gcaps st x \<noteq> None \<and> x \<noteq> p \<and> x \<noteq> c" if "deriv_first_child sp = Some x" for x
  proof -
    have "x \<in> set (ch p)" using that tree_first [OF t p(1)] by (auto split: list.splits)
    then show ?thesis using tree_live [OF t] tree_irrefl [OF t, of p] tree_child [OF t] c(1) by blast
  qed
  from link_child_caps [OF ok p(1) c(2) p(2) this] link_map_tree [OF t c p rank]
  show ?thesis by auto
qed

section \<open>Unlinking a node\<close>

lemma unlink_map_at:
  assumes n: "h n = Some s" and rd: "unlink_ready h n"
  shows "unlink_map n h x =
    (if x = n then Some (s\<lparr>deriv_parent := None, deriv_prev_sibling := None, deriv_next_sibling := None\<rparr>)
     else if deriv_prev_sibling s = Some x
     then map_option (\<lambda>t. t\<lparr>deriv_next_sibling := deriv_next_sibling s\<rparr>) (h x)
     else if deriv_next_sibling s = Some x
     then map_option (\<lambda>t. t\<lparr>deriv_prev_sibling := deriv_prev_sibling s\<rparr>) (h x)
     else if deriv_prev_sibling s = None \<and> deriv_parent s = Some x
     then map_option (\<lambda>t. t\<lparr>deriv_first_child := deriv_next_sibling s\<rparr>) (h x)
     else h x)"
  using assms by (auto simp: unlink_map_def unlink_ready_def Let_def split: option.splits)

text \<open>The links of a child in the middle of its sibling list.\<close>

lemma tree_split:
  assumes t: "tree_rep h ch L" and n: "h n = Some s" "n \<notin> L" "deriv_parent s = Some p"
  obtains us vs sp l where "ch p = us @ n # vs" "n \<notin> set us" "n \<notin> set vs" "h p = Some sp"
    "dseg h None (deriv_first_child sp) us (deriv_prev_sibling s) (Some n)"
    "dseg h (Some n) (deriv_next_sibling s) vs l None"
    "deriv_prev_sibling s = (if us = [] then None else Some (last us))"
    "deriv_next_sibling s = (case vs of [] \<Rightarrow> None | v # _ \<Rightarrow> Some v)"
proof -
  have n_in: "n \<in> set (ch p)" by (rule tree_parent [OF t n])
  then obtain us vs where ch: "ch p = us @ n # vs" by (auto dest: split_list)
  obtain sp where sp: "h p = Some sp" using tree_live [OF t n_in] by auto
  obtain l where "dseg h None (deriv_first_child sp) (us @ n # vs) l None"
    using tree_dll [OF t sp] ch by (auto simp: dll_def)
  then have d: "dseg h None (deriv_first_child sp) us (deriv_prev_sibling s) (Some n)"
      "dseg h (Some n) (deriv_next_sibling s) vs l None"
    using n(1) by (auto simp: dseg_append)
  have "deriv_next_sibling s = (case vs of [] \<Rightarrow> None | v # _ \<Rightarrow> Some v)"
    using d(2) by (cases vs) auto
  then show ?thesis
    using that [OF ch _ _ sp d] dseg_last [OF d(1)] tree_distinct [OF t, of p] ch by auto
qed

lemma tree_unlink_ready:
  assumes t: "tree_rep h ch {}" and n: "h n = Some s"
  shows "unlink_ready h n"
proof (cases "deriv_parent s")
  case None
  then show ?thesis using tree_root [OF t n] n by (simp add: unlink_ready_def)
next
  case (Some p)
  obtain us vs where u: "ch p = us @ n # vs" "n \<notin> set us" "n \<notin> set vs"
      "deriv_prev_sibling s = (if us = [] then None else Some (last us))"
      "deriv_next_sibling s = (case vs of [] \<Rightarrow> None | v # _ \<Rightarrow> Some v)"
    by (rule tree_split [OF t n _ Some], simp) (rule that)
  have m: "x \<in> set (ch p) \<Longrightarrow> h x \<noteq> None \<and> x \<noteq> p" for x
    using tree_live [OF t] tree_irrefl [OF t, of p] by blast
  have "distinct (us @ n # vs)" using tree_distinct [OF t, of p] u(1) by simp
  then have "set us \<inter> set vs = {}" by simp
  then have "us \<noteq> [] \<Longrightarrow> last us \<notin> set vs" by (meson disjoint_iff last_in_set)
  moreover have "h p \<noteq> None" "p \<noteq> n" using tree_live [OF t, of n p] m u(1) by auto
  ultimately show ?thesis
    using n Some u m unfolding unlink_ready_def
    by (auto split: list.splits if_splits)
qed

lemma tree_same_links:
  assumes t: "tree_rep h ch L" and "\<And>x. map_option (\<lambda>s. (deriv_parent s, deriv_first_child s,
      deriv_prev_sibling s, deriv_next_sibling s)) (h' x) = map_option (\<lambda>s. (deriv_parent s,
      deriv_first_child s, deriv_prev_sibling s, deriv_next_sibling s)) (h x)"
  shows "tree_rep h' ch L"
proof -
  obtain rank :: "slot_id \<Rightarrow> nat" where rank: "\<forall>x. \<forall>y \<in> set (ch x). rank x < rank y"
    using tree_rank [OF t] by blast
  have sibs: "same_sibs h h' x" for x
    using assms(2) [of x] by (cases "h x"; cases "h' x") (auto simp: same_sibs_def)
  have orig: "\<exists>s. h x = Some s \<and> deriv_parent s = deriv_parent s' \<and>
      deriv_first_child s = deriv_first_child s' \<and> deriv_prev_sibling s = deriv_prev_sibling s' \<and>
      deriv_next_sibling s = deriv_next_sibling s'" if "h' x = Some s'" for x s'
    using assms(2) [of x] that by (cases "h x") auto
  show ?thesis
  proof (rule tree_repI [where rank = rank])
    show "ch x = []" if "h' x = None" for x
      using that assms(2) [of x] tree_dead [OF t] by auto
    show "dll h' (deriv_first_child s') (ch x)" if s': "h' x = Some s'" for x s'
    proof -
      obtain s where "h x = Some s" "deriv_first_child s = deriv_first_child s'"
        using orig [OF s'] by auto
      then show ?thesis using dll_frame [OF sibs tree_dll [OF t]] by metis
    qed
    show "y \<notin> L \<and> (\<exists>s. h' y = Some s \<and> deriv_parent s = Some x)" if "y \<in> set (ch x)" for x y
      using tree_child [OF t that] assms(2) [of y] by auto
    show "y \<in> set (ch x)" if "h' y = Some s" "y \<notin> L" "deriv_parent s = Some x" for x y s
      using orig [OF that(1)] that tree_parent [OF t] by auto
    show "deriv_prev_sibling s = None \<and> deriv_next_sibling s = None"
      if "h' y = Some s" "y \<notin> L" "deriv_parent s = None" for y s
      using orig [OF that(1)] that tree_root [OF t] by auto
    show "rank x < rank y" if "y \<in> set (ch x)" for x y using rank that by blast
  qed
qed

text \<open>The facts about a linked node \<open>n\<close> with parent \<open>p\<close> that the unlinking lemmas share.\<close>

lemma unlink_nbr:
  assumes t: "tree_rep h ch {}" and n: "h n = Some s" "deriv_parent s = Some p"
  shows "deriv_prev_sibling s = Some x \<Longrightarrow> x \<in> set (ch p)"
    and "deriv_next_sibling s = Some x \<Longrightarrow> x \<in> set (ch p)"
    and "n \<in> set (ch p)" "p \<noteq> n" "p \<notin> set (ch p)"
proof -
  obtain us vs where "ch p = us @ n # vs"
      "deriv_prev_sibling s = (if us = [] then None else Some (last us))"
      "deriv_next_sibling s = (case vs of [] \<Rightarrow> None | v # _ \<Rightarrow> Some v)"
    by (rule tree_split [OF t n(1) _ n(2)], simp) (rule that)
  then show "deriv_prev_sibling s = Some x \<Longrightarrow> x \<in> set (ch p)"
    "deriv_next_sibling s = Some x \<Longrightarrow> x \<in> set (ch p)" "n \<in> set (ch p)"
    by (auto split: if_splits list.splits)
  then show "p \<noteq> n" "p \<notin> set (ch p)" using tree_irrefl [OF t, of p] by auto
qed

lemma unlink_sibs:
  assumes "h n = Some s" "unlink_ready h n"
    and "y \<noteq> n" "deriv_prev_sibling s \<noteq> Some y" "deriv_next_sibling s \<noteq> Some y"
  shows "same_sibs h (unlink_map n h) y"
  using assms(3-) by (auto simp: same_sibs_def unlink_map_at [OF assms(1,2)] option.map_comp comp_def)

lemma unlink_dll:
  assumes t: "tree_rep h ch {}" and n: "h n = Some s" "deriv_parent s = Some p"
    and sp': "unlink_map n h p = Some sp'"
  shows "dll (unlink_map n h) (deriv_first_child sp') (removeAll n (ch p))"
proof -
  let ?h = "unlink_map n h"
  obtain us vs sp l where u: "ch p = us @ n # vs" "n \<notin> set us" "n \<notin> set vs" "h p = Some sp"
      "dseg h None (deriv_first_child sp) us (deriv_prev_sibling s) (Some n)"
      "dseg h (Some n) (deriv_next_sibling s) vs l None"
      "deriv_prev_sibling s = (if us = [] then None else Some (last us))"
      "deriv_next_sibling s = (case vs of [] \<Rightarrow> None | v # _ \<Rightarrow> Some v)"
    by (rule tree_split [OF t n(1) _ n(2)], simp) (rule that)
  note rd = tree_unlink_ready [OF t n(1)]
  note at = unlink_map_at [OF n(1) rd] and sibs = unlink_sibs [OF n(1) rd]
  have dist: "distinct (us @ n # vs)" using tree_distinct [OF t, of p] u(1) by simp
  have prev_out: "deriv_prev_sibling s = Some y \<Longrightarrow> y \<in> set us" for y
    using u(7) by (auto split: if_splits)
  have next_out: "deriv_next_sibling s = Some y \<Longrightarrow> y \<in> set vs" for y
    using u(8) by (auto split: list.splits)
  have vs': "\<exists>l'. dseg ?h (deriv_prev_sibling s) (deriv_next_sibling s) vs l' None"
  proof (rule dseg_reprev [OF u(6)])
    show "distinct vs" using dist by simp
    show "same_sibs h ?h y" if "y \<in> set vs" "deriv_next_sibling s \<noteq> Some y" for y
      using that prev_out [of y] dist by (intro sibs) auto
    show "\<exists>s'. ?h y = Some s' \<and> deriv_prev_sibling s' = deriv_prev_sibling s \<and>
        deriv_next_sibling s' = deriv_next_sibling sy"
      if "deriv_next_sibling s = Some y" "y \<in> set vs" "h y = Some sy" for y sy
      using that prev_out [of y] dist by (auto simp: at)
  qed
  have "dll ?h (if us = [] then deriv_next_sibling s else deriv_first_child sp) (us @ vs)"
  proof (cases us rule: rev_cases)
    case Nil
    then show ?thesis using vs' u(7) by (simp add: dll_def)
  next
    case (snoc us' x)
    have "dseg ?h None (deriv_first_child sp) (us' @ [x]) (Some x) (deriv_next_sibling s)"
    proof (rule dseg_renext)
      show "dseg h None (deriv_first_child sp) (us' @ [x]) (deriv_prev_sibling s) (Some n)"
        using u(5) snoc by simp
      show "same_sibs h ?h y" if "y \<in> set us'" for y
        using that dist snoc u(7) next_out [of y] by (intro sibs) auto
      show "\<exists>s'. ?h x = Some s' \<and> deriv_prev_sibling s' = deriv_prev_sibling sx \<and>
          deriv_next_sibling s' = deriv_next_sibling s" if "h x = Some sx" for sx
        using that dist snoc u(7) by (auto simp: at)
    qed
    then show ?thesis using vs' u(7) snoc by (fastforce simp: dll_def dseg_append)
  qed
  moreover have "deriv_first_child sp' = (if us = [] then deriv_next_sibling s else deriv_first_child sp)"
    using sp' u(4,7) unlink_nbr [OF t n] n(2) by (auto simp: at split: if_splits)
  moreover have "removeAll n (ch p) = us @ vs" using u(1-3) by (simp add: removeAll_id)
  ultimately show ?thesis by simp
qed

lemma unlink_map_tree:
  assumes t: "tree_rep h ch {}" and n: "h n = Some s"
  shows "tree_rep (unlink_map n h) (\<lambda>x. removeAll n (ch x)) {}"
proof (cases "deriv_parent s")
  case None
  then have root: "deriv_prev_sibling s = None" "deriv_next_sibling s = None"
    using tree_root [OF t n] by auto
  have "n \<notin> set (ch x)" for x using tree_child [OF t, of n x] n None by auto
  then have "(\<lambda>x. removeAll n (ch x)) = ch" by (simp add: fun_eq_iff removeAll_id)
  moreover have "tree_rep (unlink_map n h) ch {}"
    using n None root unlink_map_at [OF n tree_unlink_ready [OF t n]]
    by (intro tree_same_links [OF t]) auto
  ultimately show ?thesis by simp
next
  case (Some p)
  let ?h = "unlink_map n h" and ?ch = "\<lambda>x. removeAll n (ch x)"
  note rd = tree_unlink_ready [OF t n]
  note at = unlink_map_at [OF n rd] and nbr = unlink_nbr [OF t n Some]
  obtain rank :: "slot_id \<Rightarrow> nat" where rank: "\<forall>x. \<forall>y \<in> set (ch x). rank x < rank y"
    using tree_rank [OF t] by blast
  have par: "map_option deriv_parent (?h y) = (if y = n then Some None else map_option deriv_parent (h y))" for y
    by (simp add: at option.map_comp comp_def)
  show ?thesis
  proof (rule tree_repI [where rank = rank])
    show "?ch x = []" if "?h x = None" for x
      using that tree_dead [OF t, of x] par [of x] n by (auto split: if_splits)
    show "dll ?h (deriv_first_child sx) (?ch x)" if sx: "?h x = Some sx" for x sx
    proof (cases "x = p")
      case True
      then show ?thesis using unlink_dll [OF t n Some] sx by simp
    next
      case False
      then have "n \<notin> set (ch x)" using tree_child_unique [OF t, of n x p] nbr(3) by auto
      moreover have "same_sibs h ?h y" if "y \<in> set (ch x)" for y
        using that calculation tree_child_unique [OF t, of y x p] False nbr(1,2) [of y]
        by (intro unlink_sibs [OF n rd]) auto
      moreover have "\<exists>s0. h x = Some s0 \<and> deriv_first_child s0 = deriv_first_child sx"
        using sx False n Some by (auto simp: at split: if_splits)
      ultimately obtain s0 where s0: "h x = Some s0" "deriv_first_child s0 = deriv_first_child sx"
          "removeAll n (ch x) = ch x" "\<And>y. y \<in> set (ch x) \<Longrightarrow> same_sibs h ?h y"
        by (auto simp: removeAll_id)
      show ?thesis using dll_frame [OF s0(4) tree_dll [OF t s0(1)]] s0(2,3) by simp
    qed
    fix x y assume y: "y \<in> set (?ch x)"
    then show "y \<notin> {} \<and> (\<exists>s. ?h y = Some s \<and> deriv_parent s = Some x)"
      using tree_child [OF t, of y x] par [of y] by auto
    show "rank x < rank y" using y rank by auto
  next
    show "y \<in> set (?ch x)" if "?h y = Some sy" "deriv_parent sy = Some x" for x y sy
      using that par [of y] tree_parent [OF t, of y _ x] by (cases "h y") (auto split: if_splits)
    show "deriv_prev_sibling sy = None \<and> deriv_next_sibling sy = None"
      if sy: "?h y = Some sy" "deriv_parent sy = None" for y sy
    proof (cases "y = n")
      case True
      then show ?thesis using sy by (auto simp: at)
    next
      case False
      then obtain s0 where s0: "h y = Some s0" "deriv_parent s0 = None"
        using sy par [of y] by (cases "h y") auto
      then have "y \<notin> set (ch p)" using tree_child [OF t, of y p] by auto
      then have "same_sibs h ?h y" using False nbr(1,2) [of y] by (intro unlink_sibs [OF n rd]) auto
      then show ?thesis using tree_root [OF t s0(1)] s0 sy(1) by (simp add: same_sibs_def)
    qed
  qed
qed

lemma unlink_node_tree:
  assumes "st_ok st" "tree_rep (gcaps st) ch {}" "gcaps st n = Some s"
  shows "\<exists>st'. unlink_node n st = ret st' \<and> st_ok st' \<and> same_spaces st st' \<and>
    gcaps st' = unlink_map n (gcaps st) \<and> tree_rep (gcaps st') (\<lambda>x. removeAll n (ch x)) {}"
  using unlink_node_caps [OF assms(1) tree_unlink_ready [OF assms(2,3)]]
    unlink_map_tree [OF assms(2,3)] by auto

section \<open>Reparenting\<close>

text \<open>Clearing a node's first child detaches its children.\<close>

lemma tree_detach:
  assumes t: "tree_rep h ch {}" and n: "h n = Some s"
  shows "tree_rep (h(n \<mapsto> s\<lparr>deriv_first_child := None\<rparr>)) (ch(n := [])) (set (ch n))"
proof -
  let ?h = "h(n \<mapsto> s\<lparr>deriv_first_child := None\<rparr>)"
  obtain rank :: "slot_id \<Rightarrow> nat" where rank: "\<forall>x. \<forall>y \<in> set (ch x). rank x < rank y"
    using tree_rank [OF t] by blast
  have sibs: "same_sibs h ?h y" for y using n by (simp add: same_sibs_def)
  show ?thesis
  proof (rule tree_repI [where rank = rank])
    show "(ch(n := [])) x = []" if "?h x = None" for x
      using that tree_dead [OF t, of x] by (auto split: if_splits)
    show "dll ?h (deriv_first_child sx) ((ch(n := [])) x)" if "?h x = Some sx" for x sx
      using that dll_frame [OF sibs tree_dll [OF t, of x sx]] by (auto split: if_splits)
    fix x y assume y: "y \<in> set ((ch(n := [])) x)"
    then have "y \<in> set (ch x)" "x \<noteq> n" by (auto split: if_splits)
    then show "y \<notin> set (ch n) \<and> (\<exists>s. ?h y = Some s \<and> deriv_parent s = Some x)"
      using tree_child [OF t, of y x] tree_child_unique [OF t, of y x n] n by auto
    show "rank x < rank y" using rank \<open>y \<in> set (ch x)\<close> by blast
  next
    fix y sy x assume "?h y = Some sy" "y \<notin> set (ch n)" "deriv_parent sy = Some x"
    moreover from this obtain s0 where "h y = Some s0" "deriv_parent s0 = Some x"
      using n by (auto split: if_splits)
    ultimately show "y \<in> set ((ch(n := [])) x)"
      using tree_parent [OF t, of y s0 x] by (auto split: if_splits)
  next
    fix y sy assume "?h y = Some sy" "y \<notin> set (ch n)" "deriv_parent sy = None"
    then show "deriv_prev_sibling sy = None \<and> deriv_next_sibling sy = None"
      using n tree_root [OF t, of y] by (auto split: if_splits)
  qed
qed

text \<open>A detached node may change its own parent and sibling links freely.\<close>

lemma tree_loose:
  assumes t: "tree_rep h ch L" and c: "c \<in> L" "h c = Some s"
    and "deriv_first_child s' = deriv_first_child s"
  shows "tree_rep (h(c \<mapsto> s')) ch L"
proof -
  obtain rank :: "slot_id \<Rightarrow> nat" where rank: "\<forall>x. \<forall>y \<in> set (ch x). rank x < rank y"
    using tree_rank [OF t] by blast
  have c_out: "c \<notin> set (ch x)" for x using tree_child [OF t] c(1) by blast
  then have sibs: "same_sibs h (h(c \<mapsto> s')) y" if "y \<in> set (ch x)" for x y
    using that by (auto simp: same_sibs_def)
  show ?thesis
  proof (rule tree_repI [where rank = rank])
    show "dll (h(c \<mapsto> s')) (deriv_first_child sx) (ch x)" if "(h(c \<mapsto> s')) x = Some sx" for x sx
    proof -
      obtain s0 where "h x = Some s0" "deriv_first_child s0 = deriv_first_child sx"
        using \<open>(h(c \<mapsto> s')) x = Some sx\<close> c(2) assms(4) by (auto split: if_splits)
      then show ?thesis using dll_frame [of "ch x" h "h(c \<mapsto> s')"] sibs tree_dll [OF t, of x s0] by auto
    qed
    show "y \<notin> L \<and> (\<exists>s. (h(c \<mapsto> s')) y = Some s \<and> deriv_parent s = Some x)"
      if "y \<in> set (ch x)" for x y
      using tree_child [OF t that] c(1) by auto
    show "rank x < rank y" if "y \<in> set (ch x)" for x y using rank that by blast
    show "y \<in> set (ch x)" if "(h(c \<mapsto> s')) y = Some sy" "y \<notin> L" "deriv_parent sy = Some x" for x y sy
      using that c(1) tree_parent [OF t] by (auto split: if_splits)
    show "deriv_prev_sibling sy = None \<and> deriv_next_sibling sy = None"
      if "(h(c \<mapsto> s')) y = Some sy" "y \<notin> L" "deriv_parent sy = None" for y sy
      using that c(1) tree_root [OF t] by (auto split: if_splits)
    show "ch x = []" if "(h(c \<mapsto> s')) x = None" for x
      using that tree_dead [OF t] by (auto split: if_splits)
  qed
qed

text \<open>Once its links are cleared, a detached node is a root.\<close>

lemma tree_attach_root:
  assumes t: "tree_rep h ch L" and c: "c \<in> L" "h c = Some s"
    and "deriv_parent s = None" "deriv_prev_sibling s = None" "deriv_next_sibling s = None"
  shows "tree_rep h ch (L - {c})"
proof -
  obtain rank :: "slot_id \<Rightarrow> nat" where rank: "\<forall>x. \<forall>y \<in> set (ch x). rank x < rank y"
    using tree_rank [OF t] by blast
  show ?thesis
  proof (rule tree_repI [where rank = rank])
    show "y \<notin> L - {c} \<and> (\<exists>s. h y = Some s \<and> deriv_parent s = Some x)" if "y \<in> set (ch x)" for x y
      using tree_child [OF t that] by blast
    show "rank x < rank y" if "y \<in> set (ch x)" for x y using rank that by blast
    show "y \<in> set (ch x)" if "h y = Some sy" "y \<notin> L - {c}" "deriv_parent sy = Some x" for x y sy
      using that assms(2-4) tree_parent [OF t, of y sy x] by (cases "y = c") auto
    show "deriv_prev_sibling sy = None \<and> deriv_next_sibling sy = None"
      if "h y = Some sy" "y \<notin> L - {c}" "deriv_parent sy = None" for y sy
      using that assms(2-) tree_root [OF t, of y sy] by (cases "y = c") auto
  qed (use t in \<open>auto dest: tree_dead tree_dll\<close>)
qed

text \<open>What a tree operation never changes: which slots are live, and their tag, rights, token and
  object.\<close>

definition payload :: "capability_slot \<Rightarrow> cap_tag \<times> rights \<times> u64 \<times> ptr option" where
  "payload s = (tag s, rights s, token s, object s)"

definition same_payload :: "cap_map \<Rightarrow> cap_map \<Rightarrow> bool" where
  "same_payload h h' \<longleftrightarrow> (\<forall>x. map_option payload (h' x) = map_option payload (h x))"

lemma same_payload_refl [simp]: "same_payload h h"
  by (simp add: same_payload_def)

lemma same_payload_trans: "same_payload a b \<Longrightarrow> same_payload b c \<Longrightarrow> same_payload a c"
  by (simp add: same_payload_def)

lemma same_payload_upd: "h x = Some s \<Longrightarrow> payload s' = payload s \<Longrightarrow> same_payload h (h(x \<mapsto> s'))"
  by (simp add: same_payload_def)

lemma payload_links [simp]:
  "payload (s\<lparr>deriv_parent := a\<rparr>) = payload s" "payload (s\<lparr>deriv_first_child := a\<rparr>) = payload s"
  "payload (s\<lparr>deriv_next_sibling := a\<rparr>) = payload s" "payload (s\<lparr>deriv_prev_sibling := a\<rparr>) = payload s"
  by (simp_all add: payload_def)

lemma same_payload_live: "same_payload h h' \<Longrightarrow> h' x = None \<longleftrightarrow> h x = None"
  unfolding same_payload_def by (metis option.map_disc_iff)

lemma link_map_frame:
  assumes t: "tree_rep h ch L" and c: "c \<in> L" "h c = Some sc" and p: "h p = Some sp" "p \<noteq> c"
  shows "same_payload h (link_map p c h)"
    and "x \<noteq> c \<Longrightarrow> next_of (link_map p c h) x = next_of h x"
proof -
  have "\<forall>x. deriv_first_child sp = Some x \<longrightarrow> h x \<noteq> None \<and> x \<noteq> p \<and> x \<noteq> c"
  proof (intro allI impI)
    fix x assume "deriv_first_child sp = Some x"
    then have "x \<in> set (ch p)" using tree_first [OF t p(1)] by (auto split: list.splits)
    then show "h x \<noteq> None \<and> x \<noteq> p \<and> x \<noteq> c"
      using tree_live [OF t] tree_irrefl [OF t, of p] tree_child [OF t] c(1) by blast
  qed
  note at = link_map_at [OF p(1) c(2) p(2) this]
  show "same_payload h (link_map p c h)"
    using c p by (auto simp: same_payload_def at option.map_comp comp_def)
  show "x \<noteq> c \<Longrightarrow> next_of (link_map p c h) x = next_of h x"
    using p by (cases "h x") (auto simp: next_of_def at)
qed

lemma unlink_map_frame:
  assumes "tree_rep h ch {}" "h n = Some s"
  shows "same_payload h (unlink_map n h)"
  using assms(2) unlink_map_at [OF assms(2) tree_unlink_ready [OF assms]]
  by (auto simp: same_payload_def option.map_comp comp_def)

text \<open>One iteration of the reparenting loop: the detached node \<open>y\<close> becomes the first child of the
  new parent, or a root.\<close>

definition reparent_one :: "slot_id option \<Rightarrow> slot_id \<Rightarrow> cap_state \<Rightarrow> cap_state run" where
  "reparent_one np y st = do {
     st \<leftarrow> modify_slot y (\<lambda>s. s\<lparr>deriv_parent := np\<rparr>) st;
     (case np of
        Some p \<Rightarrow> link_child p y st
      | None \<Rightarrow> modify_slot y (\<lambda>s. s\<lparr>deriv_parent := None, deriv_prev_sibling := None,
                                     deriv_next_sibling := None\<rparr>) st)
   }"

definition adopt :: "slot_id option \<Rightarrow> slot_id list \<Rightarrow> (slot_id \<Rightarrow> slot_id list) \<Rightarrow> slot_id \<Rightarrow> slot_id list"
where
  "adopt np ys ch = (case np of None \<Rightarrow> ch | Some p \<Rightarrow> ch(p := rev ys @ ch p))"

lemma adopt_simps [simp]: "adopt np [] ch = ch" "adopt np ys (adopt np [y] ch) = adopt np (y # ys) ch"
  by (auto simp: adopt_def split: option.splits)

lemma reparent_loop_Cons:
  "gcaps st y = Some sy \<Longrightarrow> reparent_loop np (Some y) st =
    Option.bind (reparent_one np y st) (reparent_loop np (next_of (gcaps st) y))"
  by (simp add: reparent_loop.simps [of np "Some y"] resolve_cap reparent_one_def next_of_def
      split: option.splits bind_splits)

lemma reparent_root:
  assumes ok: "st_ok st" and t: "tree_rep (gcaps st) ch L" and y: "y \<in> L" "gcaps st y = Some sy"
  shows "\<exists>st'. modify_slot y (\<lambda>s. s\<lparr>deriv_parent := None, deriv_prev_sibling := None,
      deriv_next_sibling := None\<rparr>) st = ret st' \<and> st_ok st' \<and> same_spaces st st' \<and>
    same_payload (gcaps st) (gcaps st') \<and> tree_rep (gcaps st') ch (L - {y}) \<and>
    (\<forall>x. x \<noteq> y \<longrightarrow> next_of (gcaps st') x = next_of (gcaps st) x)"
proof -
  let ?g = "\<lambda>s. s\<lparr>deriv_parent := None, deriv_prev_sibling := None, deriv_next_sibling := None\<rparr>"
  obtain st' where st': "modify_slot y ?g st = ret st'" "st_ok st'" "same_spaces st st'"
      "gcaps st' = (gcaps st)(y \<mapsto> ?g sy)"
    using modify_link [OF ok y(2), of ?g] by auto
  have "tree_rep (gcaps st') ch L"
    unfolding st'(4) by (rule tree_loose [OF t y]) simp
  then have "tree_rep (gcaps st') ch (L - {y})"
    using y(1) by (rule tree_attach_root) (auto simp: st'(4))
  moreover have "same_payload (gcaps st) (gcaps st')" using y(2) by (simp add: st'(4) same_payload_upd)
  ultimately show ?thesis using st' by (auto simp: next_of_def)
qed

lemma reparent_one_spec:
  assumes ok: "st_ok st" and t: "tree_rep (gcaps st) ch L" and y: "y \<in> L" "gcaps st y = Some sy"
    and rank: "\<forall>x. \<forall>y \<in> set (ch x). (rank :: slot_id \<Rightarrow> nat) x < rank y"
    and np: "\<forall>p. np = Some p \<longrightarrow> gcaps st p \<noteq> None \<and> rank p < rank y"
  shows "\<exists>st'. reparent_one np y st = ret st' \<and> st_ok st' \<and> same_spaces st st' \<and>
    same_payload (gcaps st) (gcaps st') \<and> tree_rep (gcaps st') (adopt np [y] ch) (L - {y}) \<and>
    (\<forall>x. x \<noteq> y \<longrightarrow> next_of (gcaps st') x = next_of (gcaps st) x)"
proof -
  let ?f = "\<lambda>s. s\<lparr>deriv_parent := np\<rparr>"
  obtain st1 where st1: "modify_slot y ?f st = ret st1" "st_ok st1" "same_spaces st st1"
      "gcaps st1 = (gcaps st)(y \<mapsto> ?f sy)"
    using modify_link [OF ok y(2), of ?f] by auto
  have t1: "tree_rep (gcaps st1) ch L" unfolding st1(4) by (rule tree_loose [OF t y]) simp
  have y1: "gcaps st1 y = Some (?f sy)" using st1(4) by simp
  have keep1: "same_payload (gcaps st) (gcaps st1)" using y by (simp add: st1(4) same_payload_upd)
  have nx1: "next_of (gcaps st1) x = next_of (gcaps st) x" for x using y by (simp add: next_of_def st1(4))
  note trans = same_spaces_trans [OF st1(3)] same_payload_trans [OF keep1]
  show ?thesis
  proof (cases np)
    case None
    then show ?thesis using reparent_root [OF st1(2) t1 y(1) y1] st1(1) trans nx1
      by (auto simp: reparent_one_def adopt_def)
  next
    case (Some p)
    obtain sp where sp: "gcaps st1 p = Some sp" and rk: "rank p < rank y" and py: "p \<noteq> y"
      using np Some st1(4) by (cases "p = y") auto
    from link_child_tree [OF st1(2) t1 y(1) y1 sp py rank rk] obtain st2 where
      st2: "link_child p y st1 = ret st2" "st_ok st2" "same_spaces st1 st2"
        "gcaps st2 = link_map p y (gcaps st1)" "tree_rep (gcaps st2) (ch(p := y # ch p)) (L - {y})"
      by auto
    then show ?thesis
      using link_map_frame [OF t1 y(1) y1 sp py] Some st1(1) trans nx1
      by (auto simp: reparent_one_def adopt_def)
  qed
qed

lemma reparent_loop_spec:
  assumes "st_ok st" "tree_rep (gcaps st) ch (set ys)" "llist (next_of (gcaps st)) cur ys"
    and "\<forall>y \<in> set ys. gcaps st y \<noteq> None"
    and "\<forall>x. \<forall>y \<in> set (ch x). (rank :: slot_id \<Rightarrow> nat) x < rank y"
    and "\<forall>p. np = Some p \<longrightarrow> gcaps st p \<noteq> None \<and> (\<forall>y \<in> set ys. rank p < rank y)"
  shows "\<exists>st'. reparent_loop np cur st = ret st' \<and> st_ok st' \<and> same_spaces st st' \<and>
    same_payload (gcaps st) (gcaps st') \<and> tree_rep (gcaps st') (adopt np ys ch) {}"
  using assms
proof (induction ys arbitrary: st cur ch)
  case Nil
  then show ?case by (auto simp: reparent_loop.simps)
next
  case (Cons y ys)
  have cur: "cur = Some y" and yl: "llist (next_of (gcaps st)) (next_of (gcaps st) y) ys"
    and y_out: "y \<notin> set ys"
    using Cons.prems(3) llist_distinct [OF Cons.prems(3)] by auto
  obtain sy where sy: "gcaps st y = Some sy" using Cons.prems(4) by auto
  have np: "\<forall>p. np = Some p \<longrightarrow> gcaps st p \<noteq> None \<and> rank p < rank y" using Cons.prems(6) by simp
  have "y \<in> set (y # ys)" "set (y # ys) - {y} = set ys" using y_out by auto
  with reparent_one_spec [OF Cons.prems(1,2) _ sy Cons.prems(5) np] obtain st2 where
    st2: "reparent_one np y st = ret st2" "st_ok st2" "same_spaces st st2"
      "same_payload (gcaps st) (gcaps st2)" "tree_rep (gcaps st2) (adopt np [y] ch) (set ys)"
      "\<forall>x. x \<noteq> y \<longrightarrow> next_of (gcaps st2) x = next_of (gcaps st) x"
    by auto
  have l2: "llist (next_of (gcaps st2)) (next_of (gcaps st) y) ys"
    using yl y_out st2(6) lseg_cong [of ys "next_of (gcaps st2)" "next_of (gcaps st)"] by metis
  note live = same_payload_live [OF st2(4)]
  have "\<forall>x. \<forall>y \<in> set (adopt np [y] ch x). rank x < rank y"
    using Cons.prems(5) np by (auto simp: adopt_def split: option.splits if_splits)
  with Cons.IH [OF st2(2,5) l2] Cons.prems(4,6) live obtain st' where
    st': "reparent_loop np (next_of (gcaps st) y) st2 = ret st'" "st_ok st'" "same_spaces st2 st'"
      "same_payload (gcaps st2) (gcaps st')" "tree_rep (gcaps st') (adopt np ys (adopt np [y] ch)) {}"
    by auto
  then show ?case
    using st2 cur reparent_loop_Cons [OF sy, of np] same_spaces_trans [OF st2(3)]
      same_payload_trans [OF st2(4)] by auto
qed

lemma reparent_children_tree:
  assumes ok: "st_ok st" and t: "tree_rep (gcaps st) ch {}" and n: "gcaps st n = Some s"
  shows "\<exists>st'. reparent_children n (deriv_parent s) st = ret st' \<and> st_ok st' \<and> same_spaces st st' \<and>
    same_payload (gcaps st) (gcaps st') \<and>
    tree_rep (gcaps st') (adopt (deriv_parent s) (ch n) (ch(n := []))) {}"
proof -
  let ?f = "\<lambda>s. s\<lparr>deriv_first_child := None\<rparr>"
  obtain st1 where st1: "modify_slot n ?f st = ret st1" "st_ok st1" "same_spaces st st1"
      "gcaps st1 = (gcaps st)(n \<mapsto> ?f s)"
    using modify_link [OF ok n, of ?f] by auto
  have t1: "tree_rep (gcaps st1) (ch(n := [])) (set (ch n))"
    unfolding st1(4) by (rule tree_detach [OF t n])
  have keep1: "same_payload (gcaps st) (gcaps st1)" using n by (simp add: st1(4) same_payload_upd)
  have nx: "next_of (gcaps st1) = next_of (gcaps st)" using n by (auto simp: next_of_def st1(4))
  obtain rank :: "slot_id \<Rightarrow> nat" where rank: "\<forall>x. \<forall>y \<in> set (ch x). rank x < rank y"
    using tree_rank [OF t] by blast
  have live: "\<forall>y \<in> set (ch n). gcaps st1 y \<noteq> None"
    using tree_live [OF t] same_payload_live [OF keep1] by blast
  have np: "\<forall>p. deriv_parent s = Some p \<longrightarrow> gcaps st1 p \<noteq> None \<and> (\<forall>y \<in> set (ch n). rank p < rank y)"
  proof (intro allI impI)
    fix p assume "deriv_parent s = Some p"
    then have p: "n \<in> set (ch p)" using tree_parent [OF t n] by simp
    then show "gcaps st1 p \<noteq> None \<and> (\<forall>y \<in> set (ch n). rank p < rank y)"
      using tree_live [OF t p] same_payload_live [OF keep1] rank by (meson order_less_trans)
  qed
  have rank1: "\<forall>x. \<forall>y \<in> set ((ch(n := [])) x). rank x < rank y" using rank by simp
  obtain st' where "reparent_loop (deriv_parent s) (deriv_first_child s) st1 = ret st'" "st_ok st'"
      "same_spaces st1 st'" "same_payload (gcaps st1) (gcaps st')"
      "tree_rep (gcaps st') (adopt (deriv_parent s) (ch n) (ch(n := []))) {}"
    using reparent_loop_spec [OF st1(2) t1 _ live rank1 np, of "deriv_first_child s"]
      dll_llist [OF tree_dll [OF t n]] unfolding nx by blast
  then show ?thesis
    using st1 resolve_cap [OF n] same_spaces_trans [OF st1(3)] same_payload_trans [OF keep1]
    by (auto simp: reparent_children_def)
qed

section \<open>Revocation\<close>

definition edges :: "(slot_id \<Rightarrow> slot_id list) \<Rightarrow> (slot_id \<times> slot_id) set" where
  "edges ch = {(x, y). y \<in> set (ch x)}"

definition descendants :: "(slot_id \<Rightarrow> slot_id list) \<Rightarrow> slot_id \<Rightarrow> slot_id set" where
  "descendants ch x = {y. (x, y) \<in> (edges ch)\<^sup>+}"

definition subtrees :: "(slot_id \<Rightarrow> slot_id list) \<Rightarrow> slot_id set \<Rightarrow> slot_id set" where
  "subtrees ch S = {y. \<exists>x \<in> S. (x, y) \<in> (edges ch)\<^sup>*}"

lemma subtrees_pop:
  assumes no_in: "\<And>z. x \<notin> set (ch z)" and "x \<notin> S"
  shows "subtrees ch (insert x S) = insert x (subtrees (ch(x := [])) (S \<union> set (ch x)))"
    and "x \<notin> subtrees (ch(x := [])) (S \<union> set (ch x))"
proof -
  have sub: "edges (ch(x := [])) \<subseteq> edges ch" by (auto simp: edges_def split: if_splits)
  have avoid: "(a, b) \<in> (edges (ch(x := [])))\<^sup>* \<and> b \<noteq> x" if "(a, b) \<in> (edges ch)\<^sup>*" "a \<noteq> x" for a b
    using that(1)
  proof induction
    case base
    then show ?case using that(2) by simp
  next
    case (step b c)
    then have "(b, c) \<in> edges (ch(x := []))" "c \<noteq> x" using no_in by (auto simp: edges_def)
    then show ?case using step.IH by (meson rtrancl.rtrancl_into_rtrancl)
  qed
  show "x \<notin> subtrees (ch(x := [])) (S \<union> set (ch x))"
  proof
    assume "x \<in> subtrees (ch(x := [])) (S \<union> set (ch x))"
    then obtain a where a: "a \<in> S \<union> set (ch x)" "(a, x) \<in> (edges (ch(x := [])))\<^sup>*"
      by (auto simp: subtrees_def)
    then have "a \<noteq> x" using assms(2) no_in by blast
    then show False using avoid a(2) rtrancl_mono [OF sub] by blast
  qed
  show "subtrees ch (insert x S) = insert x (subtrees (ch(x := [])) (S \<union> set (ch x)))"
  proof (intro equalityI subsetI)
    fix b assume "b \<in> subtrees ch (insert x S)"
    then obtain a where a: "a \<in> insert x S" "(a, b) \<in> (edges ch)\<^sup>*" by (auto simp: subtrees_def)
    show "b \<in> insert x (subtrees (ch(x := [])) (S \<union> set (ch x)))"
    proof (cases "a = x")
      case False
      then show ?thesis using a avoid by (auto simp: subtrees_def)
    next
      case True
      with a(2) have "b = x \<or> (\<exists>c. c \<in> set (ch x) \<and> (c, b) \<in> (edges ch)\<^sup>*)"
        by (auto simp: edges_def elim: converse_rtranclE)
      then show ?thesis using avoid no_in by (fastforce simp: subtrees_def)
    qed
  next
    fix b assume "b \<in> insert x (subtrees (ch(x := [])) (S \<union> set (ch x)))"
    then consider "b = x" | a where "a \<in> S \<union> set (ch x)" "(a, b) \<in> (edges (ch(x := [])))\<^sup>*"
      by (auto simp: subtrees_def)
    then show "b \<in> subtrees ch (insert x S)"
    proof cases
      case (2 a)
      then have ab: "(a, b) \<in> (edges ch)\<^sup>*" using rtrancl_mono [OF sub] by blast
      have "a \<in> set (ch x) \<Longrightarrow> (x, a) \<in> edges ch" by (simp add: edges_def)
      then show ?thesis using 2(1) ab by (auto simp: subtrees_def intro: converse_rtrancl_into_rtrancl)
    qed (auto simp: subtrees_def)
  qed
qed

lemma subtrees_children: "subtrees (ch(x := [])) (set (ch x)) = descendants ch x"
  if no_cycle: "(x, x) \<notin> (edges ch)\<^sup>+"
proof (intro equalityI subsetI)
  have sub: "edges (ch(x := [])) \<subseteq> edges ch" by (auto simp: edges_def split: if_splits)
  fix b assume "b \<in> subtrees (ch(x := [])) (set (ch x))"
  then obtain a where "(x, a) \<in> edges ch" "(a, b) \<in> (edges ch)\<^sup>*"
    using rtrancl_mono [OF sub] by (auto simp: subtrees_def edges_def)
  then show "b \<in> descendants ch x" by (simp add: descendants_def rtrancl_into_trancl2)
next
  fix b assume "b \<in> descendants ch x"
  then have "(x, b) \<in> (edges ch)\<^sup>+" by (simp add: descendants_def)
  then have "b \<in> subtrees (ch(x := [])) (set (ch x))"
  proof induction
    case (base c)
    then show ?case by (auto simp: subtrees_def edges_def)
  next
    case (step b c)
    then have "b \<noteq> x" using no_cycle by blast
    then have "(b, c) \<in> edges (ch(x := []))" using step by (simp add: edges_def)
    then show ?case using step.IH unfolding subtrees_def
      by (blast intro: rtrancl.rtrancl_into_rtrancl)
  qed
  then show "b \<in> subtrees (ch(x := [])) (set (ch x))" .
qed

lemma tree_acyclic: "tree_rep h ch L \<Longrightarrow> (x, y) \<in> (edges ch)\<^sup>+ \<Longrightarrow> x \<noteq> y"
proof -
  assume "tree_rep h ch L"
  then obtain rank :: "slot_id \<Rightarrow> nat" where rank: "\<forall>x. \<forall>y \<in> set (ch x). rank x < rank y"
    using tree_rank by blast
  assume "(x, y) \<in> (edges ch)\<^sup>+"
  then have "rank x < rank y" by induction (use rank in \<open>auto simp: edges_def intro: less_trans\<close>)
  then show "x \<noteq> y" by auto
qed

text \<open>Freeing a detached node detaches its children.\<close>

lemma tree_free:
  assumes t: "tree_rep h ch L" and x: "x \<in> L"
  shows "tree_rep (h(x := None)) (ch(x := [])) ((L - {x}) \<union> set (ch x))"
proof -
  let ?h = "h(x := None)" and ?L = "(L - {x}) \<union> set (ch x)"
  obtain rank :: "slot_id \<Rightarrow> nat" where rank: "\<forall>x. \<forall>y \<in> set (ch x). rank x < rank y"
    using tree_rank [OF t] by blast
  have out: "x \<notin> set (ch z)" for z using tree_child [OF t] x by blast
  show ?thesis
  proof (rule tree_repI [where rank = rank])
    show "(ch(x := [])) z = []" if "?h z = None" for z
      using that tree_dead [OF t, of z] by (auto split: if_splits)
    show "dll ?h (deriv_first_child sz) ((ch(x := [])) z)" if sz: "?h z = Some sz" for z sz
    proof -
      have z: "z \<noteq> x" "h z = Some sz" using sz by (auto split: if_splits)
      have "same_sibs h ?h y" if "y \<in> set (ch z)" for y
        using that out [of z] by (auto simp: same_sibs_def)
      from dll_frame [OF this tree_dll [OF t z(2)]] show ?thesis using z(1) by simp
    qed
    fix z y assume y: "y \<in> set ((ch(x := [])) z)"
    then have z: "z \<noteq> x" "y \<in> set (ch z)" by (auto split: if_splits)
    then show "y \<notin> ?L \<and> (\<exists>s. ?h y = Some s \<and> deriv_parent s = Some z)"
      using tree_child [OF t z(2)] tree_child_unique [OF t z(2), of x] out [of z] by auto
    show "rank z < rank y" using rank z by blast
  next
    fix y sy z assume "?h y = Some sy" "y \<notin> ?L" "deriv_parent sy = Some z"
    then show "y \<in> set ((ch(x := [])) z)"
      using tree_parent [OF t, of y sy z] by (auto split: if_splits)
  next
    fix y sy assume "?h y = Some sy" "y \<notin> ?L" "deriv_parent sy = None"
    then show "deriv_prev_sibling sy = None \<and> deriv_next_sibling sy = None"
      using tree_root [OF t, of y sy] by (auto split: if_splits)
  qed
qed

lemma push_siblings_spec:
  "llist (next_of (gcaps st)) cur ys \<Longrightarrow> \<forall>y \<in> set ys. gcaps st y \<noteq> None \<Longrightarrow>
    push_siblings st cur stack = ret (rev ys @ stack)"
proof (induction ys arbitrary: cur stack)
  case Nil
  then show ?case by (simp add: push_siblings.simps)
next
  case (Cons y ys)
  then obtain sy where sy: "gcaps st y = Some sy" by auto
  have cur: "cur = Some y" using Cons.prems(1) by simp
  have "push_siblings st cur stack = push_siblings st (next_of (gcaps st) y) (y # stack)"
    using resolve_cap [OF sy] sy by (simp add: cur push_siblings.simps [of st "Some y"] next_of_def)
  then show ?case using Cons by auto
qed

lemma finite_gcaps: "st_ok st \<Longrightarrow> finite (dom (gcaps st))"
proof -
  assume ok: "st_ok st"
  let ?D = "\<lambda>c. (\<lambda>i. \<lparr>cspace_id = c, index = i\<rparr>) `
    (case lookup_cspace st c of None \<Rightarrow> {} | Some p \<Rightarrow>
      (case cs_heap st p of None \<Rightarrow> {} | Some cs \<Rightarrow> dom (caps cs)))"
  have "dom (gcaps st) \<subseteq> (\<Union>c < MAX_CSPACES. ?D c)"
  proof
    fix x assume "x \<in> dom (gcaps st)"
    then obtain s where "gcaps st x = Some s" by auto
    then obtain p cs where "lookup_cspace st (cspace_id x) = Some p" "cs_heap st p = Some cs"
        "caps cs (index x) = Some s"
      by (rule gcaps_cases)
    moreover from this have "cspace_id x < MAX_CSPACES" by (auto simp: lookup_cspace_def split: if_splits)
    ultimately show "x \<in> (\<Union>c < MAX_CSPACES. ?D c)"
      by (intro UN_I [of "cspace_id x"]) (auto intro!: image_eqI [of _ _ "index x"])
  qed
  moreover have "finite (?D c)" for c
    using ok full_finite unfolding st_ok_def cs_ok_def
    by (fastforce intro: finite_imageI split: option.splits)
  ultimately show ?thesis by (meson finite_UN finite_lessThan finite_subset)
qed

text \<open>The object references that a set of capabilities holds, as a multiset.\<close>

definition obj_ref :: "cap_map \<Rightarrow> slot_id \<Rightarrow> ptr multiset" where
  "obj_ref h x = (case Option.bind (h x) object of None \<Rightarrow> {#} | Some ob \<Rightarrow> {#ob#})"

definition obj_refs :: "cap_map \<Rightarrow> slot_id set \<Rightarrow> ptr multiset" where
  "obj_refs h S = (\<Sum>x \<in> S. obj_ref h x)"

lemma obj_refs_cong: "(\<And>x. x \<in> S \<Longrightarrow> obj_ref h x = obj_ref h' x) \<Longrightarrow> obj_refs h S = obj_refs h' S"
  unfolding obj_refs_def by (rule sum.cong) auto

lemma subtrees_live:
  assumes t: "tree_rep h ch L" and "S \<subseteq> dom h"
  shows "subtrees ch S \<subseteq> dom h"
proof
  fix y assume "y \<in> subtrees ch S"
  then obtain x where x: "x \<in> S" "(x, y) \<in> (edges ch)\<^sup>*" by (auto simp: subtrees_def)
  from x(2) show "y \<in> dom h"
  proof (cases rule: rtranclE)
    case base
    then show ?thesis using x(1) assms(2) by auto
  next
    case (step z)
    then show ?thesis using tree_live [OF t, of y z] by (simp add: edges_def domIff)
  qed
qed

text \<open>One iteration of the revocation loop.\<close>

lemma revoke_step:
  assumes ok: "st_ok st" and t: "tree_rep (gcaps st) ch (set (x # rest))" and d: "distinct (x # rest)"
    and x: "gcaps st x = Some s"
  shows "\<exists>st'. revoke_loop (x # rest) st objs =
      revoke_loop (rev (ch x) @ rest) st' (objs @ (case object s of None \<Rightarrow> [] | Some ob \<Rightarrow> [ob])) \<and>
    st_ok st' \<and> same_spaces st st' \<and> gcaps st' = (gcaps st)(x := None) \<and>
    tree_rep (gcaps st') (ch(x := [])) (set (rev (ch x) @ rest)) \<and> distinct (rev (ch x) @ rest)"
proof -
  obtain p cs where p: "lookup_cspace st (cspace_id x) = Some p" "cs_heap st p = Some cs"
      "caps cs (index x) = Some s"
    using x by (rule gcaps_cases)
  from free_cap [OF ok x p(1,2)] obtain cs' where cs': "free_slot (index x) cs = ret cs'"
    and st': "st_ok (st\<lparr>cs_heap := (cs_heap st)(p \<mapsto> cs')\<rparr>)"
      "same_spaces st (st\<lparr>cs_heap := (cs_heap st)(p \<mapsto> cs')\<rparr>)"
      "gcaps (st\<lparr>cs_heap := (cs_heap st)(p \<mapsto> cs')\<rparr>) = (gcaps st)(x := None)"
    by (auto simp: Let_def)
  let ?st = "st\<lparr>cs_heap := (cs_heap st)(p \<mapsto> cs')\<rparr>"
  have L: "(set (x # rest) - {x}) \<union> set (ch x) = set (rev (ch x) @ rest)" using d by auto
  have t': "tree_rep (gcaps ?st) (ch(x := [])) (set (rev (ch x) @ rest))"
    using tree_free [OF t, of x] unfolding st'(3) L by simp
  have out: "x \<notin> set (ch x)" "set (ch x) \<inter> set (x # rest) = {}"
    using tree_irrefl [OF t] tree_child [OF t] by blast+
  have "llist (next_of (gcaps st)) (deriv_first_child s) (ch x)"
    by (rule dll_llist [OF tree_dll [OF t x]])
  moreover have "llist (next_of (gcaps ?st)) (deriv_first_child s) (ch x)
      = llist (next_of (gcaps st)) (deriv_first_child s) (ch x)"
    using out(1) unfolding st'(3) by (intro lseg_cong) (auto simp: next_of_def)
  moreover have "\<forall>y \<in> set (ch x). gcaps ?st y \<noteq> None"
    using tree_live [OF t] out(1) unfolding st'(3) by auto
  ultimately have "push_siblings ?st (deriv_first_child s) rest = ret (rev (ch x) @ rest)"
    using push_siblings_spec by simp
  then have "revoke_loop (x # rest) st objs =
      revoke_loop (rev (ch x) @ rest) ?st (objs @ (case object s of None \<Rightarrow> [] | Some ob \<Rightarrow> [ob]))"
    using p cs' by (simp add: revoke_loop.simps [of "x # rest"] slot_of_caps split: option.splits)
  moreover have "distinct (rev (ch x) @ rest)" using d out tree_distinct [OF t, of x] by auto
  ultimately show ?thesis using st' t' by blast
qed

lemma revoke_loop_spec:
  assumes "st_ok st" "tree_rep (gcaps st) ch (set stack)" "distinct stack" "set stack \<subseteq> dom (gcaps st)"
  shows "\<exists>objs' st'. revoke_loop stack st objs = ret (objs @ objs', st') \<and> st_ok st' \<and>
    same_spaces st st' \<and> mset objs' = obj_refs (gcaps st) (subtrees ch (set stack)) \<and>
    gcaps st' = (\<lambda>x. if x \<in> subtrees ch (set stack) then None else gcaps st x) \<and>
    tree_rep (gcaps st') (\<lambda>x. if x \<in> subtrees ch (set stack) then [] else ch x) {}"
  using assms
proof (induction "card (dom (gcaps st))" arbitrary: st ch stack objs rule: less_induct)
  case less
  show ?case
  proof (cases stack)
    case Nil
    then show ?thesis using less.prems by (simp add: revoke_loop.simps subtrees_def obj_refs_def)
  next
    case (Cons x rest)
    then obtain s where s: "gcaps st x = Some s" using less.prems(4) by auto
    let ?R = "subtrees ch (set stack)"
    let ?R' = "subtrees (ch(x := [])) (set (rev (ch x) @ rest))"
    from revoke_step [OF less.prems(1) _ _ s, of ch rest objs] less.prems(2,3) Cons
    obtain st1 where st1: "revoke_loop stack st objs = revoke_loop (rev (ch x) @ rest) st1
          (objs @ (case object s of None \<Rightarrow> [] | Some ob \<Rightarrow> [ob]))"
        "st_ok st1" "same_spaces st st1" "gcaps st1 = (gcaps st)(x := None)"
        "tree_rep (gcaps st1) (ch(x := [])) (set (rev (ch x) @ rest))" "distinct (rev (ch x) @ rest)"
      by auto
    have fin: "finite (dom (gcaps st))" by (rule finite_gcaps [OF less.prems(1)])
    have "card (dom (gcaps st1)) < card (dom (gcaps st))"
      using s fin unfolding st1(4) by (auto intro!: psubset_card_mono)
    moreover have sub: "set (rev (ch x) @ rest) \<subseteq> dom (gcaps st1)"
      using less.prems(3,4) Cons tree_live [OF less.prems(2)] tree_irrefl [OF less.prems(2), of x]
      unfolding st1(4) by auto
    ultimately obtain objs' st' where IH: "revoke_loop (rev (ch x) @ rest) st1
          (objs @ (case object s of None \<Rightarrow> [] | Some ob \<Rightarrow> [ob]))
          = ret ((objs @ (case object s of None \<Rightarrow> [] | Some ob \<Rightarrow> [ob])) @ objs', st')" "st_ok st'"
        "same_spaces st1 st'" "mset objs' = obj_refs (gcaps st1) ?R'"
        "gcaps st' = (\<lambda>x. if x \<in> ?R' then None else gcaps st1 x)"
        "tree_rep (gcaps st') (\<lambda>z. if z \<in> ?R' then [] else (ch(x := [])) z) {}"
      using less.hyps [OF _ st1(2,5,6)] by blast
    have no_in: "x \<notin> set (ch z)" for z using tree_child [OF less.prems(2)] Cons by auto
    have R: "?R = insert x ?R'" "x \<notin> ?R'"
      using subtrees_pop [of x ch "set rest", OF no_in] less.prems(3) Cons by (auto simp: Un_commute)
    have finR: "finite ?R'"
      using subtrees_live [OF st1(5) sub] finite_gcaps [OF st1(2)] finite_subset by blast
    have "obj_refs (gcaps st1) ?R' = obj_refs (gcaps st) ?R'"
      using R(2) unfolding st1(4) by (intro obj_refs_cong) (auto simp: obj_ref_def)
    then have "mset ((case object s of None \<Rightarrow> [] | Some ob \<Rightarrow> [ob]) @ objs') = obj_refs (gcaps st) ?R"
      using R finR IH(4) s by (simp add: obj_refs_def obj_ref_def split: option.splits)
    moreover have "gcaps st' = (\<lambda>x. if x \<in> ?R then None else gcaps st x)"
      using R unfolding IH(5) st1(4) by auto
    moreover have "(\<lambda>z. if z \<in> ?R' then [] else (ch(x := [])) z) = (\<lambda>z. if z \<in> ?R then [] else ch z)"
      using R by auto
    ultimately show ?thesis
      using IH(1,2,6) st1(1) same_spaces_trans [OF st1(3) IH(3)] by auto
  qed
qed

lemma revoke_subtree_spec:
  assumes ok: "st_ok st" and t: "tree_rep (gcaps st) ch {}" and r: "gcaps st root = Some s"
  shows "\<exists>objs st'. revoke_subtree root st = ret (objs, st') \<and> st_ok st' \<and> same_spaces st st' \<and>
    mset objs = obj_refs (gcaps st) (descendants ch root) \<and>
    gcaps st' = (\<lambda>x. if x \<in> descendants ch root then None
       else if x = root then Some (s\<lparr>deriv_first_child := None\<rparr>) else gcaps st x) \<and>
    tree_rep (gcaps st') (\<lambda>x. if x \<in> insert root (descendants ch root) then [] else ch x) {}"
proof -
  let ?f = "\<lambda>s. s\<lparr>deriv_first_child := None\<rparr>" and ?D = "descendants ch root"
  obtain st1 where st1: "modify_slot root ?f st = ret st1" "st_ok st1" "same_spaces st st1"
      "gcaps st1 = (gcaps st)(root \<mapsto> ?f s)"
    using modify_link [OF ok r, of ?f] by auto
  have t1: "tree_rep (gcaps st1) (ch(root := [])) (set (rev (ch root)))"
    unfolding st1(4) using tree_detach [OF t r] by simp
  have nx: "next_of (gcaps st1) = next_of (gcaps st)" using r by (auto simp: next_of_def st1(4))
  have live: "\<forall>y \<in> set (ch root). gcaps st1 y \<noteq> None"
    using tree_live [OF t] unfolding st1(4) by auto
  have "push_siblings st1 (deriv_first_child s) [] = ret (rev (ch root) @ [])"
    using dll_llist [OF tree_dll [OF t r]] live unfolding nx [symmetric] by (rule push_siblings_spec)
  then have rs: "revoke_subtree root st = revoke_loop (rev (ch root)) st1 []"
    using resolve_cap [OF r] st1(1) by (simp add: revoke_subtree_def)
  have acyc: "(root, root) \<notin> (edges ch)\<^sup>+" using tree_acyclic [OF t] by blast
  have D: "subtrees (ch(root := [])) (set (rev (ch root))) = ?D"
    using subtrees_children [OF acyc] by simp
  have rD: "root \<notin> ?D" using acyc by (simp add: descendants_def)
  have "distinct (rev (ch root))" "set (rev (ch root)) \<subseteq> dom (gcaps st1)"
    using tree_distinct [OF t] live by auto
  from revoke_loop_spec [OF st1(2) t1 this, of "[]"] obtain objs st' where
    L: "revoke_loop (rev (ch root)) st1 [] = ret (objs, st')" "st_ok st'" "same_spaces st1 st'"
      "mset objs = obj_refs (gcaps st1) ?D" "gcaps st' = (\<lambda>x. if x \<in> ?D then None else gcaps st1 x)"
      "tree_rep (gcaps st') (\<lambda>x. if x \<in> ?D then [] else (ch(root := [])) x) {}"
    unfolding D by auto
  have "obj_refs (gcaps st1) ?D = obj_refs (gcaps st) ?D"
    using rD unfolding st1(4) by (intro obj_refs_cong) (auto simp: obj_ref_def)
  moreover have "(\<lambda>x. if x \<in> ?D then [] else (ch(root := [])) x)
      = (\<lambda>x. if x \<in> insert root ?D then [] else ch x)"
    by auto
  ultimately show ?thesis
    using L rs rD same_spaces_trans [OF st1(3)] unfolding st1(4) by (intro exI [of _ objs] exI [of _ st']) auto
qed

section \<open>Removing one capability\<close>

text \<open>The forest after a node has handed its children to its parent and left its sibling list.\<close>

definition splice_out ::
  "slot_id option \<Rightarrow> slot_id \<Rightarrow> (slot_id \<Rightarrow> slot_id list) \<Rightarrow> slot_id \<Rightarrow> slot_id list"
where
  "splice_out np n ch = (\<lambda>x. removeAll n (adopt np (ch n) (ch(n := [])) x))"

lemma tree_drop:
  assumes t: "tree_rep h ch {}" and n: "h n = Some s" "deriv_parent s = None" "ch n = []"
  shows "tree_rep (h(n := None)) ch {}"
proof -
  have "tree_rep (h(n := None)) (ch(n := [])) (({n} - {n}) \<union> set (ch n))"
    using tree_free [OF tree_weaken [OF t n(1) _ n(2)], of n] by simp
  moreover have "ch(n := []) = ch" using n(3) by auto
  ultimately show ?thesis using n(3) by simp
qed

text \<open>\<open>reparent_children\<close>, \<open>unlink_node\<close> and the release of the slot, in the order the delete system
  call runs them.\<close>

definition delete_node :: "ptr \<Rightarrow> nat \<Rightarrow> slot_id \<Rightarrow> slot_id option \<Rightarrow> cap_state \<Rightarrow> cap_state run" where
  "delete_node p i n np st = do {
     st \<leftarrow> reparent_children n np st;
     st \<leftarrow> unlink_node n st;
     ptr_free_slot p i st
   }"

lemma delete_node_spec:
  assumes ok: "st_ok st" and t: "tree_rep (gcaps st) ch {}"
    and n: "n = \<lparr>cspace_id = c, index = i\<rparr>" "gcaps st n = Some s" and p: "registered st p c"
  shows "\<exists>st'. delete_node p i n (deriv_parent s) st = ret st' \<and> st_ok st' \<and> same_spaces st st' \<and>
    same_payload ((gcaps st)(n := None)) (gcaps st') \<and>
    tree_rep (gcaps st') (splice_out (deriv_parent s) n ch) {}"
proof -
  let ?ch = "adopt (deriv_parent s) (ch n) (ch(n := []))"
  from reparent_children_tree [OF ok t n(2)] obtain st1 where
    st1: "reparent_children n (deriv_parent s) st = ret st1" "st_ok st1" "same_spaces st st1"
      "same_payload (gcaps st) (gcaps st1)" "tree_rep (gcaps st1) ?ch {}" by auto
  obtain s1 where s1: "gcaps st1 n = Some s1" using same_payload_live [OF st1(4), of n] n(2) by (cases "gcaps st1 n") auto
  from unlink_node_tree [OF st1(2,5) s1] obtain st2 where
    st2: "unlink_node n st1 = ret st2" "st_ok st2" "same_spaces st1 st2"
      "gcaps st2 = unlink_map n (gcaps st1)" "tree_rep (gcaps st2) (splice_out (deriv_parent s) n ch) {}"
    by (auto simp: splice_out_def)
  have n2: "gcaps st2 n = Some (s1\<lparr>deriv_parent := None, deriv_prev_sibling := None, deriv_next_sibling := None\<rparr>)"
    unfolding st2(4) by (simp add: unlink_map_at [OF s1 tree_unlink_ready [OF st1(5) s1]])
  have p2: "registered st2 p c"
    using p same_spaces_registered [OF st1(3)] same_spaces_registered [OF st2(3)] by simp
  from ptr_free_slot_ok [OF st2(2) p2 n2 [unfolded n(1)]] obtain st3 where
    st3: "ptr_free_slot p i st2 = ret st3" "st_ok st3" "same_spaces st2 st3"
      "gcaps st3 = (gcaps st2)(n := None)" unfolding n(1) by auto
  have nn: "deriv_parent s \<noteq> Some n"
    using tree_parent [OF t n(2)] tree_irrefl [OF t, of n] by auto
  have "splice_out (deriv_parent s) n ch n = []"
    using nn by (auto simp: splice_out_def adopt_def split: option.splits)
  then have "tree_rep (gcaps st3) (splice_out (deriv_parent s) n ch) {}"
    unfolding st3(4) using tree_drop [OF st2(5) n2] by simp
  moreover have "same_payload (gcaps st) (gcaps st2)"
    using st1(4) unlink_map_frame [OF st1(5) s1] same_payload_trans unfolding st2(4) by blast
  then have "same_payload ((gcaps st)(n := None)) (gcaps st3)"
    unfolding st3(4) by (simp add: same_payload_def)
  moreover have "same_spaces st st3" using st1(3) st2(3) st3(3) same_spaces_trans by blast
  ultimately show ?thesis using st1(1) st2(1) st3(1,2) by (auto simp: delete_node_def)
qed

section \<open>Renaming a node\<close>

definition rename :: "slot_id \<Rightarrow> slot_id \<Rightarrow> slot_id \<Rightarrow> slot_id" where
  "rename n m x = (if x = n then m else if x = m then n else x)"

lemma rename_rename [simp]: "rename n m (rename n m x) = x"
  by (simp add: rename_def)

lemma rename_eq_iff [simp]: "rename n m x = rename n m y \<longleftrightarrow> x = y"
  by (auto simp: rename_def)

definition map_links :: "(slot_id \<Rightarrow> slot_id) \<Rightarrow> capability_slot \<Rightarrow> capability_slot" where
  "map_links f s = s\<lparr>deriv_parent := map_option f (deriv_parent s),
     deriv_first_child := map_option f (deriv_first_child s),
     deriv_next_sibling := map_option f (deriv_next_sibling s),
     deriv_prev_sibling := map_option f (deriv_prev_sibling s)\<rparr>"

lemma map_links_sel [simp]:
  "deriv_parent (map_links f s) = map_option f (deriv_parent s)"
  "deriv_first_child (map_links f s) = map_option f (deriv_first_child s)"
  "deriv_next_sibling (map_links f s) = map_option f (deriv_next_sibling s)"
  "deriv_prev_sibling (map_links f s) = map_option f (deriv_prev_sibling s)"
  "payload (map_links f s) = payload s"
  by (simp_all add: map_links_def payload_def)

definition rename_map :: "slot_id \<Rightarrow> slot_id \<Rightarrow> cap_map \<Rightarrow> cap_map" where
  "rename_map n m h x = map_option (map_links (rename n m)) (h (rename n m x))"

lemma rename_dseg:
  "dseg h pv p xs pv' q \<Longrightarrow> dseg (rename_map n m h) (map_option (rename n m) pv)
    (map_option (rename n m) p) (map (rename n m) xs) (map_option (rename n m) pv') (map_option (rename n m) q)"
proof (induction xs arbitrary: pv p)
  case Nil
  then show ?case by simp
next
  case (Cons x xs)
  then obtain s where "p = Some x" "h x = Some s" "deriv_prev_sibling s = pv"
      "dseg h (Some x) (deriv_next_sibling s) xs pv' q" by auto
  then show ?case using Cons.IH [of "Some x" "deriv_next_sibling s"] by (simp add: rename_map_def)
qed

lemma rename_dll:
  "dll h p xs \<Longrightarrow> dll (rename_map n m h) (map_option (rename n m) p) (map (rename n m) xs)"
  unfolding dll_def using rename_dseg [of h None p xs _ None n m] by auto

lemma rename_mem: "y \<in> rename n m ` S \<longleftrightarrow> rename n m y \<in> S"
  by (metis image_iff rename_rename)

lemma rename_tree:
  assumes t: "tree_rep h ch {}"
  shows "tree_rep (rename_map n m h) (\<lambda>x. map (rename n m) (ch (rename n m x))) {}"
proof -
  obtain rank :: "slot_id \<Rightarrow> nat" where rank: "\<forall>x. \<forall>y \<in> set (ch x). rank x < rank y"
    using tree_rank [OF t] by blast
  have mem: "y \<in> set (map (rename n m) (ch (rename n m x))) \<longleftrightarrow>
      rename n m y \<in> set (ch (rename n m x))" for x y
    by (simp add: rename_mem)
  have eq: "map_option (rename n m) a = Some x \<longleftrightarrow> a = Some (rename n m x)" for a x
    by (cases a) (auto simp: rename_def)
  show ?thesis
  proof (rule tree_repI [where rank = "\<lambda>x. rank (rename n m x)"])
    fix x y assume y: "y \<in> set (map (rename n m) (ch (rename n m x)))"
    from y show "y \<notin> {} \<and> (\<exists>s. rename_map n m h y = Some s \<and> deriv_parent s = Some x)"
      unfolding mem using tree_child [OF t] by (fastforce simp: rename_map_def)
    show "rank (rename n m x) < rank (rename n m y)" using y rank unfolding mem by blast
  next
    fix y s x assume "rename_map n m h y = Some s" "deriv_parent s = Some x"
    then show "y \<in> set (map (rename n m) (ch (rename n m x)))"
      unfolding mem using tree_parent [OF t] by (auto simp: rename_map_def eq)
  next
    fix y s assume "rename_map n m h y = Some s" "deriv_parent s = None"
    then show "deriv_prev_sibling s = None \<and> deriv_next_sibling s = None"
      using tree_root [OF t] by (auto simp: rename_map_def)
  next
    fix x s assume "rename_map n m h x = Some s"
    then obtain s0 where s0: "h (rename n m x) = Some s0" "s = map_links (rename n m) s0"
      by (auto simp: rename_map_def)
    then show "dll (rename_map n m h) (deriv_first_child s) (map (rename n m) (ch (rename n m x)))"
      using rename_dll [OF tree_dll [OF t s0(1)]] by simp
  next
    fix x assume "rename_map n m h x = None"
    then show "map (rename n m) (ch (rename n m x)) = []"
      using tree_dead [OF t] by (simp add: rename_map_def)
  qed
qed

section \<open>Adding a fresh capability\<close>

definition unlinked :: "capability_slot \<Rightarrow> bool" where
  "unlinked s \<longleftrightarrow> deriv_parent s = None \<and> deriv_first_child s = None \<and>
     deriv_prev_sibling s = None \<and> deriv_next_sibling s = None"

lemma unlinked_new [simp]: "unlinked (new_cap tg r ob)" "unlinked ((new_cap tg r ob)\<lparr>token := tk\<rparr>)"
  by (simp_all add: unlinked_def new_cap_def)

lemma tree_insert:
  assumes t: "tree_rep h ch {}" and x: "h x = None" and u: "unlinked sx"
  shows "tree_rep (h(x \<mapsto> sx)) ch {}"
proof -
  obtain rank :: "slot_id \<Rightarrow> nat" where rank: "\<forall>x. \<forall>y \<in> set (ch x). rank x < rank y"
    using tree_rank [OF t] by blast
  let ?h = "h(x \<mapsto> sx)"
  have u: "deriv_parent sx = None" "deriv_first_child sx = None" "deriv_prev_sibling sx = None"
      "deriv_next_sibling sx = None" using u by (simp_all add: unlinked_def)
  have cx: "ch x = []" by (rule tree_dead [OF t x])
  have out: "y \<noteq> x" if "y \<in> set (ch z)" for y z using tree_live [OF t that] x by auto
  show ?thesis
  proof (rule tree_repI [where rank = rank])
    show "ch z = []" if "?h z = None" for z using that tree_dead [OF t] by (auto split: if_splits)
    show "dll ?h (deriv_first_child s) (ch z)" if s: "?h z = Some s" for z s
    proof (cases "z = x")
      case True
      then show ?thesis using s cx u by auto
    next
      case False
      then have z: "h z = Some s" using s by simp
      have "same_sibs h ?h y" if "y \<in> set (ch z)" for y using out [OF that] by (simp add: same_sibs_def)
      from dll_frame [OF this tree_dll [OF t z]] show ?thesis .
    qed
    show "y \<notin> {} \<and> (\<exists>s. ?h y = Some s \<and> deriv_parent s = Some z)" if "y \<in> set (ch z)" for y z
      using tree_child [OF t that] out [OF that] by auto
    show "rank z < rank y" if "y \<in> set (ch z)" for y z using that rank by blast
    show "y \<in> set (ch z)" if "?h y = Some s" "deriv_parent s = Some z" for y s z
      using that tree_parent [OF t] u by (auto split: if_splits)
    show "deriv_prev_sibling s = None \<and> deriv_next_sibling s = None"
      if "?h y = Some s" "deriv_parent s = None" for y s
      using that tree_root [OF t] u by (auto split: if_splits)
  qed
qed

lemma tree_empty: "tree_rep Map.empty (\<lambda>_. []) {}"
  by (rule tree_repI) auto

text \<open>A fresh capability is linked below an existing one.\<close>

lemma link_fresh:
  assumes ok: "st_ok st" and t: "tree_rep h ch {}" and g: "gcaps st = h(x \<mapsto> sx)"
    and x: "h x = None" "unlinked sx" and p: "h p = Some sp"
  shows "\<exists>st'. link_child p x st = ret st' \<and> st_ok st' \<and> same_spaces st st' \<and>
    gcaps st' = link_map p x (gcaps st) \<and> tree_rep (gcaps st') (ch(p := x # ch p)) {}"
proof -
  obtain rank :: "slot_id \<Rightarrow> nat" where rank: "\<forall>x. \<forall>y \<in> set (ch x). rank x < rank y"
    using tree_rank [OF t] by blast
  have "y \<noteq> x" "z \<noteq> x" if "y \<in> set (ch z)" for y z using tree_live [OF t that] x(1) by auto
  then have rank': "\<forall>z. \<forall>y \<in> set (ch z). (rank(x := Suc (rank p))) z < (rank(x := Suc (rank p))) y"
    using rank by auto
  have "tree_rep (gcaps st) ch {x}"
    unfolding g using tree_weaken [OF tree_insert [OF t x]] x(2) by (simp add: unlinked_def)
  moreover have "p \<noteq> x" using p x(1) by auto
  ultimately show ?thesis
    using link_child_tree [OF ok _ _ _ _ _ rank', where L = "{x}" and c = x and sc = sx and p = p and sp = sp] g p by simp
qed

lemma link_map_payload:
  assumes "h p = Some sp" "h c = Some sc" "\<forall>x. deriv_first_child sp = Some x \<longrightarrow> h x \<noteq> None"
  shows "same_payload h (link_map p c h)"
  using assms
  by (auto simp: same_payload_def link_map_def payload_def Let_def split: option.splits)

section \<open>Properties\<close>

lemma link_example:
  obtains i a j b st where "ptr_insert_cap 10 TagSignal WAIT 7 two_spaces = ret (Inr i, a)"
    "ptr_insert_cap 20 TagSignal WAIT 7 a = ret (Inr j, b)"
    "link_child \<lparr>cspace_id = 1, index = i\<rparr> \<lparr>cspace_id = 2, index = j\<rparr> b = ret st"
    "st_ok st" "same_spaces two_spaces st" "dom (gcaps st) = {\<lparr>cspace_id = 1, index = i\<rparr>, \<lparr>cspace_id = 2, index = j\<rparr>}"
    "tree_rep (gcaps st) ((\<lambda>_. [])(\<lparr>cspace_id = 1, index = i\<rparr> := [\<lparr>cspace_id = 2, index = j\<rparr>])) {}"
proof -
  note ok = two_spaces_ok
  obtain i a where i: "ptr_insert_cap 10 TagSignal WAIT 7 two_spaces = ret (Inr i, a)" "st_ok a"
      "same_spaces two_spaces a" "gcaps a = [\<lparr>cspace_id = 1, index = i\<rparr> \<mapsto> new_cap TagSignal WAIT 7]"
    using ptr_insert_cap_ok [OF ok(1,3) _ ok(5), of TagSignal WAIT 7] by (auto simp: ok(2))
  have "registered a 20 2" "0 < ptr_room a 20"
    using ok(4,6) same_spaces_registered [OF i(3)] ptr_insert_cap_other [OF i(1), of 20]
    by (auto simp: ptr_room_def)
  then obtain j b where j: "ptr_insert_cap 20 TagSignal WAIT 7 a = ret (Inr j, b)" "st_ok b"
      "same_spaces a b" "gcaps b = (gcaps a)(\<lparr>cspace_id = 2, index = j\<rparr> \<mapsto> new_cap TagSignal WAIT 7)"
    using ptr_insert_cap_ok [OF i(2), of 20 2 TagSignal WAIT 7] by auto
  have t: "tree_rep (gcaps a) (\<lambda>_. []) {}" unfolding i(4) by (rule tree_insert [OF tree_empty]) simp_all
  from link_fresh [OF j(2) t j(4), of "\<lparr>cspace_id = 1, index = i\<rparr>" "new_cap TagSignal WAIT 7"] i(4)
  obtain st where st: "link_child \<lparr>cspace_id = 1, index = i\<rparr> \<lparr>cspace_id = 2, index = j\<rparr> b = ret st"
      "st_ok st" "same_spaces b st" "gcaps st = link_map \<lparr>cspace_id = 1, index = i\<rparr> \<lparr>cspace_id = 2, index = j\<rparr> (gcaps b)"
      "tree_rep (gcaps st) ((\<lambda>_. [])(\<lparr>cspace_id = 1, index = i\<rparr> := [\<lparr>cspace_id = 2, index = j\<rparr>])) {}"
    by auto
  have "dom (gcaps st) = {\<lparr>cspace_id = 1, index = i\<rparr>, \<lparr>cspace_id = 2, index = j\<rparr>}"
    using st(4) by (auto simp: j(4) i(4) link_map_def new_cap_def)
  then show thesis
    using that [OF i(1) j(1) st(1,2) _ _ st(5)] i(3) j(3) st(3) same_spaces_trans by blast
qed

text \<open>(C1) Revocation is exact. From a live capability of a well-formed forest, \<open>revoke_subtree\<close> returns;
  the strict descendants of the root are removed and every other capability is left as it was,
  except that the root has no first child any more. The objects it returns for release are, with
  multiplicity, those of the removed capabilities, and the links still form a forest. The root itself is
  kept, as the comment of \<open>sys_cap_revoke\<close> says; \<open>kernel/docs/syscalls.md\<close>, \<open>kernel/docs/capability-internals.md\<close> and
  \<open>docs/capability-model.md\<close> say that it is invalidated too.\<close>

theorem revoke_subtree_exact:
  assumes "st_ok st" "tree_rep (gcaps st) ch {}" "gcaps st root = Some s"
  shows "\<exists>objs st'. revoke_subtree root st = ret (objs, st') \<and> st_ok st' \<and>
    mset objs = obj_refs (gcaps st) (descendants ch root) \<and>
    gcaps st' = (\<lambda>x. if x \<in> descendants ch root then None
       else if x = root then Some (s\<lparr>deriv_first_child := None\<rparr>) else gcaps st x) \<and>
    tree_rep (gcaps st') (\<lambda>x. if x \<in> insert root (descendants ch root) then [] else ch x) {}"
  using revoke_subtree_spec [OF assms] by blast

theorem revoke_subtree_exact_witness:
  "\<exists>i a j b st objs st'. ptr_insert_cap 10 TagSignal WAIT 7 two_spaces = ret (Inr i, a) \<and>
     ptr_insert_cap 20 TagSignal WAIT 7 a = ret (Inr j, b) \<and>
     link_child \<lparr>cspace_id = 1, index = i\<rparr> \<lparr>cspace_id = 2, index = j\<rparr> b = ret st \<and>
     revoke_subtree \<lparr>cspace_id = 1, index = i\<rparr> st = ret (objs, st') \<and>
     gcaps st' \<lparr>cspace_id = 2, index = j\<rparr> = None"
proof -
  obtain i a j b st where e: "ptr_insert_cap 10 TagSignal WAIT 7 two_spaces = ret (Inr i, a)"
    "ptr_insert_cap 20 TagSignal WAIT 7 a = ret (Inr j, b)"
    "link_child \<lparr>cspace_id = 1, index = i\<rparr> \<lparr>cspace_id = 2, index = j\<rparr> b = ret st" "st_ok st"
    "same_spaces two_spaces st" "dom (gcaps st) = {\<lparr>cspace_id = 1, index = i\<rparr>, \<lparr>cspace_id = 2, index = j\<rparr>}"
    "tree_rep (gcaps st) ((\<lambda>_. [])(\<lparr>cspace_id = 1, index = i\<rparr> := [\<lparr>cspace_id = 2, index = j\<rparr>])) {}"
    by (rule link_example)
  then obtain s where "gcaps st \<lparr>cspace_id = 1, index = i\<rparr> = Some s" by blast
  moreover have "\<lparr>cspace_id = 2, index = j\<rparr> \<in> descendants ((\<lambda>_. [])(\<lparr>cspace_id = 1, index = i\<rparr> :=
      [\<lparr>cspace_id = 2, index = j\<rparr>])) \<lparr>cspace_id = 1, index = i\<rparr>"
    by (auto simp: descendants_def edges_def intro!: r_into_trancl)
  ultimately show ?thesis using revoke_subtree_exact [OF e(4,7)] e(1-3) by fastforce
qed

text \<open>(C2) Deletion. Reparenting the children of a capability to its own parent, unlinking it and freeing
  its slot, as the delete system call does, removes that capability only: every other capability
  keeps its tag, rights, token and object, and the links form the forest in which the children of
  the deleted node are children of its parent (or roots).\<close>

theorem delete_node_splices:
  assumes "st_ok st" "tree_rep (gcaps st) ch {}" "registered st p c"
    and "gcaps st \<lparr>cspace_id = c, index = i\<rparr> = Some s"
  shows "\<exists>st'. delete_node p i \<lparr>cspace_id = c, index = i\<rparr> (deriv_parent s) st = ret st' \<and> st_ok st' \<and>
    same_payload ((gcaps st)(\<lparr>cspace_id = c, index = i\<rparr> := None)) (gcaps st') \<and>
    tree_rep (gcaps st') (splice_out (deriv_parent s) \<lparr>cspace_id = c, index = i\<rparr> ch) {}"
  using delete_node_spec [OF assms(1,2) refl assms(4,3)] by blast

theorem delete_node_splices_witness:
  "\<exists>i a j b st st' p. ptr_insert_cap 10 TagSignal WAIT 7 two_spaces = ret (Inr i, a) \<and>
     ptr_insert_cap 20 TagSignal WAIT 7 a = ret (Inr j, b) \<and>
     link_child \<lparr>cspace_id = 1, index = i\<rparr> \<lparr>cspace_id = 2, index = j\<rparr> b = ret st \<and>
     delete_node 10 i \<lparr>cspace_id = 1, index = i\<rparr> p st = ret st' \<and>
     gcaps st' \<lparr>cspace_id = 2, index = j\<rparr> \<noteq> None"
proof -
  obtain i a j b st where e: "ptr_insert_cap 10 TagSignal WAIT 7 two_spaces = ret (Inr i, a)"
    "ptr_insert_cap 20 TagSignal WAIT 7 a = ret (Inr j, b)"
    "link_child \<lparr>cspace_id = 1, index = i\<rparr> \<lparr>cspace_id = 2, index = j\<rparr> b = ret st" "st_ok st"
    "same_spaces two_spaces st" "dom (gcaps st) = {\<lparr>cspace_id = 1, index = i\<rparr>, \<lparr>cspace_id = 2, index = j\<rparr>}"
    "tree_rep (gcaps st) ((\<lambda>_. [])(\<lparr>cspace_id = 1, index = i\<rparr> := [\<lparr>cspace_id = 2, index = j\<rparr>])) {}"
    by (rule link_example)
  then obtain s where s: "gcaps st \<lparr>cspace_id = 1, index = i\<rparr> = Some s" by blast
  have reg: "registered st 10 1" using two_spaces_ok(3) same_spaces_registered [OF e(5)] by simp
  from delete_node_splices [OF e(4,7) reg s] obtain st' where
    d: "delete_node 10 i \<lparr>cspace_id = 1, index = i\<rparr> (deriv_parent s) st = ret st'"
      "same_payload ((gcaps st)(\<lparr>cspace_id = 1, index = i\<rparr> := None)) (gcaps st')" by blast
  have "((gcaps st)(\<lparr>cspace_id = 1, index = i\<rparr> := None)) \<lparr>cspace_id = 2, index = j\<rparr> \<noteq> None"
    using e(6) by auto
  then have "gcaps st' \<lparr>cspace_id = 2, index = j\<rparr> \<noteq> None"
    using d(2) same_payload_live by metis
  then show ?thesis using e(1-3) d(1) by blast
qed

end
