(* ===== verification/Syscall_Abi.thy ===== *)
theory Syscall_Abi
  imports Kernel_Prelude
begin

text \<open>
  The system call ABI shared by kernel and userspace: \<open>abi/syscall/src/lib.rs\<close>. The error enum
  with its \<open>i64\<close> codes, and the limits and flags the handlers check.
\<close>

datatype syscall_error =
    UnknownSyscall | InvalidCapability | InsufficientRights | InvalidAddress | InvalidArgument
  | WouldBlock | ObjectGone | ErrOutOfMemory | NotSupported | ErrWxViolation | MsgTooLarge
  | Deadlock | QueueFull | DmaUnsafe | InvalidState | Interrupted

fun error_code :: "syscall_error \<Rightarrow> int" where
  "error_code UnknownSyscall = -1"
| "error_code InvalidCapability = -2"
| "error_code InsufficientRights = -3"
| "error_code InvalidAddress = -4"
| "error_code InvalidArgument = -5"
| "error_code WouldBlock = -6"
| "error_code ObjectGone = -7"
| "error_code ErrOutOfMemory = -8"
| "error_code NotSupported = -9"
| "error_code ErrWxViolation = -10"
| "error_code MsgTooLarge = -11"
| "error_code Deadlock = -12"
| "error_code QueueFull = -13"
| "error_code DmaUnsafe = -14"
| "error_code InvalidState = -15"
| "error_code Interrupted = -16"

definition PRIORITY_DEFAULT :: nat where "PRIORITY_DEFAULT = 10"
definition SCHED_ELEVATED_MIN :: nat where "SCHED_ELEVATED_MIN = 21"
definition PRIORITY_MAX :: nat where "PRIORITY_MAX = 30"
definition EVENT_QUEUE_MAX_CAPACITY :: nat where "EVENT_QUEUE_MAX_CAPACITY = 4096"
definition MSG_DATA_WORDS_MAX :: nat where "MSG_DATA_WORDS_MAX = 64"
definition MSG_CAP_SLOTS_MAX :: nat where "MSG_CAP_SLOTS_MAX = 4"
definition MAP_WRITABLE :: u64 where "MAP_WRITABLE = 2"
definition MAP_EXECUTABLE :: u64 where "MAP_EXECUTABLE = 4"

lemma error_code_neg: "error_code e < 0"
  by (cases e) auto

lemma error_code_inj: "error_code e = error_code e' \<longleftrightarrow> e = e'"
  by (cases e; cases e') auto

end
