(* ===== verification/Cap_Move.thy ===== *)
theory Cap_Move
  imports Derivation_Tree Syscall_Abi
begin

text \<open>
  Moving a capability between CSpaces: \<open>move_cap_between_cspaces\<close> of \<open>kernel/src/cap/mod.rs\<close>.
  The destination receives the capability with its token and its derivation links, the neighbours
  of the source in the derivation tree are redirected, and the source slot is freed. The result is
  shown to be a renaming of one node of the forest.
\<close>

section \<open>Model\<close>

text \<open>\<open>if let Some(slot) = (*p).slot_mut(i) { ... }\<close>.\<close>

definition ptr_modify ::
  "ptr \<Rightarrow> nat \<Rightarrow> (capability_slot \<Rightarrow> capability_slot) \<Rightarrow> cap_state \<Rightarrow> cap_state run"
where
  "ptr_modify p i f st = do {
     cs \<leftarrow> cspace_at p st;
     r \<leftarrow> slot cs i;
     (case r of None \<Rightarrow> ret st | Some s \<Rightarrow> ret (put_cspace p (put_slot cs i (f s)) st))
   }"

partial_function (option) move_children ::
  "slot_id \<Rightarrow> slot_id option \<Rightarrow> cap_state \<Rightarrow> cap_state run"
where
  "move_children dst cur st =
     (case cur of
        None \<Rightarrow> Some st
      | Some child_id \<Rightarrow>
          (case resolve_slot_mut st child_id of
             None \<Rightarrow> None
           | Some r \<Rightarrow>
               (case modify_slot child_id (\<lambda>s. s\<lparr>deriv_parent := Some dst\<rparr>) st of
                  None \<Rightarrow> None
                | Some st' \<Rightarrow> move_children dst (Option.bind r deriv_next_sibling) st')))"

definition modify_opt ::
  "slot_id option \<Rightarrow> (capability_slot \<Rightarrow> capability_slot) \<Rightarrow> cap_state \<Rightarrow> cap_state run"
where
  "modify_opt x f st = (case x of None \<Rightarrow> ret st | Some y \<Rightarrow> modify_slot y f st)"

text \<open>The three conditional redirections of a neighbour's link from the source to the destination.\<close>

definition fix_first :: "slot_id \<Rightarrow> slot_id \<Rightarrow> capability_slot \<Rightarrow> capability_slot" where
  "fix_first src_id dst_id d =
     (if deriv_first_child d = Some src_id then d\<lparr>deriv_first_child := Some dst_id\<rparr> else d)"

definition fix_next :: "slot_id \<Rightarrow> slot_id \<Rightarrow> capability_slot \<Rightarrow> capability_slot" where
  "fix_next src_id dst_id d =
     (if deriv_next_sibling d = Some src_id then d\<lparr>deriv_next_sibling := Some dst_id\<rparr> else d)"

definition fix_prev :: "slot_id \<Rightarrow> slot_id \<Rightarrow> capability_slot \<Rightarrow> capability_slot" where
  "fix_prev src_id dst_id d =
     (if deriv_prev_sibling d = Some src_id then d\<lparr>deriv_prev_sibling := Some dst_id\<rparr> else d)"

text \<open>The part of the move after the insertion: copy token and links, redirect the parent, the
  siblings and the children, free the source.\<close>

definition relink_moved ::
  "ptr \<Rightarrow> nat \<Rightarrow> ptr \<Rightarrow> nat \<Rightarrow> slot_id \<Rightarrow> slot_id \<Rightarrow> u64 \<Rightarrow> cap_state \<Rightarrow> cap_state run"
where
  "relink_moved src_cspace src_idx dst_cspace new_idx src_id dst_id src_token st = do {
     r \<leftarrow> ptr_slot src_cspace src_idx st;
     (case r of
        None \<Rightarrow> panic
      | Some s \<Rightarrow> do {
          st \<leftarrow> ptr_modify dst_cspace new_idx
                  (\<lambda>d. d\<lparr>token := src_token, deriv_parent := deriv_parent s,
                        deriv_first_child := deriv_first_child s,
                        deriv_prev_sibling := deriv_prev_sibling s,
                        deriv_next_sibling := deriv_next_sibling s\<rparr>) st;
          st \<leftarrow> modify_opt (deriv_parent s) (fix_first src_id dst_id) st;
          st \<leftarrow> modify_opt (deriv_prev_sibling s) (fix_next src_id dst_id) st;
          st \<leftarrow> modify_opt (deriv_next_sibling s) (fix_prev src_id dst_id) st;
          st \<leftarrow> move_children dst_id (deriv_first_child s) st;
          ptr_free_slot src_cspace src_idx st
        })
   }"

definition move_cap_between_cspaces ::
  "ptr \<Rightarrow> nat \<Rightarrow> ptr \<Rightarrow> cap_state \<Rightarrow> ((syscall_error, nat) result \<times> cap_state) run"
where
  "move_cap_between_cspaces src_cspace src_idx dst_cspace st = do {
     r \<leftarrow> ptr_slot src_cspace src_idx st;
     (case r of
        None \<Rightarrow> ret (Inl InvalidCapability, st)
      | Some s \<Rightarrow>
          (if tag s = TagNull then ret (Inl InvalidCapability, st)
           else case object s of
             None \<Rightarrow> ret (Inl InvalidCapability, st)
           | Some ob \<Rightarrow> do {
               src_cs \<leftarrow> cspace_at src_cspace st;
               dst_cs \<leftarrow> cspace_at dst_cspace st;
               (res, st) \<leftarrow> ptr_insert_cap dst_cspace (tag s) (rights s) ob st;
               (case res of
                  Inl _ \<Rightarrow> ret (Inl ErrOutOfMemory, st)
                | Inr new_idx \<Rightarrow> do {
                    src_id \<leftarrow> SlotId_new (cs_id src_cs) src_idx;
                    dst_id \<leftarrow> SlotId_new (cs_id dst_cs) new_idx;
                    st \<leftarrow> relink_moved src_cspace src_idx dst_cspace new_idx src_id dst_id (token s) st;
                    ret (Inr new_idx, st)
                  })
             }))
   }"

section \<open>Links of a well-formed forest\<close>

lemma tree_first_back:
  assumes t: "tree_rep h ch {}" and x: "h x = Some sx" "deriv_first_child sx = Some y"
  shows "\<exists>sy. h y = Some sy \<and> deriv_parent sy = Some x \<and> deriv_prev_sibling sy = None"
proof -
  have "y \<in> set (ch x)" "dll h (Some y) (ch x)"
    using tree_first [OF t x(1)] tree_dll [OF t x(1)] x(2) by (auto split: list.splits)
  then show ?thesis using tree_child [OF t, of y x] by (cases "ch x") (auto simp: dll_def)
qed

lemma tree_next_back:
  assumes t: "tree_rep h ch {}" and x: "h x = Some sx" "deriv_next_sibling sx = Some y"
  shows "\<exists>sy. h y = Some sy \<and> deriv_prev_sibling sy = Some x \<and> deriv_parent sy = deriv_parent sx"
proof -
  obtain p where p: "deriv_parent sx = Some p" using tree_root [OF t x(1)] x(2) by (cases "deriv_parent sx") auto
  obtain us vs l where u: "ch p = us @ x # vs" "dseg h (Some x) (Some y) vs l None"
    by (rule tree_split [OF t x(1) _ p], simp) (use x(2) that in auto)
  then obtain ws where "vs = y # ws" by (cases vs) auto
  then show ?thesis using u tree_child [OF t, of y p] p by auto
qed

lemma tree_prev_back:
  assumes t: "tree_rep h ch {}" and x: "h x = Some sx" "deriv_prev_sibling sx = Some y"
  shows "\<exists>sy. h y = Some sy \<and> deriv_next_sibling sy = Some x \<and> deriv_parent sy = deriv_parent sx"
proof -
  obtain p where p: "deriv_parent sx = Some p" using tree_root [OF t x(1)] x(2) by (cases "deriv_parent sx") auto
  obtain us vs sp where u: "ch p = us @ x # vs" "h p = Some sp"
      "dseg h None (deriv_first_child sp) us (deriv_prev_sibling sx) (Some x)"
      "deriv_prev_sibling sx = (if us = [] then None else Some (last us))"
    by (rule tree_split [OF t x(1) _ p], simp) (rule that)
  then obtain ws where ws: "us = ws @ [y]" using x(2) by (metis append_butlast_last_id option.discI option.inject)
  then have "y \<in> set (ch p)" using u(1) by auto
  then show ?thesis using u(3) ws tree_child [OF t, of y p] p by (auto simp: dseg_append)
qed

text \<open>In a forest the links to a node \<open>n\<close> come only from its parent, its siblings and its
  children.\<close>

lemma links_to:
  assumes t: "tree_rep h ch {}" and n: "h n = Some s" and x: "h x = Some sx"
  shows "deriv_first_child sx = Some n \<Longrightarrow> deriv_parent s = Some x"
    and "deriv_next_sibling sx = Some n \<longleftrightarrow> deriv_prev_sibling s = Some x"
    and "deriv_prev_sibling sx = Some n \<longleftrightarrow> deriv_next_sibling s = Some x"
    and "deriv_parent sx = Some n \<longleftrightarrow> x \<in> set (ch n)"
  using tree_first_back [OF t x] tree_next_back [OF t x] tree_prev_back [OF t x]
    tree_next_back [OF t n] tree_prev_back [OF t n] n x tree_parent [OF t x] tree_child [OF t, of x n]
  by (fastforce, fastforce, fastforce, fastforce)

lemma links_live:
  assumes t: "tree_rep h ch {}" and x: "h x = Some sx"
    and "y \<in> set_option (deriv_parent sx) \<union> set_option (deriv_first_child sx) \<union>
      set_option (deriv_next_sibling sx) \<union> set_option (deriv_prev_sibling sx)"
  shows "h y \<noteq> None \<and> y \<noteq> x"
proof -
  note s = tree_irrefl [OF t, of x] tree_first_back [OF t x] tree_next_back [OF t x] tree_prev_back [OF t x]
  have "deriv_parent sx = Some y \<Longrightarrow> ?thesis"
    using tree_parent [OF t x] tree_live [OF t, of x y] s(1) by auto
  moreover have "deriv_first_child sx = Some y \<Longrightarrow> ?thesis"
    using s(1,2) tree_first [OF t x] by (auto split: list.splits)
  moreover have "y \<noteq> x" if "deriv_next_sibling sx = Some y \<or> deriv_prev_sibling sx = Some y"
    using that tree_unlink_ready [OF t x] x by (auto simp: unlink_ready_def)
  ultimately show ?thesis using assms(3) s(3,4) by fastforce
qed

section \<open>The move on the map of live capabilities\<close>

lemma move_children_spec:
  assumes "st_ok st" "llist (next_of (gcaps st)) cur ys" "\<forall>y \<in> set ys. gcaps st y \<noteq> None"
  shows "\<exists>st'. move_children m cur st = ret st' \<and> st_ok st' \<and> same_spaces st st' \<and>
    gcaps st' = (\<lambda>x. if x \<in> set ys then map_option (\<lambda>s. s\<lparr>deriv_parent := Some m\<rparr>) (gcaps st x)
                     else gcaps st x)"
  using assms
proof (induction ys arbitrary: st cur)
  case Nil
  then show ?case by (simp add: move_children.simps)
next
  case (Cons y ys)
  let ?f = "\<lambda>s. s\<lparr>deriv_parent := Some m\<rparr>"
  obtain sy where sy: "gcaps st y = Some sy" using Cons.prems(3) by auto
  have cur: "cur = Some y" and ys: "llist (next_of (gcaps st)) (next_of (gcaps st) y) ys"
    and d: "y \<notin> set ys"
    using Cons.prems(2) llist_distinct [OF Cons.prems(2)] by auto
  obtain st1 where st1: "modify_slot y ?f st = ret st1" "st_ok st1" "same_spaces st st1"
      "gcaps st1 = (gcaps st)(y \<mapsto> ?f sy)"
    using modify_link [OF Cons.prems(1) sy, of ?f] by auto
  have nx: "next_of (gcaps st1) = next_of (gcaps st)" using sy by (auto simp: next_of_def st1(4))
  have "\<forall>z \<in> set ys. gcaps st1 z \<noteq> None" using Cons.prems(3) st1(4) by auto
  with Cons.IH [OF st1(2) ys [folded nx]] obtain st' where
    st': "move_children m (next_of (gcaps st) y) st1 = ret st'" "st_ok st'" "same_spaces st1 st'"
      "gcaps st' = (\<lambda>x. if x \<in> set ys then map_option ?f (gcaps st1 x) else gcaps st1 x)"
    unfolding nx by auto
  have "move_children m cur st = ret st'"
    using st'(1) st1(1) resolve_cap [OF sy] sy
    by (simp add: cur move_children.simps [of m "Some y"] next_of_def)
  moreover have "gcaps st' = (\<lambda>x. if x \<in> set (y # ys) then map_option ?f (gcaps st x) else gcaps st x)"
    using sy d unfolding st'(4) st1(4) by auto
  ultimately show ?case using st'(2) same_spaces_trans [OF st1(3) st'(3)] by blast
qed

lemma modify_opt_caps:
  assumes "st_ok st" "\<forall>x. q = Some x \<longrightarrow> gcaps st x \<noteq> None" "\<And>s. is_null (f s) = is_null s"
  shows "\<exists>st'. modify_opt q f st = ret st' \<and> st_ok st' \<and> same_spaces st st' \<and>
    gcaps st' = (\<lambda>x. if q = Some x then map_option f (gcaps st x) else gcaps st x)"
proof -
  from modify_link_opt [OF assms] obtain st' where
    st': "modify_opt q f st = ret st'" "st_ok st'" "same_spaces st st'"
      "gcaps st' = (case q of None \<Rightarrow> gcaps st | Some x \<Rightarrow> (gcaps st)(x \<mapsto> f (the (gcaps st x))))"
    unfolding modify_opt_def by blast
  moreover have "(case q of None \<Rightarrow> gcaps st | Some x \<Rightarrow> (gcaps st)(x \<mapsto> f (the (gcaps st x))))
      = (\<lambda>x. if q = Some x then map_option f (gcaps st x) else gcaps st x)"
    using assms(2) by (auto simp: fun_eq_iff split: option.splits)
  ultimately show ?thesis by auto
qed

lemma ptr_modify_cap:
  assumes ok: "st_ok st" and p: "registered st p c"
    and x: "gcaps st \<lparr>cspace_id = c, index = i\<rparr> = Some s" and f: "\<not> is_null (f s)"
  shows "\<exists>st'. ptr_modify p i f st = ret st' \<and> st_ok st' \<and> same_spaces st st' \<and>
    gcaps st' = (gcaps st)(\<lparr>cspace_id = c, index = i\<rparr> \<mapsto> f s)"
proof -
  obtain cs where cs: "cs_heap st p = Some cs" "cs_ok cs" using registered_cspace [OF ok p] by auto
  have c: "caps cs i = Some s" using registered_gcaps [OF ok p cs(1)] x by simp
  note put = cs_ok_put [OF cs(2) c f]
  note pc = put_cspace_ok(1,2) [OF ok p cs(1) put(1)] put_cspace_upd [OF ok p cs(1) put(1) _ _ put(2)]
  show ?thesis using cs(1) slot_of_caps [OF c] pc by (auto simp: ptr_modify_def cspace_at_def)
qed

lemma fix_sel [simp]:
  "is_null (fix_first n m d) = is_null d" "is_null (fix_next n m d) = is_null d"
  "is_null (fix_prev n m d) = is_null d"
  by (simp_all add: fix_first_def fix_next_def fix_prev_def)

text \<open>What the redirections do to slot \<open>x\<close>, a neighbour of the moved slot \<open>s\<close> or not.\<close>

definition redirect ::
  "slot_id \<Rightarrow> slot_id \<Rightarrow> capability_slot \<Rightarrow> slot_id \<Rightarrow> capability_slot \<Rightarrow> capability_slot"
where
  "redirect n m s x d =
     (let a = (if deriv_parent s = Some x then fix_first n m d else d);
          b = (if deriv_prev_sibling s = Some x then fix_next n m a else a)
      in if deriv_next_sibling s = Some x then fix_prev n m b else b)"

lemma redirect_steps:
  assumes ok: "st_ok st" and "\<forall>x. deriv_parent s = Some x \<or> deriv_prev_sibling s = Some x \<or>
      deriv_next_sibling s = Some x \<longrightarrow> gcaps st x \<noteq> None"
  shows "\<exists>st'. do { st \<leftarrow> modify_opt (deriv_parent s) (fix_first n m) st;
      st \<leftarrow> modify_opt (deriv_prev_sibling s) (fix_next n m) st;
      modify_opt (deriv_next_sibling s) (fix_prev n m) st } = ret st' \<and> st_ok st' \<and> same_spaces st st' \<and>
    gcaps st' = (\<lambda>x. map_option (redirect n m s x) (gcaps st x))"
proof -
  from modify_opt_caps [OF ok, of "deriv_parent s" "fix_first n m"] assms(2) obtain st1 where
    st1: "modify_opt (deriv_parent s) (fix_first n m) st = ret st1" "st_ok st1" "same_spaces st st1"
      "gcaps st1 = (\<lambda>x. if deriv_parent s = Some x then map_option (fix_first n m) (gcaps st x) else gcaps st x)"
    by auto
  have "\<forall>x. deriv_prev_sibling s = Some x \<longrightarrow> gcaps st1 x \<noteq> None" using assms(2) st1(4) by auto
  from modify_opt_caps [OF st1(2) this, of "fix_next n m"] obtain st2 where
    st2: "modify_opt (deriv_prev_sibling s) (fix_next n m) st1 = ret st2" "st_ok st2" "same_spaces st1 st2"
      "gcaps st2 = (\<lambda>x. if deriv_prev_sibling s = Some x then map_option (fix_next n m) (gcaps st1 x) else gcaps st1 x)"
    by auto
  have "\<forall>x. deriv_next_sibling s = Some x \<longrightarrow> gcaps st2 x \<noteq> None" using assms(2) st1(4) st2(4) by auto
  from modify_opt_caps [OF st2(2) this, of "fix_prev n m"] obtain st3 where
    st3: "modify_opt (deriv_next_sibling s) (fix_prev n m) st2 = ret st3" "st_ok st3" "same_spaces st2 st3"
      "gcaps st3 = (\<lambda>x. if deriv_next_sibling s = Some x then map_option (fix_prev n m) (gcaps st2 x) else gcaps st2 x)"
    by auto
  have "gcaps st3 x = map_option (redirect n m s x) (gcaps st x)" for x
    unfolding st3(4) st2(4) st1(4) by (cases "gcaps st x") (simp_all add: redirect_def)
  then have "gcaps st3 = (\<lambda>x. map_option (redirect n m s x) (gcaps st x))" by auto
  moreover have "same_spaces st st3" using st1(3) st2(3) st3(3) same_spaces_trans by blast
  ultimately show ?thesis using st1(1) st2(1) st3(1,2) by auto
qed

lemma redirect_eq:
  assumes t: "tree_rep h ch {}" and n: "h n = Some s" and x: "h x = Some sx" and m: "h m = None"
  shows "map_links (rename n m) sx =
    (if x \<in> set (ch n) then (redirect n m s x sx)\<lparr>deriv_parent := Some m\<rparr> else redirect n m s x sx)"
proof -
  note l = links_to [OF t n x]
  have ren: "map_option (rename n m) q = (if q = Some n then Some m else q)"
    if "q \<noteq> Some m" for q using that by (cases q) (auto simp: rename_def)
  have "deriv_parent sx \<noteq> Some m" "deriv_first_child sx \<noteq> Some m" "deriv_next_sibling sx \<noteq> Some m"
      "deriv_prev_sibling sx \<noteq> Some m"
    using links_live [OF t x, of m] m by auto
  then show ?thesis using l
    by (cases sx) (auto simp: map_links_def ren redirect_def fix_first_def fix_next_def fix_prev_def Let_def)
qed

lemma redirect_self:
  assumes t: "tree_rep h ch {}" and n: "h n = Some s" and m: "h m = None" and x: "x = m \<or> x = n"
  shows "redirect n m s x d = d"
proof -
  have "deriv_parent s \<noteq> Some x" "deriv_prev_sibling s \<noteq> Some x" "deriv_next_sibling s \<noteq> Some x"
    using links_live [OF t n, of x] x m n by auto
  then show ?thesis by (simp add: redirect_def)
qed

lemma map_links_self:
  assumes t: "tree_rep h ch {}" and n: "h n = Some s" and m: "h m = None"
  shows "map_links (rename n m) s = s"
proof -
  have "map_option (rename n m) q = q" if "q \<noteq> Some m" "q \<noteq> Some n" for q
    using that by (cases q) (auto simp: rename_def)
  moreover have "deriv_parent s \<noteq> Some x \<and> deriv_first_child s \<noteq> Some x \<and>
      deriv_prev_sibling s \<noteq> Some x \<and> deriv_next_sibling s \<noteq> Some x" if "x = m \<or> x = n" for x
    using links_live [OF t n, of x] that m n by auto
  ultimately show ?thesis by (cases s) (simp add: map_links_def)
qed

lemma redirect_next: "x \<noteq> n \<Longrightarrow> deriv_prev_sibling s \<noteq> Some x \<Longrightarrow>
    deriv_next_sibling (redirect n m s x d) = deriv_next_sibling d"
  by (simp add: redirect_def fix_first_def fix_next_def fix_prev_def Let_def)

lemma kid_facts:
  assumes t: "tree_rep h ch {}" and n: "h n = Some s" and m: "h m = None" and y: "y \<in> set (ch n)"
  shows "h y \<noteq> None" "y \<noteq> n" "y \<noteq> m" "deriv_prev_sibling s \<noteq> Some y"
proof -
  obtain sy where sy: "h y = Some sy" "deriv_parent sy = Some n" using tree_child [OF t y] by auto
  show "h y \<noteq> None" "y \<noteq> m" using sy m by auto
  show "y \<noteq> n" using y tree_irrefl [OF t, of n] by auto
  show "deriv_prev_sibling s \<noteq> Some y"
  proof
    assume "deriv_prev_sibling s = Some y"
    then have "deriv_parent s = Some n" using tree_prev_back [OF t n] sy by auto
    then show False using tree_parent [OF t n] tree_irrefl [OF t, of n] by auto
  qed
qed

lemma relink_moved_spec:
  assumes ok: "st_ok st" and t: "tree_rep h ch {}"
    and n: "n = \<lparr>cspace_id = c1, index = i\<rparr>" "h n = Some s"
    and m: "m = \<lparr>cspace_id = c2, index = j\<rparr>" "h m = None"
    and g: "gcaps st = h(m \<mapsto> new_cap (tag s) (rights s) ob)" "object s = Some ob" "\<not> is_null s"
    and reg: "registered st src c1" "registered st dst c2"
  shows "\<exists>st'. relink_moved src i dst j n m (token s) st = ret st' \<and> st_ok st' \<and> same_spaces st st' \<and>
    gcaps st' = rename_map n m h"
proof -
  let ?f0 = "\<lambda>d. d\<lparr>token := token s, deriv_parent := deriv_parent s, deriv_first_child := deriv_first_child s,
      deriv_prev_sibling := deriv_prev_sibling s, deriv_next_sibling := deriv_next_sibling s\<rparr>"
  have f0: "?f0 (new_cap (tag s) (rights s) ob) = s" using g(2) by (cases s) (simp add: new_cap_def)
  have "gcaps st \<lparr>cspace_id = c2, index = j\<rparr> = Some (new_cap (tag s) (rights s) ob)"
    using g(1) m(1) by simp
  from ptr_modify_cap [OF ok reg(2) this, of ?f0] g(3) f0 obtain st0 where
    st0: "ptr_modify dst j ?f0 st = ret st0" "st_ok st0" "same_spaces st st0" "gcaps st0 = h(m \<mapsto> s)"
    using g(1) m(1) by auto
  have "\<forall>x. deriv_parent s = Some x \<or> deriv_prev_sibling s = Some x \<or>
      deriv_next_sibling s = Some x \<longrightarrow> gcaps st0 x \<noteq> None"
    using links_live [OF t n(2)] st0(4) by auto
  from redirect_steps [OF st0(2) this, of n m] obtain st1 where
    st1: "do { st \<leftarrow> modify_opt (deriv_parent s) (fix_first n m) st0;
        st \<leftarrow> modify_opt (deriv_prev_sibling s) (fix_next n m) st;
        modify_opt (deriv_next_sibling s) (fix_prev n m) st } = ret st1" "st_ok st1" "same_spaces st0 st1"
      "gcaps st1 = (\<lambda>x. map_option (redirect n m s x) (gcaps st0 x))" by auto
  note kid = kid_facts [OF t n(2) m(2)]
  have nx: "next_of (gcaps st1) y = next_of h y" if "y \<in> set (ch n)" for y
    using kid [OF that] st0(4) st1(4) redirect_next [of y n s m]
    by (cases "h y") (auto simp: next_of_def)
  have "llist (next_of (gcaps st1)) (deriv_first_child s) (ch n)"
    using dll_llist [OF tree_dll [OF t n(2)]] nx lseg_cong by metis
  moreover have "\<forall>y \<in> set (ch n). gcaps st1 y \<noteq> None" using kid st0(4) st1(4) by auto
  ultimately obtain st2 where st2: "move_children m (deriv_first_child s) st1 = ret st2" "st_ok st2"
      "same_spaces st1 st2" "gcaps st2 = (\<lambda>x. if x \<in> set (ch n)
        then map_option (\<lambda>s. s\<lparr>deriv_parent := Some m\<rparr>) (gcaps st1 x) else gcaps st1 x)"
    using move_children_spec [OF st1(2)] by blast
  have nn: "n \<notin> set (ch n)" "n \<noteq> m" using tree_irrefl [OF t] n(2) m(2) by auto
  have "gcaps st2 \<lparr>cspace_id = c1, index = i\<rparr> = Some s"
    using n nn redirect_self [OF t n(2) m(2)] st0(4) st1(4) st2(4) by simp
  moreover have "same_spaces st st2" using st0(3) st1(3) st2(3) same_spaces_trans by blast
  then have "registered st2 src c1" using reg(1) same_spaces_registered by simp
  ultimately obtain st3 where st3: "ptr_free_slot src i st2 = ret st3" "st_ok st3" "same_spaces st2 st3"
      "gcaps st3 = (gcaps st2)(n := None)"
    using ptr_free_slot_ok [OF st2(2)] n(1) by blast
  have "gcaps st3 x = rename_map n m h x" for x
  proof -
    have "x \<noteq> n \<Longrightarrow> x \<noteq> m \<Longrightarrow> rename n m x = x" by (simp add: rename_def)
    moreover have "m \<notin> set (ch n)" using kid by blast
    ultimately show ?thesis
      using nn m(2) n(2) redirect_self [OF t n(2) m(2)] map_links_self [OF t n(2) m(2)]
        redirect_eq [OF t n(2) _ m(2), of x]
      by (cases "x = n"; cases "x = m"; cases "h x")
        (auto simp: st3(4) st2(4) st1(4) st0(4) rename_map_def rename_def)
  qed
  then have "gcaps st3 = rename_map n m h" by auto
  moreover have "ptr_slot src i st = ret (Some s)"
    using ptr_slot_cap [OF ok reg(1), of i s] n g(1) nn by simp
  ultimately show ?thesis
    using st0(1) st1(1) st2(1) st3(1,2) same_spaces_trans [OF \<open>same_spaces st st2\<close> st3(3)]
    by (auto simp: relink_moved_def Option.bind_eq_Some_conv)
qed

lemma move_cap_ok:
  assumes ok: "st_ok st" and t: "tree_rep (gcaps st) ch {}"
    and reg: "registered st src c1" "registered st dst c2"
    and n: "gcaps st \<lparr>cspace_id = c1, index = i\<rparr> = Some s" "object s = Some ob"
    and room: "0 < ptr_room st dst"
  shows "\<exists>j st'. move_cap_between_cspaces src i dst st = ret (Inr j, st') \<and> st_ok st' \<and> same_spaces st st' \<and>
    gcaps st \<lparr>cspace_id = c2, index = j\<rparr> = None \<and> 0 < j \<and>
    gcaps st' = rename_map \<lparr>cspace_id = c1, index = i\<rparr> \<lparr>cspace_id = c2, index = j\<rparr> (gcaps st)"
proof -
  have s: "ptr_slot src i st = ret (Some s)" "\<not> is_null s" "tag s \<noteq> TagNull"
    using ptr_slot_cap [OF ok reg(1), of i s] n(1) by (auto simp: is_null_def)
  obtain a b where ab: "cs_heap st src = Some a" "cs_id a = c1" "cs_heap st dst = Some b" "cs_id b = c2"
    using registered_cspace [OF ok] reg by metis
  obtain j st1 where j: "ptr_insert_cap dst (tag s) (rights s) ob st = ret (Inr j, st1)" "st_ok st1"
      "same_spaces st st1" "0 < j" "gcaps st \<lparr>cspace_id = c2, index = j\<rparr> = None"
      "gcaps st1 = (gcaps st)(\<lparr>cspace_id = c2, index = j\<rparr> \<mapsto> new_cap (tag s) (rights s) ob)"
    using ptr_insert_cap_ok [OF ok reg(2) s(3) room] by blast
  have r1: "registered st1 src c1" "registered st1 dst c2"
    using reg same_spaces_registered [OF j(3)] by auto
  have "0 < i" using gcaps_index [OF ok n(1)] by simp
  then show ?thesis
    using relink_moved_spec [OF j(2) t refl n(1) refl j(5,6) n(2) s(2) r1] s ab j same_spaces_trans n(2)
    by (fastforce simp: move_cap_between_cspaces_def cspace_at_def SlotId_new_def)
qed

lemma move_cap_full:
  assumes ok: "st_ok st" and reg: "registered st src c1" "registered st dst c2"
    and n: "gcaps st \<lparr>cspace_id = c1, index = i\<rparr> = Some s" "object s = Some ob"
    and room: "ptr_room st dst = 0"
  shows "move_cap_between_cspaces src i dst st = ret (Inl ErrOutOfMemory, st)"
proof -
  have s: "ptr_slot src i st = ret (Some s)" "tag s \<noteq> TagNull"
    using ptr_slot_cap [OF ok reg(1), of i s] n(1) by (auto simp: is_null_def)
  obtain a b where "cs_heap st src = Some a" "cs_heap st dst = Some b"
    using registered_cspace [OF ok] reg by metis
  then show ?thesis
    using s n(2) ptr_insert_cap_full [OF ok reg(2) s(2) room]
    by (simp add: move_cap_between_cspaces_def cspace_at_def)
qed

section \<open>Properties\<close>

text \<open>(C3) Moving a capability. With room in the destination, \<open>move_cap_between_cspaces\<close> returns the
  index of a slot that was empty, the capability with its rights, token and object is then in that
  slot and no longer in the source, and the derivation forest is the old one with this one node
  renamed: its parent, its place among its siblings and its children are the ones it had. With no
  room it returns \<open>OutOfMemory\<close> and nothing changes.\<close>

theorem move_cap_renames:
  assumes "st_ok st" "tree_rep (gcaps st) ch {}" "registered st src c1" "registered st dst c2"
    and "gcaps st \<lparr>cspace_id = c1, index = i\<rparr> = Some s" "object s = Some ob"
  shows "if ptr_room st dst = 0 then move_cap_between_cspaces src i dst st = ret (Inl ErrOutOfMemory, st)
    else \<exists>j st'. let n = \<lparr>cspace_id = c1, index = i\<rparr>; m = \<lparr>cspace_id = c2, index = j\<rparr> in
      move_cap_between_cspaces src i dst st = ret (Inr j, st') \<and> st_ok st' \<and>
      gcaps st m = None \<and> gcaps st' n = None \<and>
      same_payload ((gcaps st)(n := None, m \<mapsto> s)) (gcaps st') \<and>
      tree_rep (gcaps st') (\<lambda>x. map (rename n m) (ch (rename n m x))) {}"
proof (cases "ptr_room st dst = 0")
  case True
  then show ?thesis using move_cap_full [OF assms(1,3-6)] by simp
next
  case False
  then obtain j st' where j: "move_cap_between_cspaces src i dst st = ret (Inr j, st')" "st_ok st'"
      "gcaps st \<lparr>cspace_id = c2, index = j\<rparr> = None"
      "gcaps st' = rename_map \<lparr>cspace_id = c1, index = i\<rparr> \<lparr>cspace_id = c2, index = j\<rparr> (gcaps st)"
    using move_cap_ok [OF assms] by auto
  let ?n = "\<lparr>cspace_id = c1, index = i\<rparr>" and ?m = "\<lparr>cspace_id = c2, index = j\<rparr>"
  have "?n \<noteq> ?m" using j(3) assms(5) by auto
  then have "gcaps st' ?n = None" using j(3,4) by (simp add: rename_map_def rename_def)
  moreover have "same_payload ((gcaps st)(?n := None, ?m \<mapsto> s)) (gcaps st')"
    using j(3) assms(5) \<open>?n \<noteq> ?m\<close>
    by (auto simp: j(4) same_payload_def rename_map_def rename_def option.map_comp comp_def payload_def map_links_def
        intro!: option.map_cong)
  ultimately show ?thesis
    using False j rename_tree [OF assms(2), of ?n ?m] by (auto simp: Let_def)
qed

theorem move_cap_renames_witness:
  "\<exists>i st j st'. ptr_insert_cap 10 TagSignal WAIT 7 two_spaces = ret (Inr i, st) \<and>
     move_cap_between_cspaces 10 i 20 st = ret (Inr j, st') \<and> gcaps st' \<lparr>cspace_id = 1, index = i\<rparr> = None"
proof -
  obtain i st where i: "ptr_insert_cap 10 TagSignal WAIT 7 two_spaces = ret (Inr i, st)" "st_ok st"
      "same_spaces two_spaces st" "gcaps st = [\<lparr>cspace_id = 1, index = i\<rparr> \<mapsto> new_cap TagSignal WAIT 7]"
    using ptr_insert_cap_ok [OF two_spaces_ok(1,3) _ two_spaces_ok(5), of TagSignal WAIT 7]
    by (auto simp: two_spaces_ok(2))
  have reg: "registered st 10 1" "registered st 20 2"
    using two_spaces_ok(3,4) same_spaces_registered [OF i(3)] by auto
  have "tree_rep (gcaps st) (\<lambda>_. []) {}" unfolding i(4) by (rule tree_insert [OF tree_empty]) simp_all
  from move_cap_renames [OF i(2) this reg, of i "new_cap TagSignal WAIT 7" 7]
  show ?thesis
    using i(1,4) ptr_insert_cap_other [OF i(1), of 20] two_spaces_ok(6)
    by (auto simp: Let_def new_cap_def ptr_room_def)
qed

end
