(* ===== verification/Trap_Frame.thy ===== *)
theory Trap_Frame
  imports Syscall_Abi
begin

text \<open>
  The x86-64 register frame saved at every kernel entry (\<open>kernel/src/arch/x86_64/trap_frame.rs\<close>),
  its accessors, and \<open>validate_write_regs\<close> of \<open>kernel/src/syscall/thread.rs\<close>, which sanitises a
  frame that user space asks the kernel to load into another thread.
\<close>

unbundle bit_operations_syntax

section \<open>The frame\<close>

record trap_frame =
  rax :: u64
  rbx :: u64
  rcx :: u64
  rdx :: u64
  rsi :: u64
  rdi :: u64
  rbp :: u64
  r8 :: u64
  r9 :: u64
  r10 :: u64
  r11 :: u64
  r12 :: u64
  r13 :: u64
  r14 :: u64
  r15 :: u64
  rip :: u64
  rflags :: u64
  rsp :: u64
  tf_cs :: u64
  tf_ss :: u64
  fs_base :: u64

definition TRAP_FRAME_WORDS :: nat where "TRAP_FRAME_WORDS = 21"
definition USER_CS :: u64 where "USER_CS = 0x23"
definition USER_DS :: u64 where "USER_DS = 0x1B"

text \<open>The memory image of a frame: its words in the order of the fields.\<close>

definition frame_words :: "trap_frame \<Rightarrow> u64 list" where
  "frame_words f = [rax f, rbx f, rcx f, rdx f, rsi f, rdi f, rbp f, r8 f, r9 f, r10 f, r11 f, r12 f,
     r13 f, r14 f, r15 f, rip f, rflags f, rsp f, tf_cs f, tf_ss f, fs_base f]"

definition frame_of :: "(nat \<Rightarrow> u64) \<Rightarrow> trap_frame" where
  "frame_of w = \<lparr>rax = w 0, rbx = w 1, rcx = w 2, rdx = w 3, rsi = w 4, rdi = w 5, rbp = w 6,
     r8 = w 7, r9 = w 8, r10 = w 9, r11 = w 10, r12 = w 11, r13 = w 12, r14 = w 13, r15 = w 14,
     rip = w 15, rflags = w 16, rsp = w 17, tf_cs = w 18, tf_ss = w 19, fs_base = w 20\<rparr>"

definition zero_frame :: trap_frame where
  "zero_frame = frame_of (\<lambda>_. 0)"

definition syscall_nr :: "trap_frame \<Rightarrow> u64" where
  "syscall_nr f = rax f"

definition set_return :: "int \<Rightarrow> trap_frame \<Rightarrow> trap_frame" where
  "set_return v f = f\<lparr>rax := word_of_int v\<rparr>"

definition arg :: "nat \<Rightarrow> trap_frame \<Rightarrow> u64" where
  "arg n f = (if n = 0 then rdi f else if n = 1 then rsi f else if n = 2 then rdx f
     else if n = 3 then r10 f else if n = 4 then r8 f else if n = 5 then r9 f else 0)"

definition set_ipc_return :: "u64 \<Rightarrow> u64 \<Rightarrow> trap_frame \<Rightarrow> trap_frame" where
  "set_ipc_return primary l f = f\<lparr>rax := primary, rdx := l\<rparr>"

definition set_ipc_return_with_token :: "u64 \<Rightarrow> u64 \<Rightarrow> u64 \<Rightarrow> trap_frame \<Rightarrow> trap_frame" where
  "set_ipc_return_with_token primary l tok f = f\<lparr>rax := primary, rdx := l, rsi := tok\<rparr>"

definition init_user :: "u64 \<Rightarrow> u64 \<Rightarrow> trap_frame \<Rightarrow> trap_frame" where
  "init_user entry stack f =
     f\<lparr>rip := entry, rsp := stack, tf_cs := USER_CS, tf_ss := USER_DS, rflags := 0x202\<rparr>"

definition set_arg0 :: "u64 \<Rightarrow> trap_frame \<Rightarrow> trap_frame" where
  "set_arg0 v f = f\<lparr>rdi := v\<rparr>"

text \<open>A register read as a \<open>u32\<close>, \<open>u8\<close> or \<open>usize\<close> argument.\<close>

definition arg32 :: "nat \<Rightarrow> trap_frame \<Rightarrow> nat" where
  "arg32 n f = unat (ucast (arg n f) :: u32)"

definition arg8 :: "nat \<Rightarrow> trap_frame \<Rightarrow> nat" where
  "arg8 n f = unat (ucast (arg n f) :: u8)"

lemma frame_of_words [simp]: "frame_of (\<lambda>i. frame_words f ! i) = f"
  by (cases f) (simp add: frame_of_def frame_words_def)

lemma length_frame_words [simp]: "length (frame_words f) = TRAP_FRAME_WORDS"
  by (simp add: frame_words_def TRAP_FRAME_WORDS_def)

section \<open>Validating a frame from user space\<close>

definition USER_ADDR_MASK :: u64 where "USER_ADDR_MASK = 0xFFFF800000000000"

definition validate_write_regs :: "trap_frame \<Rightarrow> (syscall_error, trap_frame) result" where
  "validate_write_regs regs =
     (if rip regs AND USER_ADDR_MASK \<noteq> 0 then Inl InvalidArgument
      else if rsp regs AND USER_ADDR_MASK \<noteq> 0 then Inl InvalidArgument
      else Inr (regs\<lparr>tf_cs := USER_CS, tf_ss := USER_DS,
                    rflags := (rflags regs OR 0x202) AND NOT 0x13F000\<rparr>))"

text \<open>The canonical user half: bits 47 to 63 are zero.\<close>

definition user_address :: "u64 \<Rightarrow> bool" where
  "user_address a \<longleftrightarrow> unat a < 2 ^ 47"

lemma user_addr_mask: "(a AND USER_ADDR_MASK = 0) = user_address a"
proof -
  have e: "USER_ADDR_MASK = push_bit 47 (mask 17)"
    by (simp add: USER_ADDR_MASK_def push_bit_eq_mult mask_eq_exp_minus_1)
  have m: "bit USER_ADDR_MASK n \<longleftrightarrow> 47 \<le> n \<and> n < 64" for n
    unfolding e by (auto simp: bit_simps)
  have "a AND USER_ADDR_MASK = push_bit 47 (drop_bit 47 a)"
    by (intro bit_word_eqI) (auto simp: bit_simps m)
  also have "\<dots> = 0 \<longleftrightarrow> drop_bit 47 a = 0"
  proof
    assume z: "push_bit 47 (drop_bit 47 a) = 0"
    show "drop_bit 47 a = 0"
    proof (rule bit_word_eqI)
      fix n
      show "bit (drop_bit 47 a) n = bit (0 :: u64) n"
        using arg_cong [OF z, of "\<lambda>w. bit w (47 + n)"] bit_imp_le_length [of a "47 + n"]
        by (auto simp: bit_simps)
    qed
  qed simp
  also have "\<dots> \<longleftrightarrow> unat (drop_bit 47 a) = 0"
    by (simp add: unat_eq_zero)
  also have "\<dots> \<longleftrightarrow> unat a < 2 ^ 47"
    by (simp only: unat_drop_bit_eq) (simp add: drop_bit_eq_div div_eq_0_iff)
  finally show ?thesis by (simp add: user_address_def)
qed


text \<open>The bits of the flags mask: IOPL and NT (12 to 14), 15, RF (16), VM (17) and VIP (20).\<close>

lemma flag_bits:
  "bit (0x202 :: u64) n \<longleftrightarrow> n = 1 \<or> n = 9"
  "bit (0x13F000 :: u64) n \<longleftrightarrow> 12 \<le> n \<and> n \<le> 17 \<or> n = 20"
proof -
  have a: "(0x202 :: u64) = push_bit 1 1 OR push_bit 9 1"
    and b: "(0x13F000 :: u64) = push_bit 12 (mask 6) OR push_bit 20 1"
    by (simp_all add: push_bit_eq_mult mask_eq_exp_minus_1)
  show "bit (0x202 :: u64) n \<longleftrightarrow> n = 1 \<or> n = 9"
    unfolding a bit_or_iff bit_push_bit_iff by (auto simp: bit_1_iff)
  show "bit (0x13F000 :: u64) n \<longleftrightarrow> 12 \<le> n \<and> n \<le> 17 \<or> n = 20"
    unfolding b bit_or_iff bit_push_bit_iff by (auto simp: bit_1_iff bit_mask_iff)
qed

text \<open>(C27) Sanitising written registers. A frame is refused exactly when its instruction
  or stack pointer lies outside the user half. An accepted frame selects the ring 3 segments, and
  its flags are those of the caller with bits 1 and 9 (interrupts enabled) set and bits 12 to 17
  (IOPL, NT, RF, VM) and 20 (VIP) cleared; every other register is as supplied. Bit 19 (VIF), which
  the comment lists among the cleared ones, is passed through.\<close>

theorem validate_write_regs_safe:
  "case validate_write_regs regs of
     Inl e \<Rightarrow> e = InvalidArgument \<and> \<not> (user_address (rip regs) \<and> user_address (rsp regs))
   | Inr r \<Rightarrow> user_address (rip r) \<and> user_address (rsp r) \<and> tf_cs r AND 3 = 3 \<and> tf_ss r AND 3 = 3 \<and>
       (\<forall>n. bit (rflags r) n \<longleftrightarrow> (bit (rflags regs) n \<or> n = 1 \<or> n = 9) \<and> n \<notin> {12..17} \<union> {20}) \<and>
       r = regs\<lparr>tf_cs := USER_CS, tf_ss := USER_DS, rflags := rflags r\<rparr>"
proof -
  have "bit ((rflags regs OR 0x202) AND NOT 0x13F000) n \<longleftrightarrow>
      (bit (rflags regs) n \<or> n = 1 \<or> n = 9) \<and> n \<notin> {12..17} \<union> {20}" for n
  proof (cases "n < 64")
    case True
    then show ?thesis
      unfolding bit_and_iff bit_or_iff bit_not_iff flag_bits by auto
  next
    case False
    then show ?thesis by (auto simp: bit_and_iff bit_or_iff dest: bit_imp_le_length)
  qed
  then show ?thesis
    by (auto simp: validate_write_regs_def user_addr_mask USER_CS_def USER_DS_def)
qed

end
