(* ===== verification/Buddy.thy ===== *)
theory Buddy
  imports Kernel_Prelude
begin

text \<open>
  The physical frame allocator of \<open>kernel/src/mm/buddy.rs\<close>. Free blocks of \<open>2 ^ order\<close> pages are
  recorded in per-order lists whose nodes are slots of two arrays, \<open>addrs\<close> and \<open>nexts\<close>; unused
  slots form one more list, the pool. Slot \<open>0\<close> ends every list.

  The lemmas go through two abstractions. \<open>tracks b bl\<close> relates the arrays to one list of block
  addresses per order; \<open>free_set bl\<close> is the set of page numbers those blocks cover. On top of them
  \<open>buddy_alloc\<close>, \<open>buddy_free\<close>, \<open>add_region\<close> and \<open>drain_for_usercaps\<close> are shown to take and return exactly the
  pages they name.
\<close>

unbundle bit_operations_syntax

section \<open>The allocator\<close>

definition PAGE_SIZE :: nat where "PAGE_SIZE = 4096"
definition MAX_ORDER :: nat where "MAX_ORDER = 10"
definition POOL_SIZE :: nat where "POOL_SIZE = 4096"

record buddy =
  addrs :: "nat \<Rightarrow> nat"
  nexts :: "nat \<Rightarrow> nat"
  free_lists :: "nat \<Rightarrow> nat"
  pool_head :: nat
  pool_init :: bool
  free_pages :: nat
  total_pages :: nat

definition BuddyAllocator_new :: buddy where
  "BuddyAllocator_new = \<lparr>addrs = (\<lambda>_. 0), nexts = (\<lambda>_. 0), free_lists = (\<lambda>_. 0), pool_head = 0,
     pool_init = False, free_pages = 0, total_pages = 0\<rparr>"

definition init_pool :: "buddy \<Rightarrow> buddy" where
  "init_pool b = (if pool_init b then b
     else b\<lparr>nexts := (\<lambda>i. if 1 \<le> i \<and> i < POOL_SIZE then i + 1
                         else if i = POOL_SIZE then 0 else nexts b i),
            pool_head := 1, pool_init := True\<rparr>)"

text \<open>An index above \<open>POOL_SIZE\<close> is a failed bounds check of the two arrays.\<close>

definition in_pool :: "nat \<Rightarrow> bool" where
  "in_pool s = (s \<le> POOL_SIZE)"

definition pool_alloc :: "buddy \<Rightarrow> (nat option \<times> buddy) run" where
  "pool_alloc b =
     (if pool_head b = 0 then ret (None, b)
      else if \<not> in_pool (pool_head b) then panic
      else ret (Some (pool_head b), b\<lparr>pool_head := nexts b (pool_head b)\<rparr>))"

definition pool_free :: "nat \<Rightarrow> buddy \<Rightarrow> buddy run" where
  "pool_free s b =
     (if s = 0 \<or> \<not> in_pool s then panic
      else ret (b\<lparr>nexts := (nexts b)(s := pool_head b), pool_head := s\<rparr>))"

text \<open>With no slot left the kernel prints a message and spins for ever.\<close>

definition push_block :: "nat \<Rightarrow> nat \<Rightarrow> buddy \<Rightarrow> buddy run" where
  "push_block order addr b =
     do {
       (s, b) \<leftarrow> pool_alloc (init_pool b);
       case s of
         None \<Rightarrow> panic
       | Some s \<Rightarrow>
           if order > MAX_ORDER then panic
           else ret (b\<lparr>addrs := (addrs b)(s := addr),
                      nexts := (nexts b)(s := free_lists b order),
                      free_lists := (free_lists b)(order := s),
                      free_pages := free_pages b + 2 ^ order\<rparr>)
     }"

definition pop_block :: "nat \<Rightarrow> buddy \<Rightarrow> (nat option \<times> buddy) run" where
  "pop_block order b =
     (if order > MAX_ORDER then panic
      else let s = free_lists b order in
        if s = 0 then ret (None, b)
        else if \<not> in_pool s then panic
        else do {
          b \<leftarrow> pool_free s (b\<lparr>free_lists := (free_lists b)(order := nexts b s)\<rparr>);
          if free_pages b < 2 ^ order then panic
          else ret (Some (addrs b s), b\<lparr>free_pages := free_pages b - 2 ^ order\<rparr>)
        })"

partial_function (option) remove_scan ::
  "nat \<Rightarrow> nat \<Rightarrow> nat \<Rightarrow> nat \<Rightarrow> buddy \<Rightarrow> (bool \<times> buddy) run" where
  "remove_scan order target prev cur b =
     (if cur = 0 then ret (False, b)
      else if \<not> in_pool cur then panic
      else if addrs b cur = target then
        do {
          b \<leftarrow> pool_free cur
                 (if prev = 0 then b\<lparr>free_lists := (free_lists b)(order := nexts b cur)\<rparr>
                  else b\<lparr>nexts := (nexts b)(prev := nexts b cur)\<rparr>);
          if free_pages b < 2 ^ order then panic
          else ret (True, b\<lparr>free_pages := free_pages b - 2 ^ order\<rparr>)
        }
      else remove_scan order target cur (nexts b cur) b)"

definition remove_block :: "nat \<Rightarrow> nat \<Rightarrow> buddy \<Rightarrow> (bool \<times> buddy) run" where
  "remove_block order target b =
     (if order > MAX_ORDER then panic else remove_scan order target 0 (free_lists b order) b)"

definition region_order :: "nat \<Rightarrow> nat \<Rightarrow> nat" where
  "region_order cursor remaining =
     (case find (\<lambda>o'. 2 ^ o' \<le> remaining \<and> (PAGE_SIZE * 2 ^ o') dvd cursor) (rev [0..<Suc MAX_ORDER])
      of None \<Rightarrow> 0 | Some o' \<Rightarrow> o')"

function add_blocks :: "nat \<Rightarrow> nat \<Rightarrow> buddy \<Rightarrow> buddy run" where
  "add_blocks cursor stop b =
     (if cursor < stop then
        let order = region_order cursor ((stop - cursor) div PAGE_SIZE) in
        case push_block order cursor b of
          None \<Rightarrow> panic
        | Some b \<Rightarrow> add_blocks (cursor + PAGE_SIZE * 2 ^ order) stop b
      else ret b)"
  by auto
termination
  by (relation "measure (\<lambda>(cursor, stop, b). stop - cursor)") (auto simp: PAGE_SIZE_def intro!: diff_less_mono2)

declare add_blocks.simps [simp del]

definition add_region :: "nat \<Rightarrow> nat \<Rightarrow> buddy \<Rightarrow> buddy run" where
  "add_region start stop b =
     (if \<not> PAGE_SIZE dvd start \<or> \<not> PAGE_SIZE dvd stop then panic
      else if start \<ge> stop then ret b
      else add_blocks start stop (b\<lparr>total_pages := total_pages b + (stop - start) div PAGE_SIZE\<rparr>))"

fun split_block :: "nat \<Rightarrow> nat \<Rightarrow> nat \<Rightarrow> buddy \<Rightarrow> buddy run" where
  "split_block order block cur b =
     (if order < cur then
        do {
          b \<leftarrow> push_block (cur - 1) (block + PAGE_SIZE * 2 ^ (cur - 1)) b;
          split_block order block (cur - 1) b
        }
      else ret b)"

declare split_block.simps [simp del]

definition buddy_alloc :: "nat \<Rightarrow> buddy \<Rightarrow> (nat option \<times> buddy) run" where
  "buddy_alloc order b =
     (if order > MAX_ORDER then ret (None, b)
      else case find (\<lambda>o'. free_lists b o' \<noteq> 0) [order..<Suc MAX_ORDER] of
        None \<Rightarrow> ret (None, b)
      | Some source \<Rightarrow>
          do {
            (block, b) \<leftarrow> pop_block source b;
            case block of
              None \<Rightarrow> ret (None, b)
            | Some block \<Rightarrow>
                do {
                  b \<leftarrow> split_block order block source b;
                  ret (Some block, b)
                }
          })"

definition buddy_of :: "nat \<Rightarrow> nat \<Rightarrow> nat" where
  "buddy_of order addr = addr XOR (PAGE_SIZE * 2 ^ order)"

function coalesce :: "nat \<Rightarrow> nat \<Rightarrow> buddy \<Rightarrow> buddy run" where
  "coalesce addr order b =
     (if order < MAX_ORDER then
        case remove_block order (buddy_of order addr) b of
          None \<Rightarrow> panic
        | Some (found, b) \<Rightarrow>
            if found then coalesce (min addr (buddy_of order addr)) (order + 1) b
            else push_block order addr b
      else push_block order addr b)"
  by pat_completeness auto
termination
  by (relation "measure (\<lambda>(addr, order, b). MAX_ORDER - order)") auto

declare coalesce.simps [simp del]

definition buddy_free :: "nat \<Rightarrow> nat \<Rightarrow> buddy \<Rightarrow> buddy run" where
  "buddy_free addr order b =
     (if order > MAX_ORDER \<or> \<not> PAGE_SIZE dvd addr then panic else coalesce addr order b)"

text \<open>
  The caller's output slice is the list of entries written so far together with its length.
\<close>

function drain_order ::
  "nat \<Rightarrow> nat \<Rightarrow> nat \<Rightarrow> (nat \<times> nat) list \<Rightarrow> buddy \<Rightarrow> ((nat \<times> nat) list \<times> buddy) run" where
  "drain_order reserve out_len order out b =
     (if free_pages b > reserve \<and> length out < out_len then
        if free_pages b - 2 ^ order < reserve then ret (out, b)
        else case pop_block order b of
          None \<Rightarrow> panic
        | Some (None, b) \<Rightarrow> ret (out, b)
        | Some (Some addr, b) \<Rightarrow> drain_order reserve out_len order (out @ [(addr, order)]) b
      else ret (out, b))"
  by auto
termination
  by (relation "measure (\<lambda>(reserve, out_len, order, out, b). out_len - length out)") auto

declare drain_order.simps [simp del]

fun drain_orders ::
  "nat \<Rightarrow> nat \<Rightarrow> nat list \<Rightarrow> (nat \<times> nat) list \<Rightarrow> buddy \<Rightarrow> ((nat \<times> nat) list \<times> buddy) run" where
  "drain_orders reserve out_len [] out b = ret (out, b)"
| "drain_orders reserve out_len (order # orders) out b =
     do {
       (out, b) \<leftarrow> drain_order reserve out_len order out b;
       drain_orders reserve out_len orders out b
     }"

definition drain_for_usercaps ::
  "nat \<Rightarrow> nat \<Rightarrow> buddy \<Rightarrow> ((nat \<times> nat) list \<times> buddy) run" where
  "drain_for_usercaps reserve_pages out_len b =
     drain_orders reserve_pages out_len (rev [0..<Suc MAX_ORDER]) [] b"

definition free_page_count :: "buddy \<Rightarrow> nat" where
  "free_page_count b = free_pages b"

definition total_page_count :: "buddy \<Rightarrow> nat" where
  "total_page_count b = total_pages b"


section \<open>Slots\<close>

text \<open>
  The eleven free lists and the pool are twelve disjoint lists over the same array of links. List
  number \<open>MAX_ORDER + 1\<close> is the pool.
\<close>

definition slot_link :: "nat \<Rightarrow> nat option" where
  "slot_link n = (if n = 0 then None else Some n)"

abbreviation POOL :: nat where
  "POOL \<equiv> Suc MAX_ORDER"

definition list_heads :: "buddy \<Rightarrow> nat \<Rightarrow> nat" where
  "list_heads b i = (if i = POOL then pool_head b else free_lists b i)"

definition slot_lists :: "(nat \<Rightarrow> nat) \<Rightarrow> (nat \<Rightarrow> nat) \<Rightarrow> (nat \<Rightarrow> nat list) \<Rightarrow> bool" where
  "slot_lists nx H F \<longleftrightarrow>
     (\<forall>i \<le> POOL. llist (slot_link \<circ> nx) (slot_link (H i)) (F i)) \<and>
     (\<forall>i \<le> POOL. set (F i) \<subseteq> {1..POOL_SIZE}) \<and>
     (\<forall>i \<le> POOL. \<forall>j \<le> POOL. i \<noteq> j \<longrightarrow> set (F i) \<inter> set (F j) = {})"

lemma slot_link_simps [simp]: "slot_link 0 = None" "0 < n \<Longrightarrow> slot_link n = Some n" "(slot_link n = None) = (n = 0)"
  "(slot_link n = Some m) = (n = m \<and> 0 < m)"
  by (auto simp: slot_link_def)

lemma slot_listsD:
  assumes "slot_lists nx H F" "i \<le> POOL"
  shows "llist (slot_link \<circ> nx) (slot_link (H i)) (F i)" "distinct (F i)" "set (F i) \<subseteq> {1..POOL_SIZE}"
  using assms llist_distinct by (auto simp: slot_lists_def)

lemma slot_lists_disj:
  "slot_lists nx H F \<Longrightarrow> i \<le> POOL \<Longrightarrow> j \<le> POOL \<Longrightarrow> i \<noteq> j \<Longrightarrow> set (F i) \<inter> set (F j) = {}"
  unfolding slot_lists_def by blast

lemma slot_lists_slot:
  assumes "slot_lists nx H F" "i \<le> POOL" "s \<in> set (F i)"
  shows "0 < s" "in_pool s"
  using slot_listsD(3) [OF assms(1,2)] assms(3) by (auto simp: in_pool_def)

lemma slot_lists_head:
  assumes "slot_lists nx H F" "i \<le> POOL"
  shows "H i = 0 \<longleftrightarrow> F i = []" "F i = s # xs \<Longrightarrow> H i = s"
proof -
  have l: "llist (slot_link \<circ> nx) (slot_link (H i)) (F i)" by (rule slot_listsD(1) [OF assms])
  then show "H i = 0 \<longleftrightarrow> F i = []"
    by (cases "F i") auto
  show "F i = s # xs \<Longrightarrow> H i = s"
    using l by auto
qed

lemma slot_lists_move_head:
  assumes "slot_lists nx H F" "p \<le> POOL" "q \<le> POOL" "p \<noteq> q" "F p = s # xs"
  shows "slot_lists (nx(s := H q)) (H(p := nx s, q := s)) (F(p := xs, q := s # F q))"
proof -
  have ne: "s \<notin> set xs" "0 < s" "s \<in> {1..POOL_SIZE}"
    using slot_listsD(2,3) [OF assms(1,2)] assms(5) by auto
  have nin: "s \<notin> set (F i)" if "i \<le> POOL" "i \<noteq> p" for i
    using slot_lists_disj [OF assms(1) that(1) assms(2) that(2)] assms(5) by auto
  have tl: "llist (slot_link \<circ> nx) (slot_link (nx s)) xs"
    using slot_listsD(1) [OF assms(1,2)] assms(5) by simp
  have lists: "llist (slot_link \<circ> nx) (slot_link (H i)) (F i)" if "i \<le> POOL" for i
    by (rule slot_listsD(1) [OF assms(1) that])
  show ?thesis
    unfolding slot_lists_def fun_upd_comp
  proof (intro conjI allI impI)
    fix i assume i: "i \<le> POOL"
    show "llist ((slot_link \<circ> nx)(s := slot_link (H q))) (slot_link ((H(p := nx s, q := s)) i))
            ((F(p := xs, q := s # F q)) i)"
      using i ne nin tl lists assms(3,4) by auto
    show "set ((F(p := xs, q := s # F q)) i) \<subseteq> {1..POOL_SIZE}"
      using slot_listsD(3) [OF assms(1)] i ne assms(2,3,5) by (auto simp: subset_iff)
    fix j assume j: "j \<le> POOL" "i \<noteq> j"
    show "set ((F(p := xs, q := s # F q)) i) \<inter> set ((F(p := xs, q := s # F q)) j) = {}"
      using slot_lists_disj [OF assms(1) i j(1) j(2)] slot_lists_disj [OF assms(1) assms(2,3,4)]
        slot_lists_disj [OF assms(1) assms(2) i] slot_lists_disj [OF assms(1) assms(2) j(1)]
        nin [OF i] nin [OF j(1)] ne assms(4,5) j(2)
      by auto
  qed
qed

lemma slot_lists_move_inner:
  assumes "slot_lists nx H F" "p \<le> POOL" "q \<le> POOL" "p \<noteq> q" "F p = xs @ y # s # ys"
  shows "slot_lists (nx(y := nx s, s := H q)) (H(q := s)) (F(p := xs @ y # ys, q := s # F q))"
proof -
  have d: "distinct (xs @ y # s # ys)" and ne: "0 < s" "s \<in> {1..POOL_SIZE}" "0 < y"
    using slot_listsD(2,3) [OF assms(1,2)] assms(5) by auto
  have nin: "s \<notin> set (F i)" "y \<notin> set (F i)" if "i \<le> POOL" "i \<noteq> p" for i
    using slot_lists_disj [OF assms(1) that(1) assms(2) that(2)] assms(5) by auto
  have seg: "lseg (slot_link \<circ> nx) (slot_link (H p)) xs (Some y)" "llist (slot_link \<circ> nx) (slot_link (nx s)) ys"
    using slot_listsD(1) [OF assms(1,2)] by (auto simp: assms(5) lseg_append)
  have lists: "llist (slot_link \<circ> nx) (slot_link (H i)) (F i)" if "i \<le> POOL" for i
    by (rule slot_listsD(1) [OF assms(1) that])
  show ?thesis
    unfolding slot_lists_def fun_upd_comp
  proof (intro conjI allI impI)
    fix i assume i: "i \<le> POOL"
    show "llist ((slot_link \<circ> nx)(y := slot_link (nx s), s := slot_link (H q))) (slot_link ((H(q := s)) i))
            ((F(p := xs @ y # ys, q := s # F q)) i)"
      using i d ne nin seg lists assms(3,4) by (auto simp: lseg_append)
    show "set ((F(p := xs @ y # ys, q := s # F q)) i) \<subseteq> {1..POOL_SIZE}"
      using slot_listsD(3) [OF assms(1)] i ne assms(2,3,5) by (auto simp: subset_iff)
    fix j assume j: "j \<le> POOL" "i \<noteq> j"
    show "set ((F(p := xs @ y # ys, q := s # F q)) i) \<inter>
          set ((F(p := xs @ y # ys, q := s # F q)) j) = {}"
      using slot_lists_disj [OF assms(1) i j(1) j(2)] slot_lists_disj [OF assms(1) assms(2,3,4)]
        slot_lists_disj [OF assms(1) assms(2) i] slot_lists_disj [OF assms(1) assms(2) j(1)]
        nin [OF i] nin [OF j(1)] d assms(4,5) j(2)
      by auto
  qed
qed


section \<open>Lists of block addresses\<close>

definition nblocks :: "(nat \<Rightarrow> nat list) \<Rightarrow> nat" where
  "nblocks bl = (\<Sum>i \<le> MAX_ORDER. length (bl i))"

definition npages :: "(nat \<Rightarrow> nat list) \<Rightarrow> nat" where
  "npages bl = (\<Sum>i \<le> MAX_ORDER. length (bl i) * 2 ^ i)"

definition tracks :: "buddy \<Rightarrow> (nat \<Rightarrow> nat list) \<Rightarrow> bool" where
  "tracks b bl \<longleftrightarrow>
     (\<exists>F. slot_lists (nexts (init_pool b)) (list_heads (init_pool b)) F \<and>
          (\<forall>i \<le> MAX_ORDER. bl i = map (addrs b) (F i)) \<and>
          length (F POOL) + nblocks bl = POOL_SIZE) \<and>
     (\<not> pool_init b \<longrightarrow> (\<forall>i \<le> MAX_ORDER. free_lists b i = 0)) \<and>
     free_pages b = npages bl"

lemma nblocks_upd:
  assumes "i \<le> MAX_ORDER"
  shows "nblocks (bl(i := xs)) + length (bl i) = nblocks bl + length xs"
  using assms by (simp add: nblocks_def sum.remove [where x = i])

lemma npages_upd:
  assumes "i \<le> MAX_ORDER"
  shows "npages (bl(i := xs)) + length (bl i) * 2 ^ i = npages bl + length xs * 2 ^ i"
  using assms by (simp add: npages_def sum.remove [where x = i])

lemma npages_ge: "i \<le> MAX_ORDER \<Longrightarrow> length (bl i) * 2 ^ i \<le> npages bl"
  using npages_upd [of i bl "[]"] by simp

lemma init_pool_idem [simp]:
  "pool_init b \<Longrightarrow> init_pool b = b" "pool_init (init_pool b)"
  "addrs (init_pool b) = addrs b" "free_lists (init_pool b) = free_lists b"
  "free_pages (init_pool b) = free_pages b" "total_pages (init_pool b) = total_pages b"
  by (auto simp: init_pool_def)

lemma tracks_init [simp]: "tracks (init_pool b) bl \<longleftrightarrow> tracks b bl" if "tracks b bl \<or> pool_init b"
  using that by (auto simp: tracks_def)

lemma tracks_head:
  assumes "tracks b bl" "i \<le> MAX_ORDER"
  shows "free_lists b i = 0 \<longleftrightarrow> bl i = []"
proof -
  obtain F where F: "slot_lists (nexts (init_pool b)) (list_heads (init_pool b)) F"
    "\<forall>i \<le> MAX_ORDER. bl i = map (addrs b) (F i)"
    using assms(1) unfolding tracks_def by blast
  then show ?thesis
    using slot_lists_head(1) [OF F(1), of i] assms(2) by (simp add: list_heads_def)
qed

lemma push_block_tracks:
  assumes "tracks b bl" "i \<le> MAX_ORDER" "nblocks bl < POOL_SIZE"
  obtains b' where "push_block i a b = ret b'" "tracks b' (bl(i := a # bl i))"
    "total_pages b' = total_pages b"
proof -
  let ?c = "init_pool b"
  obtain F where F: "slot_lists (nexts ?c) (list_heads ?c) F"
    "\<forall>i \<le> MAX_ORDER. bl i = map (addrs b) (F i)" "length (F POOL) + nblocks bl = POOL_SIZE"
    using assms(1) unfolding tracks_def by blast
  then obtain s xs where s: "F POOL = s # xs" using assms(3) by (cases "F POOL") auto
  have h: "pool_head ?c = s" using slot_lists_head(2) [OF F(1) _ s] by (simp add: list_heads_def)
  have sp: "0 < s" "in_pool s" using slot_lists_slot [OF F(1), of POOL s] s by auto
  have nin: "s \<notin> set (F j)" if "j \<le> MAX_ORDER" for j
    using slot_lists_disj [OF F(1), of j POOL] s that by auto
  define b' where "b' = ?c\<lparr>pool_head := nexts ?c s, addrs := (addrs b)(s := a),
    nexts := (nexts ?c)(s := free_lists b i), free_lists := (free_lists b)(i := s),
    free_pages := free_pages b + 2 ^ i\<rparr>"
  have run: "push_block i a b = ret b'"
    using sp h assms(2) by (simp add: push_block_def pool_alloc_def b'_def)
  have "slot_lists (nexts b') (list_heads b') (F(POOL := xs, i := s # F i))"
    using slot_lists_move_head [OF F(1) _ _ _ s, of i] assms(2)
    by (auto simp: b'_def list_heads_def fun_upd_def cong: if_cong elim!: back_subst
        [where P = "\<lambda>H. slot_lists _ H _"])
  moreover have "\<forall>j \<le> MAX_ORDER. (bl(i := a # bl i)) j = map (addrs b') ((F(POOL := xs, i := s # F i)) j)"
    using F(2) nin assms(2) by (auto simp: b'_def)
  moreover have "length ((F(POOL := xs, i := s # F i)) POOL) + nblocks (bl(i := a # bl i)) = POOL_SIZE"
    using F(3) s nblocks_upd [OF assms(2), of bl "a # bl i"] assms(2) by simp
  moreover have "free_pages b' = npages (bl(i := a # bl i))"
    using npages_upd [OF assms(2), of bl "a # bl i"] assms(1) by (simp add: b'_def tracks_def)
  moreover have "pool_init b'" by (simp add: b'_def)
  ultimately have "tracks b' (bl(i := a # bl i))"
    unfolding tracks_def by auto
  then show thesis
    using that run by (simp add: b'_def)
qed


lemma tracks_pool_init: "tracks b bl \<Longrightarrow> i \<le> MAX_ORDER \<Longrightarrow> bl i \<noteq> [] \<Longrightarrow> pool_init b"
  using tracks_head [of b bl i] by (auto simp: tracks_def)

lemma tracks_pages: "tracks b bl \<Longrightarrow> free_pages b = npages bl"
  by (simp add: tracks_def)

lemma pop_block_tracks:
  assumes "tracks b bl" "i \<le> MAX_ORDER" "bl i = a # as"
  obtains b' where "pop_block i b = ret (Some a, b')" "tracks b' (bl(i := as))"
    "total_pages b' = total_pages b"
proof -
  have init: "pool_init b" using tracks_pool_init [OF assms(1,2)] assms(3) by simp
  obtain F where F: "slot_lists (nexts b) (list_heads b) F"
    "\<forall>i \<le> MAX_ORDER. bl i = map (addrs b) (F i)" "length (F POOL) + nblocks bl = POOL_SIZE"
    using assms(1) init unfolding tracks_def by auto
  then obtain s xs where s: "F i = s # xs" "a = addrs b s" "as = map (addrs b) xs"
    using assms(2,3) by (cases "F i") auto
  have h: "free_lists b i = s" using slot_lists_head(2) [OF F(1) _ s(1)] assms(2) by (simp add: list_heads_def)
  have sp: "0 < s" "in_pool s" using slot_lists_slot [OF F(1), of i s] s(1) assms(2) by auto
  have pages: "2 ^ i \<le> free_pages b" "free_pages b = npages bl"
    using npages_ge [OF assms(2), of bl] assms(1,3) by (auto simp: tracks_def)
  define b' where "b' = b\<lparr>free_lists := (free_lists b)(i := nexts b s),
    nexts := (nexts b)(s := pool_head b), pool_head := s, free_pages := free_pages b - 2 ^ i\<rparr>"
  have run: "pop_block i b = ret (Some a, b')"
    using sp h assms(2) pages by (simp add: pop_block_def pool_free_def b'_def Let_def s(2))
  have "slot_lists (nexts b') (list_heads b') (F(i := xs, POOL := s # F POOL))"
    using slot_lists_move_head [OF F(1) _ _ _ s(1), of POOL] assms(2)
    by (auto simp: b'_def list_heads_def fun_upd_def cong: if_cong elim!: back_subst
        [where P = "\<lambda>H. slot_lists _ H _"])
  moreover have "\<forall>j \<le> MAX_ORDER. (bl(i := as)) j = map (addrs b') ((F(i := xs, POOL := s # F POOL)) j)"
    using F(2) s(3) by (auto simp: b'_def)
  moreover have "length ((F(i := xs, POOL := s # F POOL)) POOL) + nblocks (bl(i := as)) = POOL_SIZE"
    using F(3) nblocks_upd [OF assms(2), of bl as] assms(3) by simp
  moreover have "free_pages b' = npages (bl(i := as))"
    using npages_upd [OF assms(2), of bl as] assms(3) pages by (simp add: b'_def)
  moreover have "pool_init b'" using init by (simp add: b'_def)
  ultimately have "tracks b' (bl(i := as))"
    unfolding tracks_def by auto
  then show thesis
    using that run by (simp add: b'_def)
qed

lemma pop_block_empty:
  "tracks b bl \<Longrightarrow> i \<le> MAX_ORDER \<Longrightarrow> bl i = [] \<Longrightarrow> pop_block i b = ret (None, b)"
  using tracks_head [of b bl i] by (simp add: pop_block_def Let_def)

text \<open>A scan of the list \<open>us @ vs\<close> that has passed \<open>us\<close> without a match.\<close>

lemma remove_scan_miss:
  assumes "slot_lists (nexts b) (list_heads b) F" "i \<le> MAX_ORDER" "F i = us @ vs"
    "t \<notin> addrs b ` set vs" "lseg (slot_link \<circ> nexts b) (slot_link cur) vs None"
  shows "remove_scan i t prev cur b = ret (False, b)"
  using assms(3-5)
proof (induction vs arbitrary: us prev cur)
  case Nil
  then show ?case by (simp add: remove_scan.simps)
next
  case (Cons v vs)
  have "0 < v" "in_pool v" using slot_lists_slot [OF assms(1), of i v] assms(2) Cons.prems(1) by auto
  then show ?case
    using Cons.prems Cons.IH [of "us @ [v]" "nexts b v" v] by (subst remove_scan.simps) auto
qed

lemma remove_scan_steps:
  assumes "slot_lists (nexts b) (list_heads b) F" "i \<le> MAX_ORDER" "F i = us @ vs @ s # ys"
    "t \<notin> addrs b ` set vs" "lseg (slot_link \<circ> nexts b) (slot_link cur) vs (Some s)"
    "prev = (if us = [] then 0 else last us)"
  shows "remove_scan i t prev cur b =
         remove_scan i t (if us @ vs = [] then 0 else last (us @ vs)) s b"
  using assms(3-6)
proof (induction vs arbitrary: us prev cur)
  case Nil
  then show ?case by simp
next
  case (Cons v vs)
  have "0 < v" "in_pool v" using slot_lists_slot [OF assms(1), of i v] assms(2) Cons.prems(1) by auto
  then show ?case
    using Cons.prems Cons.IH [of "us @ [v]" "nexts b v" v]
    by (subst remove_scan.simps) auto
qed

lemma remove_block_hit:
  assumes "tracks b bl" "i \<le> MAX_ORDER" "t \<in> set (bl i)"
  obtains b' where "remove_block i t b = ret (True, b')" "tracks b' (bl(i := remove1 t (bl i)))"
    "total_pages b' = total_pages b"
proof -
  have init: "pool_init b" using tracks_pool_init [OF assms(1,2)] assms(3) by (cases "bl i") auto
  obtain F where F: "slot_lists (nexts b) (list_heads b) F"
    "\<forall>i \<le> MAX_ORDER. bl i = map (addrs b) (F i)" "length (F POOL) + nblocks bl = POOL_SIZE"
    using assms(1) init unfolding tracks_def by auto
  obtain xs s ys where s: "F i = xs @ s # ys" "addrs b s = t" "t \<notin> addrs b ` set xs"
  proof -
    have "\<exists>s \<in> set (F i). addrs b s = t" using assms(2,3) F(2) by auto
    from split_list_first_prop [OF this] obtain us v vs
      where "F i = us @ v # vs" "addrs b v = t" "\<forall>y \<in> set us. addrs b y \<noteq> t"
      by blast
    moreover from this have "t \<notin> addrs b ` set us" by blast
    ultimately show thesis using that by blast
  qed
  have rem: "remove1 t (bl i) = map (addrs b) (xs @ ys)"
    using F(2) assms(2) s by (auto simp: remove1_append)
  have sp: "0 < s" "in_pool s" using slot_lists_slot [OF F(1), of i s] s(1) assms(2) by auto
  have l: "llist (slot_link \<circ> nexts b) (slot_link (free_lists b i)) (xs @ s # ys)"
    using slot_listsD(1) [OF F(1), of i] s(1) assms(2) by (simp add: list_heads_def)
  then have seg: "lseg (slot_link \<circ> nexts b) (slot_link (free_lists b i)) xs (Some s)" by (auto simp: lseg_append)
  have pages: "2 ^ i \<le> free_pages b" "free_pages b = npages bl"
  proof -
    have "Suc 0 \<le> length (bl i)" using assms(3) by (cases "bl i") auto
    then have "2 ^ i \<le> length (bl i) * 2 ^ i" by simp
    from order_trans [OF this npages_ge [OF assms(2), of bl]] show "2 ^ i \<le> free_pages b"
      by (simp only: tracks_pages [OF assms(1)])
  qed (use assms(1) in \<open>simp add: tracks_def\<close>)
  have scan: "remove_block i t b = remove_scan i t (if xs = [] then 0 else last xs) s b"
    using remove_scan_steps [OF F(1) assms(2), of "[]" xs s ys t] s seg assms(2)
    by (simp add: remove_block_def)
  define G where "G = F(i := xs @ ys, POOL := s # F POOL)"
  have bls: "\<forall>j \<le> MAX_ORDER. (bl(i := remove1 t (bl i))) j = map (addrs b) (G j)"
    using F(2) rem by (auto simp: G_def)
  have len: "length (G POOL) + nblocks (bl(i := remove1 t (bl i))) = POOL_SIZE"
    using F(3) nblocks_upd [OF assms(2), of bl "remove1 t (bl i)"] rem F(2) assms(2) s(1)
    by (simp add: G_def)
  have fp: "free_pages b - 2 ^ i = npages (bl(i := remove1 t (bl i)))"
    using npages_upd [OF assms(2), of bl "remove1 t (bl i)"] rem F(2) assms(2) s(1) pages
    by (simp add: algebra_simps)
  show thesis
  proof (cases xs rule: rev_cases)
    case Nil
    define b' where "b' = b\<lparr>free_lists := (free_lists b)(i := nexts b s),
      nexts := (nexts b)(s := pool_head b), pool_head := s, free_pages := free_pages b - 2 ^ i\<rparr>"
    have "slot_lists (nexts b') (list_heads b') G"
      using slot_lists_move_head [OF F(1), of i POOL s ys] assms(2) Nil s(1)
      by (auto simp: b'_def G_def list_heads_def fun_upd_def cong: if_cong elim!: back_subst
          [where P = "\<lambda>H. slot_lists _ H _"])
    then have "tracks b' (bl(i := remove1 t (bl i)))"
      using bls len fp init unfolding tracks_def by (auto simp: b'_def)
    moreover have "remove_block i t b = ret (True, b')"
      unfolding scan using Nil sp s(2) pages
      by (subst remove_scan.simps) (simp add: pool_free_def b'_def)
    ultimately show thesis using that by (simp add: b'_def)
  next
    case (snoc us u)
    define b' where "b' = b\<lparr>nexts := (nexts b)(u := nexts b s, s := pool_head b),
      pool_head := s, free_pages := free_pages b - 2 ^ i\<rparr>"
    have u: "0 < u" using slot_lists_slot(1) [OF F(1), of i u] s(1) snoc assms(2) by simp
    have "slot_lists (nexts b') (list_heads b') G"
      using slot_lists_move_inner [OF F(1), of i POOL us u s ys] assms(2) snoc s(1)
      by (auto simp: b'_def G_def list_heads_def fun_upd_def cong: if_cong elim!: back_subst
          [where P = "\<lambda>H. slot_lists _ H _"])
    then have "tracks b' (bl(i := remove1 t (bl i)))"
      using bls len fp init unfolding tracks_def by (auto simp: b'_def)
    moreover have "remove_block i t b = ret (True, b')"
      unfolding scan using snoc sp u s(2) pages
      by (subst remove_scan.simps) (simp add: pool_free_def b'_def)
    ultimately show thesis using that by (simp add: b'_def)
  qed
qed

lemma remove_block_miss:
  assumes "tracks b bl" "i \<le> MAX_ORDER" "t \<notin> set (bl i)"
  shows "remove_block i t b = ret (False, b)"
proof (cases "bl i = []")
  case True
  then show ?thesis
    using tracks_head [OF assms(1,2)] assms(2) by (simp add: remove_block_def remove_scan.simps)
next
  case False
  then have init: "pool_init b" by (rule tracks_pool_init [OF assms(1,2)])
  obtain F where F: "slot_lists (nexts b) (list_heads b) F" "\<forall>i \<le> MAX_ORDER. bl i = map (addrs b) (F i)"
    using assms(1) init unfolding tracks_def by auto
  show ?thesis
    using remove_scan_miss [OF F(1) assms(2), of "[]" "F i" t "free_lists b i" 0]
      slot_listsD(1) [OF F(1), of i] assms(2,3) F(2)
    by (simp add: remove_block_def list_heads_def)
qed


section \<open>Pages\<close>

definition aligned :: "nat \<Rightarrow> nat \<Rightarrow> bool" where
  "aligned order addr \<longleftrightarrow> PAGE_SIZE * 2 ^ order dvd addr"

definition pages :: "nat \<Rightarrow> nat \<Rightarrow> nat set" where
  "pages order addr = {addr div PAGE_SIZE ..< addr div PAGE_SIZE + 2 ^ order}"

definition free_set :: "(nat \<Rightarrow> nat list) \<Rightarrow> nat set" where
  "free_set bl = (\<Union>i \<in> {..MAX_ORDER}. \<Union>a \<in> set (bl i). pages i a)"

definition blocks_ok :: "(nat \<Rightarrow> nat list) \<Rightarrow> bool" where
  "blocks_ok bl \<longleftrightarrow>
     (\<forall>i \<le> MAX_ORDER. distinct (bl i)) \<and> (\<forall>i \<le> MAX_ORDER. \<forall>a \<in> set (bl i). aligned i a) \<and>
     (\<forall>i \<le> MAX_ORDER. \<forall>j \<le> MAX_ORDER. \<forall>a \<in> set (bl i). \<forall>c \<in> set (bl j).
        (i, a) \<noteq> (j, c) \<longrightarrow> pages i a \<inter> pages j c = {})"

text \<open>No two free blocks of one order are buddies.\<close>

definition coalesced :: "(nat \<Rightarrow> nat list) \<Rightarrow> bool" where
  "coalesced bl \<longleftrightarrow> (\<forall>i < MAX_ORDER. \<forall>a \<in> set (bl i). buddy_of i a \<notin> set (bl i))"

lemma page_size_pos [simp]: "0 < PAGE_SIZE" "PAGE_SIZE \<noteq> 0"
  by (simp_all add: PAGE_SIZE_def)

lemma pages_nonempty [simp]: "pages i a \<noteq> {}" "finite (pages i a)" "card (pages i a) = 2 ^ i"
  by (auto simp: pages_def)

lemma block_size: "PAGE_SIZE * 2 ^ i = 2 ^ (12 + i)"
  by (simp add: PAGE_SIZE_def power_add)

lemma buddy_of_aligned:
  assumes "aligned i a"
  shows "buddy_of i a = (if even (a div (PAGE_SIZE * 2 ^ i)) then a + PAGE_SIZE * 2 ^ i
                         else a - PAGE_SIZE * 2 ^ i)"
proof -
  define n where "n = 12 + i"
  obtain k where a: "a = k * 2 ^ n"
    using assms unfolding aligned_def block_size n_def [symmetric] by (metis dvd_def mult.commute)
  have "a XOR 2 ^ n = push_bit n (k XOR 1)"
    by (simp only: push_bit_xor) (simp add: a push_bit_eq_mult)
  also have "\<dots> = (if even k then a + 2 ^ n else a - 2 ^ n)"
    by (simp only: xor_one_eq) (simp add: push_bit_eq_mult a algebra_simps)
  finally show ?thesis
    unfolding buddy_of_def block_size n_def [symmetric] by (simp add: a)
qed

lemma aligned_le: "aligned i a \<Longrightarrow> j \<le> i \<Longrightarrow> aligned j a"
  unfolding aligned_def by (rule dvd_trans [OF mult_dvd_mono [OF dvd_refl le_imp_power_dvd]])

lemma pages_split:
  assumes "aligned (Suc i) a"
  shows "aligned i a" "aligned i (a + PAGE_SIZE * 2 ^ i)"
    "pages (Suc i) a = pages i a \<union> pages i (a + PAGE_SIZE * 2 ^ i)"
    "pages i a \<inter> pages i (a + PAGE_SIZE * 2 ^ i) = {}"
    "buddy_of i a = a + PAGE_SIZE * 2 ^ i" "buddy_of i (a + PAGE_SIZE * 2 ^ i) = a"
proof -
  obtain k where a: "a = PAGE_SIZE * 2 ^ Suc i * k"
    using assms by (auto simp: aligned_def dvd_def)
  show al: "aligned i a" "aligned i (a + PAGE_SIZE * 2 ^ i)"
    by (auto simp: aligned_def a)
  have d: "(a + PAGE_SIZE * 2 ^ i) div PAGE_SIZE = a div PAGE_SIZE + 2 ^ i" by simp
  show "pages (Suc i) a = pages i a \<union> pages i (a + PAGE_SIZE * 2 ^ i)"
    unfolding pages_def d by auto
  show "pages i a \<inter> pages i (a + PAGE_SIZE * 2 ^ i) = {}"
    unfolding pages_def d by auto
  have e: "a div (PAGE_SIZE * 2 ^ i) = 2 * k"
    by (simp add: a)
  have o: "(a + PAGE_SIZE * 2 ^ i) div (PAGE_SIZE * 2 ^ i) = 2 * k + 1"
    using e by (simp add: div_add_self2)
  show "buddy_of i a = a + PAGE_SIZE * 2 ^ i"
    using buddy_of_aligned [OF al(1)] e by simp
  show "buddy_of i (a + PAGE_SIZE * 2 ^ i) = a"
    unfolding buddy_of_aligned [OF al(2)] o by simp
qed

text \<open>The lower of a block and its buddy is aligned for the next order and covers both.\<close>

lemma buddy_merge:
  assumes "aligned i a"
  shows "aligned (Suc i) (min a (buddy_of i a))"
    "pages (Suc i) (min a (buddy_of i a)) = pages i a \<union> pages i (buddy_of i a)"
    "buddy_of i (buddy_of i a) = a" "buddy_of i a \<noteq> a" "aligned i (buddy_of i a)"
    "pages i a \<inter> pages i (buddy_of i a) = {}"
proof -
  let ?s = "PAGE_SIZE * 2 ^ i"
  obtain k where a: "a = ?s * k" using assms by (auto simp: aligned_def)
  have "\<exists>l. aligned (Suc i) l \<and> (a = l \<and> buddy_of i a = l + ?s \<or> a = l + ?s \<and> buddy_of i a = l)"
  proof (cases "even k")
    case True
    then have "aligned (Suc i) a" by (auto simp: aligned_def a elim!: evenE)
    then show ?thesis using pages_split(5) by blast
  next
    case False
    then obtain j where "k = 2 * j + 1" by (elim oddE)
    then have "a = ?s * (2 * j) + ?s" "aligned (Suc i) (?s * (2 * j))"
      by (auto simp: a aligned_def algebra_simps)
    then show ?thesis using pages_split(6) by metis
  qed
  then obtain l where l: "aligned (Suc i) l"
    "a = l \<and> buddy_of i a = l + ?s \<or> a = l + ?s \<and> buddy_of i a = l" by blast
  note sp = pages_split [OF l(1)]
  have m: "min a (buddy_of i a) = l" using l(2) by auto
  show "aligned (Suc i) (min a (buddy_of i a))"
    "pages (Suc i) (min a (buddy_of i a)) = pages i a \<union> pages i (buddy_of i a)"
    "buddy_of i (buddy_of i a) = a" "buddy_of i a \<noteq> a" "aligned i (buddy_of i a)"
    "pages i a \<inter> pages i (buddy_of i a) = {}"
    unfolding m using l sp by auto
qed

text \<open>The pages of every block but those of one order.\<close>

definition other_set :: "nat \<Rightarrow> (nat \<Rightarrow> nat list) \<Rightarrow> nat set" where
  "other_set i bl = (\<Union>j \<in> {..MAX_ORDER} - {i}. \<Union>a \<in> set (bl j). pages j a)"

lemma free_set_upd:
  assumes "i \<le> MAX_ORDER"
  shows "free_set (bl(i := xs)) = other_set i bl \<union> (\<Union>a \<in> set xs. pages i a)"
proof -
  have i: "insert i ({..MAX_ORDER} - {i}) = {..MAX_ORDER}" using assms by auto
  have "free_set (bl(i := xs)) =
      (\<Union>j \<in> insert i ({..MAX_ORDER} - {i}). \<Union>a \<in> set ((bl(i := xs)) j). pages j a)"
    unfolding i free_set_def ..
  then show ?thesis
    unfolding other_set_def UN_insert by (simp add: Un_commute)
qed

lemma free_set_split:
  "i \<le> MAX_ORDER \<Longrightarrow> free_set bl = other_set i bl \<union> (\<Union>a \<in> set (bl i). pages i a)"
  using free_set_upd [of i bl "bl i"] by simp

lemma blocks_push:
  assumes "blocks_ok bl" "i \<le> MAX_ORDER" "aligned i a" "pages i a \<inter> free_set bl = {}"
  shows "blocks_ok (bl(i := a # bl i))" "free_set (bl(i := a # bl i)) = free_set bl \<union> pages i a"
proof -
  have new: "pages i a \<inter> pages j c = {}" if "j \<le> MAX_ORDER" "c \<in> set (bl j)" for j c
    using assms(4) that by (auto simp: free_set_def)
  then have "a \<notin> set (bl i)" using assms(2) pages_nonempty(1) [of i a] by blast
  then show "blocks_ok (bl(i := a # bl i))"
    using assms(1-3) new unfolding blocks_ok_def by (auto simp: Int_commute)
  show "free_set (bl(i := a # bl i)) = free_set bl \<union> pages i a"
    unfolding free_set_upd [OF assms(2)] free_set_split [OF assms(2), of bl] by auto
qed

lemma blocks_take:
  assumes "blocks_ok bl" "i \<le> MAX_ORDER" "a \<in> set (bl i)"
  shows "blocks_ok (bl(i := remove1 a (bl i)))"
    "free_set (bl(i := remove1 a (bl i))) = free_set bl - pages i a"
    "pages i a \<subseteq> free_set bl" "aligned i a"
proof -
  have d: "distinct (bl i)" "aligned i a" using assms by (auto simp: blocks_ok_def)
  have other: "pages i a \<inter> pages j c = {}" if "j \<le> MAX_ORDER" "c \<in> set (bl j)" "(j, c) \<noteq> (i, a)" for j c
    using assms that unfolding blocks_ok_def by blast
  show "blocks_ok (bl(i := remove1 a (bl i)))"
    using assms(1,2) d unfolding blocks_ok_def by (auto simp: set_remove1_eq)
  show "pages i a \<subseteq> free_set bl" "aligned i a"
    using assms d by (auto simp: free_set_def)
  show "free_set (bl(i := remove1 a (bl i))) = free_set bl - pages i a"
  proof -
    have "other_set i bl \<inter> pages i a = {}"
      unfolding other_set_def using other by blast
    moreover have "(\<Union>c \<in> set (bl i) - {a}. pages i c) = (\<Union>c \<in> set (bl i). pages i c) - pages i a"
      using other [OF assms(2)] by blast
    ultimately show ?thesis
      unfolding free_set_upd [OF assms(2)] free_set_split [OF assms(2), of bl]
      by (auto simp: set_remove1_eq [OF d(1)])
  qed
qed


section \<open>Operations on pages\<close>

lemma coalesced_push:
  assumes "coalesced bl" "i < MAX_ORDER \<Longrightarrow> buddy_of i a \<notin> set (bl i)" "aligned i a"
    "\<forall>c \<in> set (bl i). aligned i c"
  shows "coalesced (bl(i := a # bl i))"
proof -
  have "buddy_of i c \<noteq> a" if "i < MAX_ORDER" "c \<in> set (bl i)" for c
    using buddy_merge(3) [of i c] assms(2,4) that by auto
  then show ?thesis
    using assms buddy_merge(4) [OF assms(3)] by (auto simp: coalesced_def)
qed

lemma coalesced_take: "coalesced bl \<Longrightarrow> coalesced (bl(i := remove1 a (bl i)))"
  using set_remove1_subset [of a "bl i"] by (auto simp: coalesced_def)

definition returns_blocks ::
  "buddy run \<Rightarrow> buddy \<Rightarrow> (nat \<Rightarrow> nat list) \<Rightarrow> nat set \<Rightarrow> nat \<Rightarrow> bool" where
  "returns_blocks r b bl P n \<longleftrightarrow>
     (\<exists>b' bl'. r = ret b' \<and> tracks b' bl' \<and> blocks_ok bl' \<and> free_set bl' = P \<and>
        nblocks bl' \<le> nblocks bl + n \<and> total_pages b' = total_pages b \<and>
        (coalesced bl \<longrightarrow> coalesced bl'))"

lemma returns_blocks_trans:
  assumes "returns_blocks r b1 bl1 P n" "nblocks bl1 + n \<le> nblocks bl + m"
    "total_pages b1 = total_pages b" "coalesced bl \<longrightarrow> coalesced bl1"
  shows "returns_blocks r b bl P m"
  using assms le_trans unfolding returns_blocks_def by fastforce

lemma split_block_ok:
  assumes "tracks b bl" "blocks_ok bl" "cur \<le> MAX_ORDER" "order \<le> cur" "aligned cur a"
    "pages cur a \<inter> free_set bl = {}" "nblocks bl + (cur - order) \<le> POOL_SIZE"
  shows "returns_blocks (split_block order a cur b) b bl
           (free_set bl \<union> (pages cur a - pages order a)) (cur - order)"
  using assms
proof (induction cur arbitrary: b bl)
  case 0
  then show ?case by (auto simp: split_block.simps returns_blocks_def)
next
  case (Suc i)
  show ?case
  proof (cases "order = Suc i")
    case True
    then show ?thesis using Suc.prems by (auto simp: split_block.simps returns_blocks_def)
  next
    case False
    then have le: "order \<le> i" "i \<le> MAX_ORDER" "i < MAX_ORDER" using Suc.prems by auto
    let ?h = "a + PAGE_SIZE * 2 ^ i"
    let ?bl = "bl(i := ?h # bl i)"
    note sp = pages_split [OF Suc.prems(5)]
    have fresh: "pages i ?h \<inter> free_set bl = {}" "pages i a \<inter> free_set bl = {}"
      using Suc.prems(6) sp(3) by auto
    obtain b1 where b1: "push_block i ?h b = ret b1" "tracks b1 ?bl" "total_pages b1 = total_pages b"
    proof -
      have "nblocks bl < POOL_SIZE" using Suc.prems(7) le(1) by linarith
      from push_block_tracks [OF Suc.prems(1) le(2) this, of ?h] that show thesis by blast
    qed
    note bl = blocks_push [OF Suc.prems(2) le(2) sp(2) fresh(1)]
    have "a \<notin> set (bl i)"
      using fresh(2) le(2) pages_nonempty(1) [of i a] unfolding free_set_def by blast
    then have co: "coalesced bl \<longrightarrow> coalesced ?bl"
      using coalesced_push [of bl i ?h] sp(2,6) Suc.prems(2) le by (auto simp: blocks_ok_def)
    have "pages i a \<inter> free_set ?bl = {}" using bl(2) fresh sp(4) by auto
    moreover have "nblocks ?bl + (i - order) \<le> POOL_SIZE"
      using nblocks_upd [OF le(2), of bl "?h # bl i"] Suc.prems(7) le(1) by simp
    ultimately have "returns_blocks (split_block order a i b1) b1 ?bl
        (free_set ?bl \<union> (pages i a - pages order a)) (i - order)"
      by (rule Suc.IH [OF b1(2) bl(1) le(2,1) sp(1)])
    moreover have "pages order a \<subseteq> pages i a"
      using le(1) power_increasing [of order i "2::nat"] by (auto simp: pages_def)
    then have "free_set ?bl \<union> (pages i a - pages order a) =
        free_set bl \<union> (pages (Suc i) a - pages order a)"
      using bl(2) sp(3,4) by blast
    moreover have "split_block order a (Suc i) b = split_block order a i b1"
      using le b1(1) by (subst split_block.simps) simp
    moreover have "nblocks ?bl + (i - order) = nblocks bl + (Suc i - order)"
      using nblocks_upd [OF le(2), of bl "?h # bl i"] le(1) by simp
    ultimately show ?thesis
      using returns_blocks_trans co b1(3) by simp
  qed
qed

lemma coalesce_ok:
  assumes "tracks b bl" "blocks_ok bl" "order \<le> MAX_ORDER" "aligned order a"
    "pages order a \<inter> free_set bl = {}" "nblocks bl < POOL_SIZE"
  shows "returns_blocks (coalesce a order b) b bl (free_set bl \<union> pages order a) 1"
  using assms
proof (induction a order b arbitrary: bl rule: coalesce.induct)
  case (1 a i b)
  let ?c = "buddy_of i a"
  have push: "returns_blocks (push_block i a b) b bl (free_set bl \<union> pages i a) 1"
    if no: "i < MAX_ORDER \<longrightarrow> ?c \<notin> set (bl i)"
  proof -
    obtain b1 where b1: "push_block i a b = ret b1" "tracks b1 (bl(i := a # bl i))"
      "total_pages b1 = total_pages b"
      using push_block_tracks [OF 1(2) 1(4) 1(7)] by metis
    have "coalesced bl \<longrightarrow> coalesced (bl(i := a # bl i))"
      using coalesced_push [of bl i a] no 1(3,4,5) by (auto simp: blocks_ok_def)
    then show ?thesis
      using b1 blocks_push [OF 1(3,4,5,6)] nblocks_upd [OF 1(4), of bl "a # bl i"] by (auto simp: returns_blocks_def)
  qed
  show ?case
  proof (cases "i < MAX_ORDER \<and> ?c \<in> set (bl i)")
    case False
    then show ?thesis
      using push remove_block_miss [OF 1(2,4), of ?c] by (subst coalesce.simps) auto
  next
    case True
    define bl1 where "bl1 = bl(i := remove1 ?c (bl i))"
    obtain b1 where b1: "remove_block i ?c b = ret (True, b1)" "tracks b1 bl1"
      "total_pages b1 = total_pages b"
      using remove_block_hit [OF 1(2,4)] True unfolding bl1_def by metis
    note bt = blocks_take [OF 1(3,4) conjunct2 [OF True], folded bl1_def]
    note bm = buddy_merge [OF 1(5)]
    have "pages (Suc i) (min a ?c) \<inter> free_set bl1 = {}"
      using bm(2) bt(2) 1(6) by auto
    moreover have less: "nblocks bl1 \<le> nblocks bl"
    proof -
      have "nblocks bl1 + length (bl i) = nblocks bl + length (remove1 ?c (bl i))"
        unfolding bl1_def by (rule nblocks_upd [OF 1(4)])
      moreover have "length (remove1 ?c (bl i)) \<le> length (bl i)"
        by (simp add: length_remove1)
      ultimately show ?thesis by linarith
    qed
    then have "nblocks bl1 < POOL_SIZE" using 1(7) by simp
    ultimately have "returns_blocks (coalesce (min a ?c) (Suc i) b1) b1 bl1
        (free_set bl1 \<union> pages (Suc i) (min a ?c)) 1"
      using 1(1) [OF conjunct1 [OF True] b1(1) refl _ b1(2) bt(1)] bm(1) True by simp
    moreover have "free_set bl1 \<union> pages (Suc i) (min a ?c) = free_set bl \<union> pages i a"
      using bm(2) bt(2,3) by auto
    moreover have "coalesce a i b = coalesce (min a ?c) (Suc i) b1"
      using True b1(1) by (subst coalesce.simps) simp
    ultimately show ?thesis
      using returns_blocks_trans coalesced_take [of bl i ?c, folded bl1_def] b1(3) less by simp
  qed
qed


lemma find_SomeD: "find P xs = Some x \<Longrightarrow> x \<in> set xs \<and> P x"
  by (auto simp: find_Some_iff)

lemma region_order_ok:
  assumes "PAGE_SIZE dvd cursor" "0 < n"
  shows "region_order cursor n \<le> MAX_ORDER" "2 ^ region_order cursor n \<le> n"
    "aligned (region_order cursor n) cursor"
proof -
  let ?P = "\<lambda>i. 2 ^ i \<le> n \<and> PAGE_SIZE * 2 ^ i dvd cursor"
  have "?P 0" "0 \<in> set (rev [0..<POOL])" using assms by auto
  then have "find ?P (rev [0..<POOL]) \<noteq> None"
    unfolding find_None_iff by blast
  then obtain i where i: "find ?P (rev [0..<POOL]) = Some i" by blast
  then have "i \<in> set (rev [0..<POOL])" "?P i"
    using find_SomeD by fastforce+
  then show "region_order cursor n \<le> MAX_ORDER" "2 ^ region_order cursor n \<le> n"
    "aligned (region_order cursor n) cursor"
    using i by (auto simp: region_order_def aligned_def)
qed

text \<open>How many blocks the greedy loop of \<open>add_region\<close> cuts a region into.\<close>

function region_blocks :: "nat \<Rightarrow> nat \<Rightarrow> nat" where
  "region_blocks cursor stop =
     (if cursor < stop
      then Suc (region_blocks
             (cursor + PAGE_SIZE * 2 ^ region_order cursor ((stop - cursor) div PAGE_SIZE)) stop)
      else 0)"
  by auto
termination
  by (relation "measure (\<lambda>(cursor, stop). stop - cursor)")
    (auto simp: PAGE_SIZE_def intro!: diff_less_mono2)

declare region_blocks.simps [simp del]

definition frames_of :: "nat \<Rightarrow> nat \<Rightarrow> nat set" where
  "frames_of start stop = {start div PAGE_SIZE ..< stop div PAGE_SIZE}"

lemma add_blocks_ok:
  assumes "tracks b bl" "blocks_ok bl" "PAGE_SIZE dvd cursor" "PAGE_SIZE dvd stop"
    "frames_of cursor stop \<inter> free_set bl = {}" "cursor \<le> stop"
    "nblocks bl + region_blocks cursor stop \<le> POOL_SIZE"
  shows "\<exists>b' bl'. add_blocks cursor stop b = ret b' \<and> tracks b' bl' \<and> blocks_ok bl' \<and>
           free_set bl' = free_set bl \<union> frames_of cursor stop \<and> total_pages b' = total_pages b"
  using assms
proof (induction cursor stop b arbitrary: bl rule: add_blocks.induct)
  case (1 cursor stop b)
  show ?case
  proof (cases "cursor < stop")
    case False
    then show ?thesis using 1(2,3,7) by (subst add_blocks.simps) (auto simp: frames_of_def)
  next
    case True
    define n where "n = (stop - cursor) div PAGE_SIZE"
    define i where "i = region_order cursor n"
    define bl1 where "bl1 = bl(i := cursor # bl i)"
    obtain c d where cd: "cursor = c * PAGE_SIZE" "stop = d * PAGE_SIZE"
      using 1(4,5) by (metis dvd_div_mult_self)
    have n: "n = d - c" "c < d"
      using True by (auto simp: n_def cd simp flip: diff_mult_distrib)
    have ro: "i \<le> MAX_ORDER" "2 ^ i \<le> d - c" "aligned i cursor"
      using region_order_ok [OF 1(4), of n] n by (auto simp: i_def)
    have pg: "pages i cursor = {c ..< c + 2 ^ i}" "frames_of cursor stop = {c ..< d}"
      "frames_of (cursor + PAGE_SIZE * 2 ^ i) stop = {c + 2 ^ i ..< d}"
      by (simp_all add: pages_def frames_of_def cd)
    have fresh: "pages i cursor \<inter> free_set bl = {}" using 1(6) ro(2) pg(1,2) by fastforce
    have cnt: "region_blocks cursor stop = Suc (region_blocks (cursor + PAGE_SIZE * 2 ^ i) stop)"
      using True by (subst region_blocks.simps) (simp add: i_def n_def)
    obtain b1 where b1: "push_block i cursor b = ret b1" "tracks b1 bl1" "total_pages b1 = total_pages b"
    proof -
      have "nblocks bl < POOL_SIZE" using 1(8) cnt by simp
      from push_block_tracks [OF 1(2) ro(1) this, of cursor] that show thesis
        unfolding bl1_def by blast
    qed
    note bp = blocks_push [OF 1(3) ro(1,3) fresh, folded bl1_def]
    have "\<exists>b' bl'. add_blocks (cursor + PAGE_SIZE * 2 ^ i) stop b1 = ret b' \<and> tracks b' bl' \<and>
        blocks_ok bl' \<and> free_set bl' = free_set bl1 \<union> frames_of (cursor + PAGE_SIZE * 2 ^ i) stop \<and>
        total_pages b' = total_pages b1"
    proof (rule 1(1) [OF True i_def [unfolded n_def] b1(1) b1(2) bp(1)])
      show "PAGE_SIZE dvd cursor + PAGE_SIZE * 2 ^ i" "PAGE_SIZE dvd stop" using 1(4,5) by simp_all
      show "frames_of (cursor + PAGE_SIZE * 2 ^ i) stop \<inter> free_set bl1 = {}"
        using 1(6) pg bp(2) by auto
      have "(c + 2 ^ i) * PAGE_SIZE \<le> d * PAGE_SIZE" using ro(2) n(2) by (intro mult_le_mono1) simp
      then show "cursor + PAGE_SIZE * 2 ^ i \<le> stop" by (simp add: cd algebra_simps)
      show "nblocks bl1 + region_blocks (cursor + PAGE_SIZE * 2 ^ i) stop \<le> POOL_SIZE"
        using 1(8) cnt nblocks_upd [OF ro(1), of bl "cursor # bl i"] by (simp add: bl1_def)
    qed
    moreover have "free_set bl1 \<union> frames_of (cursor + PAGE_SIZE * 2 ^ i) stop =
        free_set bl \<union> frames_of cursor stop"
      using bp(2) pg ro(2) n(2) by auto
    moreover have "add_blocks cursor stop b = add_blocks (cursor + PAGE_SIZE * 2 ^ i) stop b1"
      using True b1(1) by (subst add_blocks.simps) (simp add: i_def n_def Let_def)
    ultimately show ?thesis using b1(3) by auto
  qed
qed


section \<open>What the allocator promises\<close>

text \<open>The block addresses of one order, read off the arrays.\<close>

fun walk_slots :: "nat \<Rightarrow> buddy \<Rightarrow> nat \<Rightarrow> nat list" where
  "walk_slots 0 b s = []"
| "walk_slots (Suc n) b s = (if s = 0 then [] else addrs b s # walk_slots n b (nexts b s))"

definition free_blocks :: "buddy \<Rightarrow> nat \<Rightarrow> nat list" where
  "free_blocks b i = walk_slots POOL_SIZE b (free_lists b i)"

definition free_frames :: "buddy \<Rightarrow> nat set" where
  "free_frames b = free_set (free_blocks b)"

definition buddy_ok :: "buddy \<Rightarrow> bool" where
  "buddy_ok b \<longleftrightarrow> tracks b (free_blocks b) \<and> blocks_ok (free_blocks b)"

lemma walk_zero [simp]: "walk_slots n b 0 = []"
  by (cases n) auto

lemma walk_list:
  "llist (slot_link \<circ> nexts b) (slot_link s) xs \<Longrightarrow> 0 \<notin> set xs \<Longrightarrow> length xs \<le> n \<Longrightarrow> walk_slots n b s = map (addrs b) xs"
proof (induction xs arbitrary: s n)
  case Nil
  then show ?case by (cases n) auto
next
  case (Cons x xs)
  then obtain m where "n = Suc m" by (cases n) auto
  then show ?case using Cons by auto
qed

lemma tracks_blocks:
  assumes "tracks b bl" "i \<le> MAX_ORDER"
  shows "free_blocks b i = bl i"
proof (cases "bl i = []")
  case True
  then show ?thesis using tracks_head [OF assms] by (simp add: free_blocks_def)
next
  case False
  then have init: "pool_init b" by (rule tracks_pool_init [OF assms])
  obtain F where F: "slot_lists (nexts b) (list_heads b) F" "\<forall>i \<le> MAX_ORDER. bl i = map (addrs b) (F i)"
    using assms(1) init unfolding tracks_def by auto
  have "set (F i) \<subseteq> {1..POOL_SIZE}" "distinct (F i)" using slot_listsD [OF F(1), of i] assms(2) by auto
  then have "length (F i) \<le> POOL_SIZE" "0 \<notin> set (F i)"
    using card_mono [of "{1..POOL_SIZE}" "set (F i)"] distinct_card [of "F i"] by auto
  then show ?thesis
    using walk_list [of b "free_lists b i" "F i" POOL_SIZE] slot_listsD(1) [OF F(1), of i] F(2) assms(2)
    by (simp add: free_blocks_def list_heads_def)
qed

lemma blocks_cong:
  assumes "\<forall>i \<le> MAX_ORDER. bl i = bl' i"
  shows "free_set bl = free_set bl'" "nblocks bl = nblocks bl'" "npages bl = npages bl'"
    "blocks_ok bl = blocks_ok bl'" "coalesced bl = coalesced bl'" "tracks b bl = tracks b bl'"
proof -
  show eq: "free_set bl = free_set bl'" "nblocks bl = nblocks bl'" "npages bl = npages bl'"
    "blocks_ok bl = blocks_ok bl'" "coalesced bl = coalesced bl'"
    using assms by (auto simp: free_set_def nblocks_def npages_def blocks_ok_def coalesced_def)
  show "tracks b bl = tracks b bl'"
    unfolding tracks_def eq using assms by simp
qed

lemma tracks_ok:
  assumes "tracks b bl" "blocks_ok bl"
  shows "buddy_ok b" "free_frames b = free_set bl" "nblocks (free_blocks b) = nblocks bl"
    "coalesced (free_blocks b) = coalesced bl"
proof -
  have "\<forall>i \<le> MAX_ORDER. free_blocks b i = bl i" using tracks_blocks [OF assms(1)] by simp
  note c = blocks_cong [OF this]
  show "buddy_ok b" "free_frames b = free_set bl" "nblocks (free_blocks b) = nblocks bl"
    "coalesced (free_blocks b) = coalesced bl"
    using assms by (auto simp: buddy_ok_def free_frames_def c)
qed

text \<open>The page counter is the number of free pages.\<close>

lemma free_pages_card:
  assumes "buddy_ok b"
  shows "free_pages b = card (free_frames b)"
proof -
  let ?I = "Sigma {..MAX_ORDER} (\<lambda>i. set (free_blocks b i))"
  have bo: "blocks_ok (free_blocks b)" and t: "free_pages b = npages (free_blocks b)"
    using assms tracks_pages by (auto simp: buddy_ok_def)
  have "free_frames b = (\<Union>(i, a) \<in> ?I. pages i a)"
    by (auto simp: free_frames_def free_set_def)
  then have "card (free_frames b) = (\<Sum>(i, a) \<in> ?I. 2 ^ i)"
    using bo by (simp add: card_UN_disjoint split_def blocks_ok_def)
  also have "\<dots> = (\<Sum>i \<le> MAX_ORDER. \<Sum>a \<in> set (free_blocks b i). 2 ^ i)"
    by (subst sum.Sigma) auto
  also have "\<dots> = npages (free_blocks b)"
    using bo by (simp add: npages_def blocks_ok_def distinct_card)
  finally show ?thesis using t by simp
qed

text \<open>Splitting pushes one block on each of the empty lists below the list that had a block. The
  number of blocks, with an empty list counted as one, does not grow: a pool that can hold that many
  never runs out, however often blocks are allocated.\<close>

definition demand :: "(nat \<Rightarrow> nat list) \<Rightarrow> nat" where
  "demand bl = (\<Sum>i \<le> MAX_ORDER. max 1 (length (bl i)))"

lemma demand_upd:
  assumes "i \<le> MAX_ORDER"
  shows "demand (bl(i := xs)) + max 1 (length (bl i)) = demand bl + max 1 (length xs)"
  using assms by (simp add: demand_def sum.remove [where x = i])

lemma nblocks_demand:
  assumes "\<forall>j \<in> {order..<cur}. bl j = []" "cur \<le> MAX_ORDER"
  shows "nblocks bl + (cur - order) \<le> demand bl"
proof -
  have "(\<Sum>i \<le> MAX_ORDER. length (bl i) + (if i \<in> {order..<cur} then 1 else 0)) \<le> demand bl"
    unfolding demand_def using assms(1) by (intro sum_mono) auto
  moreover have "(\<Sum>i \<le> MAX_ORDER. if i \<in> {order..<cur} then 1 else 0 :: nat) = cur - order"
  proof -
    have "{..MAX_ORDER} \<inter> {i. i \<in> {order..<cur}} = {order..<cur}" using assms(2) by auto
    then show ?thesis by (simp only: sum.If_cases finite_atMost) simp
  qed
  ultimately show ?thesis unfolding nblocks_def sum.distrib by linarith
qed

lemma demand_room: "nblocks bl + MAX_ORDER \<le> POOL_SIZE \<Longrightarrow> demand bl \<le> POOL_SIZE"
proof (cases "\<exists>j \<le> MAX_ORDER. bl j \<noteq> []")
  case True
  assume h: "nblocks bl + MAX_ORDER \<le> POOL_SIZE"
  from True obtain j where j: "j \<le> MAX_ORDER" "bl j \<noteq> []" by blast
  have "demand bl \<le> (\<Sum>i \<le> MAX_ORDER. length (bl i) + (if i = j then 0 else 1))"
    unfolding demand_def using j(2) by (intro sum_mono) (cases "bl j", auto)
  also have "\<dots> = nblocks bl + card ({..MAX_ORDER} - {j})"
    by (simp add: nblocks_def sum.distrib sum.If_cases Collect_neg_eq flip: Diff_eq)
  finally show ?thesis using h j(1) by simp
next
  case False
  then have "demand bl = (\<Sum>i \<le> MAX_ORDER. 1)" unfolding demand_def by (intro sum.cong) auto
  then show ?thesis by (simp add: MAX_ORDER_def POOL_SIZE_def)
qed

lemma split_block_demand:
  assumes "tracks b bl" "cur \<le> MAX_ORDER" "\<forall>j \<in> {order..<cur}. bl j = []" "demand bl \<le> POOL_SIZE"
  shows "\<exists>b' bl'. split_block order a cur b = ret b' \<and> tracks b' bl' \<and> demand bl' = demand bl"
  using assms
proof (induction cur arbitrary: b bl)
  case 0
  then show ?case by (auto simp: split_block.simps)
next
  case (Suc i)
  show ?case
  proof (cases "order \<le> i")
    case False
    then show ?thesis using Suc.prems by (auto simp: split_block.simps)
  next
    case True
    let ?h = "a + PAGE_SIZE * 2 ^ i"
    let ?bl = "bl(i := ?h # bl i)"
    have "nblocks bl < POOL_SIZE" using nblocks_demand [OF Suc.prems(3,2)] Suc.prems(4) True by linarith
    then obtain b1 where b1: "push_block i ?h b = ret b1" "tracks b1 ?bl"
      using push_block_tracks [OF Suc.prems(1), of i ?h] Suc.prems(2) by auto
    have d: "demand ?bl = demand bl" using demand_upd [of i bl "?h # bl i"] Suc.prems(2,3) True by simp
    have "\<exists>b' bl'. split_block order a i b1 = ret b' \<and> tracks b' bl' \<and> demand bl' = demand ?bl"
    proof (rule Suc.IH [OF b1(2)])
      show "\<forall>j \<in> {order..<i}. ?bl j = []" using Suc.prems(3) by auto
      show "demand ?bl \<le> POOL_SIZE" unfolding d by (rule Suc.prems(4))
    qed (use Suc.prems(2) in simp)
    moreover have "split_block order a (Suc i) b = split_block order a i b1"
      using True b1(1) by (subst split_block.simps) simp
    ultimately show ?thesis using d by simp
  qed
qed

lemma tracks_demand: "tracks b bl \<Longrightarrow> demand (free_blocks b) = demand bl"
  using tracks_blocks [of b bl] by (simp add: demand_def)

lemma find_upt_first: "find P [a..<n] = Some i \<Longrightarrow> \<forall>j \<in> {a..<i}. \<not> P j"
proof
  fix j
  assume f: "find P [a..<n] = Some i" and j: "j \<in> {a..<i}"
  obtain k where k: "k < length [a..<n]" "i = [a..<n] ! k" "\<forall>l < k. \<not> P ([a..<n] ! l)"
    using f unfolding find_Some_iff by blast
  then have "j - a < k" "[a..<n] ! (j - a) = j" using j by auto
  then show "\<not> P j" using k(3) by metis
qed

lemma alloc_ok:
  assumes "buddy_ok b" "order \<le> MAX_ORDER" "demand (free_blocks b) \<le> POOL_SIZE"
  shows "(\<exists>a b'. buddy_alloc order b = ret (Some a, b') \<and> buddy_ok b' \<and> aligned order a \<and>
            pages order a \<subseteq> free_frames b \<and> free_frames b' = free_frames b - pages order a \<and>
            nblocks (free_blocks b') < POOL_SIZE \<and> demand (free_blocks b') \<le> demand (free_blocks b) \<and>
            total_pages b' = total_pages b \<and> (coalesced (free_blocks b) \<longrightarrow> coalesced (free_blocks b'))) \<or>
         buddy_alloc order b = ret (None, b) \<and> (\<forall>i \<in> {order..MAX_ORDER}. free_blocks b i = [])"
proof -
  let ?f = "find (\<lambda>i. free_lists b i \<noteq> 0) [order..<POOL]"
  have t: "tracks b (free_blocks b)" and bo: "blocks_ok (free_blocks b)" using assms(1) by (auto simp: buddy_ok_def)
  show ?thesis
  proof (cases ?f)
    case None
    then have "\<forall>i \<in> {order..MAX_ORDER}. free_blocks b i = []"
      using tracks_head [OF t] by (auto simp: find_None_iff)
    then show ?thesis using None assms(2) by (simp add: buddy_alloc_def)
  next
    case (Some i)
    then have i: "order \<le> i" "i \<le> MAX_ORDER" "free_lists b i \<noteq> 0"
      using find_SomeD [OF Some] by auto
    then obtain a as where a: "free_blocks b i = a # as"
      using tracks_head [OF t i(2)] by (cases "free_blocks b i") auto
    define bl where "bl = (free_blocks b)(i := as)"
    obtain b1 where b1: "pop_block i b = ret (Some a, b1)" "tracks b1 bl" "total_pages b1 = total_pages b"
      using pop_block_tracks [OF t i(2) a] unfolding bl_def by metis
    have "remove1 a (free_blocks b i) = as" using a by simp
    with blocks_take [OF bo i(2), of a] coalesced_take [of "free_blocks b" i a] a
    have bt: "blocks_ok bl" "free_set bl = free_frames b - pages i a" "pages i a \<subseteq> free_frames b"
      "aligned i a" "coalesced (free_blocks b) \<longrightarrow> coalesced bl"
      by (simp_all add: bl_def free_frames_def)
    have empty: "\<forall>j \<in> {order..<i}. free_blocks b j = []"
      using find_upt_first [OF Some] tracks_head [OF t] i(2) by auto
    have room: "nblocks bl + (i - order) < POOL_SIZE"
      using nblocks_demand [OF empty i(2)] nblocks_upd [OF i(2), of "free_blocks b" as] a assms(3)
      by (simp add: bl_def)
    have d: "demand bl \<le> demand (free_blocks b)"
      using demand_upd [OF i(2), of "free_blocks b" as] a by (simp add: bl_def)
    have "\<forall>j \<in> {order..<i}. bl j = []" using empty by (auto simp: bl_def)
    then obtain bs bls where bs: "split_block order a i b1 = ret bs" "tracks bs bls" "demand bls = demand bl"
      using split_block_demand [OF b1(2) i(2) _ order_trans [OF d assms(3)]] by blast
    have "returns_blocks (split_block order a i b1) b1 bl (free_set bl \<union> (pages i a - pages order a)) (i - order)"
      using split_block_ok [OF b1(2) bt(1) i(2,1) bt(4)] bt(2) room by auto
    then obtain b2 bl2 where b2: "split_block order a i b1 = ret b2" "tracks b2 bl2" "blocks_ok bl2"
      "free_set bl2 = free_set bl \<union> (pages i a - pages order a)" "total_pages b2 = total_pages b1"
      "coalesced bl \<longrightarrow> coalesced bl2" "nblocks bl2 \<le> nblocks bl + (i - order)"
      unfolding returns_blocks_def by blast
    have sub: "pages order a \<subseteq> pages i a"
      using i(1) power_increasing [of order i "2::nat"] by (auto simp: pages_def)
    have "aligned order a" by (rule aligned_le [OF bt(4) i(1)])
    moreover have "buddy_alloc order b = ret (Some a, b2)"
      using Some assms(2) b1(1) b2(1) by (simp add: buddy_alloc_def)
    moreover have "free_frames b2 = free_frames b - pages order a"
      using tracks_ok(2) [OF b2(2,3)] b2(4) bt(2,3) sub by auto
    ultimately show ?thesis
      using tracks_ok [OF b2(2,3)] bt(3,5) sub b2(1,5,6,7) room d bs tracks_demand [OF bs(2)] b1(3) by auto
  qed
qed

lemma free_ok:
  assumes "buddy_ok b" "order \<le> MAX_ORDER" "aligned order a" "pages order a \<inter> free_frames b = {}"
    "nblocks (free_blocks b) < POOL_SIZE"
  shows "\<exists>b'. buddy_free a order b = ret b' \<and> buddy_ok b' \<and> free_frames b' = free_frames b \<union> pages order a \<and>
           total_pages b' = total_pages b \<and> (coalesced (free_blocks b) \<longrightarrow> coalesced (free_blocks b'))"
proof -
  have al: "PAGE_SIZE dvd a" using assms(3) by (auto simp: aligned_def elim: dvd_mult_left)
  have "returns_blocks (coalesce a order b) b (free_blocks b) (free_set (free_blocks b) \<union> pages order a) 1"
    using coalesce_ok [of b "free_blocks b" order a] assms by (simp add: buddy_ok_def free_frames_def)
  then show ?thesis
    using assms(2) al tracks_ok by (auto simp: returns_blocks_def buddy_free_def free_frames_def)
qed


lemma add_region_ok:
  assumes "buddy_ok b" "PAGE_SIZE dvd start" "PAGE_SIZE dvd stop" "start \<le> stop"
    "frames_of start stop \<inter> free_frames b = {}"
    "nblocks (free_blocks b) + region_blocks start stop \<le> POOL_SIZE"
  shows "\<exists>b'. add_region start stop b = ret b' \<and> buddy_ok b' \<and>
           free_frames b' = free_frames b \<union> frames_of start stop \<and>
           total_pages b' = total_pages b + (stop - start) div PAGE_SIZE"
proof (cases "start < stop")
  case False
  then show ?thesis using assms by (simp add: add_region_def frames_of_def)
next
  case True
  define b0 where "b0 = b\<lparr>total_pages := total_pages b + (stop - start) div PAGE_SIZE\<rparr>"
  have "init_pool b0 = (init_pool b)\<lparr>total_pages := total_pages b + (stop - start) div PAGE_SIZE\<rparr>"
    by (cases b) (simp add: b0_def init_pool_def cong: if_cong)
  then have "tracks b0 (free_blocks b)" "blocks_ok (free_blocks b)"
    using assms(1) by (simp_all add: tracks_def buddy_ok_def b0_def list_heads_def [abs_def] cong: if_cong)
  from add_blocks_ok [OF this assms(2,3) assms(5) [unfolded free_frames_def] assms(4,6)]
  obtain b' bl where "add_blocks start stop b0 = ret b'" "tracks b' bl" "blocks_ok bl"
    "free_set bl = free_frames b \<union> frames_of start stop" "total_pages b' = total_pages b0"
    unfolding free_frames_def by blast
  moreover have "add_region start stop b = add_blocks start stop b0"
    using True assms(2,3) by (simp add: add_region_def b0_def)
  ultimately show ?thesis
    using tracks_ok [of b' bl] by (simp add: b0_def)
qed

lemma empty_ok: "buddy_ok BuddyAllocator_new" "free_frames BuddyAllocator_new = {}"
  "free_blocks BuddyAllocator_new = (\<lambda>_. [])"
proof -
  let ?F = "(\<lambda>_. [])(POOL := [1..<Suc POOL_SIZE])"
  let ?b = "init_pool BuddyAllocator_new"
  show bl: "free_blocks BuddyAllocator_new = (\<lambda>_. [])"
    by (simp add: free_blocks_def [abs_def] BuddyAllocator_new_def)
  then show "free_frames BuddyAllocator_new = {}" by (simp add: free_frames_def free_set_def)
  have run: "llist (slot_link \<circ> nexts ?b) (slot_link (if i \<le> POOL_SIZE then i else 0)) [i..<Suc POOL_SIZE]"
    if "0 < i" for i
    using that
  proof (induction "Suc POOL_SIZE - i" arbitrary: i)
    case 0
    then show ?case by simp
  next
    case (Suc n)
    then have le: "i \<le> POOL_SIZE" by simp
    have nx: "nexts ?b i = (if Suc i \<le> POOL_SIZE then Suc i else 0)"
      using le Suc.prems by (auto simp: init_pool_def BuddyAllocator_new_def)
    have "[i..<Suc POOL_SIZE] = i # [Suc i..<Suc POOL_SIZE]" using le by (simp add: upt_conv_Cons)
    then show ?case using Suc.hyps(1) [of "Suc i"] Suc.hyps(2) Suc.prems le nx by simp
  qed
  have "slot_lists (nexts ?b) (list_heads ?b) ?F"
    using run [of 1] unfolding slot_lists_def
    by (auto simp: list_heads_def init_pool_def BuddyAllocator_new_def POOL_SIZE_def)
  then have "tracks BuddyAllocator_new (\<lambda>_. [])"
    unfolding tracks_def
    by (intro conjI exI [of _ ?F])
      (auto simp: nblocks_def npages_def BuddyAllocator_new_def POOL_SIZE_def)
  then show "buddy_ok BuddyAllocator_new"
    by (simp add: buddy_ok_def bl blocks_ok_def)
qed

section \<open>Draining blocks\<close>

definition drained :: "(nat \<times> nat) list \<Rightarrow> nat set" where
  "drained out = (\<Union>(a, i) \<in> set out. pages i a)"

definition drained_pages :: "(nat \<times> nat) list \<Rightarrow> nat" where
  "drained_pages out = (\<Sum>(a, i) \<leftarrow> out. 2 ^ i)"

text \<open>
  \<open>drains reserve n r b out\<close>: the call \<open>r\<close> returns, and has moved blocks from the allocator to the
  end of the output.
\<close>

definition drains ::
  "nat \<Rightarrow> nat \<Rightarrow> ((nat \<times> nat) list \<times> buddy) run \<Rightarrow> buddy \<Rightarrow> (nat \<times> nat) list \<Rightarrow> bool" where
  "drains reserve n r b out \<longleftrightarrow>
     (\<exists>new b'. r = ret (out @ new, b') \<and> buddy_ok b' \<and> length (out @ new) \<le> max n (length out) \<and>
        drained new \<subseteq> free_frames b \<and> free_frames b' = free_frames b - drained new \<and>
        free_pages b = free_pages b' + drained_pages new \<and> min reserve (free_pages b) \<le> free_pages b')"

lemma drains_refl: "buddy_ok b \<Longrightarrow> drains reserve n (ret (out, b)) b out"
  by (simp add: drains_def drained_def drained_pages_def)

lemma drains_step:
  assumes "drains reserve n r b1 (out @ out1)" "length (out @ out1) \<le> max n (length out)"
    "drained out1 \<subseteq> free_frames b" "free_frames b1 = free_frames b - drained out1"
    "free_pages b = free_pages b1 + drained_pages out1" "min reserve (free_pages b) \<le> free_pages b1"
  shows "drains reserve n r b out"
proof -
  obtain new b' where r: "r = ret ((out @ out1) @ new, b')" "buddy_ok b'"
    "length ((out @ out1) @ new) \<le> max n (length (out @ out1))"
    "drained new \<subseteq> free_frames b1" "free_frames b' = free_frames b1 - drained new"
    "free_pages b1 = free_pages b' + drained_pages new" "min reserve (free_pages b1) \<le> free_pages b'"
    using assms(1) unfolding drains_def by blast
  have "drained (out1 @ new) = drained out1 \<union> drained new"
    "drained_pages (out1 @ new) = drained_pages out1 + drained_pages new"
    by (simp_all add: drained_def drained_pages_def)
  then show ?thesis
    unfolding drains_def using r assms(2-) by (intro exI [of _ "out1 @ new"] exI [of _ b']) auto
qed

lemma drain_order_ok:
  assumes "buddy_ok b" "i \<le> MAX_ORDER"
  shows "drains reserve n (drain_order reserve n i out b) b out"
  using assms
proof (induction reserve n i out b rule: drain_order.induct)
  case (1 reserve n i out b)
  have t: "tracks b (free_blocks b)" and bo: "blocks_ok (free_blocks b)" using 1(2) by (auto simp: buddy_ok_def)
  let ?go = "free_pages b > reserve \<and> length out < n"
  show ?case
  proof (cases "?go \<and> \<not> free_pages b - 2 ^ i < reserve \<and> free_blocks b i \<noteq> []")
    case False
    then have "drain_order reserve n i out b = ret (out, b)"
      using pop_block_empty [OF t 1(3)] by (subst drain_order.simps) auto
    then show ?thesis using drains_refl [OF 1(2)] by simp
  next
    case True
    then obtain a as where a: "free_blocks b i = a # as" by (cases "free_blocks b i") auto
    obtain b1 where b1: "pop_block i b = ret (Some a, b1)" "tracks b1 ((free_blocks b)(i := as))"
      using pop_block_tracks [OF t 1(3) a] by metis
    have "remove1 a (free_blocks b i) = as" using a by simp
    with blocks_take [OF bo 1(3), of a] a
    have bt: "blocks_ok ((free_blocks b)(i := as))" "free_set ((free_blocks b)(i := as)) = free_frames b - pages i a"
      "pages i a \<subseteq> free_frames b"
      by (simp_all add: free_frames_def)
    note ok = tracks_ok [OF b1(2) bt(1)]
    have fp: "free_pages b = free_pages b1 + 2 ^ i"
      using tracks_pages [OF t] tracks_pages [OF b1(2)] npages_upd [OF 1(3), of "free_blocks b" as] a by simp
    have run: "drain_order reserve n i out b = drain_order reserve n i (out @ [(a, i)]) b1"
      using True b1(1) by (subst drain_order.simps) auto
    have "drains reserve n (drain_order reserve n i (out @ [(a, i)]) b1) b1 (out @ [(a, i)])"
      using 1(1) [OF _ _ b1(1) refl refl ok(1) 1(3)] True by simp
    then show ?thesis
      unfolding run
      using True bt ok(2) fp
      by (intro drains_step [of reserve n _ b1 out "[(a, i)]"])
        (auto simp: drained_def drained_pages_def)
  qed
qed

lemma drain_orders_ok:
  assumes "buddy_ok b" "\<forall>i \<in> set is. i \<le> MAX_ORDER"
  shows "drains reserve n (drain_orders reserve n is out b) b out"
  using assms
proof (induction "is" arbitrary: out b)
  case Nil
  then show ?case by (simp add: drains_refl)
next
  case (Cons i "is")
  have "drains reserve n (drain_order reserve n i out b) b out"
    using drain_order_ok Cons.prems by simp
  then obtain new b1 where b1: "drain_order reserve n i out b = ret (out @ new, b1)" "buddy_ok b1"
    "length (out @ new) \<le> max n (length out)" "drained new \<subseteq> free_frames b"
    "free_frames b1 = free_frames b - drained new" "free_pages b = free_pages b1 + drained_pages new"
    "min reserve (free_pages b) \<le> free_pages b1"
    unfolding drains_def by blast
  show ?case
    using drains_step [OF Cons.IH [OF b1(2)] b1(3-7)] Cons.prems b1(1) by simp
qed


section \<open>Properties\<close>

lemma nblocks_le: "nblocks bl \<le> npages bl"
  unfolding nblocks_def npages_def by (rule sum_mono) simp

text \<open>An allocator that holds the four pages from \<open>0x100000\<close>.\<close>

definition demo_buddy :: buddy where
  "demo_buddy = the (add_region 0x100000 0x104000 BuddyAllocator_new)"

lemma demo_region: "region_order 0x100000 4 = 2"
  by (simp add: region_order_def PAGE_SIZE_def MAX_ORDER_def upt_rec)

lemma demo_blocks: "add_blocks 0x100000 0x104000 b = push_block 2 0x100000 b"
proof -
  have "add_blocks 0x104000 0x104000 c = ret c" for c
    by (subst add_blocks.simps) simp
  then show ?thesis
    by (subst add_blocks.simps) (simp add: Let_def demo_region PAGE_SIZE_def split: option.split)
qed

lemma demo_buddy_ok:
  "buddy_ok demo_buddy" "free_frames demo_buddy = {256..<260}"
  "nblocks (free_blocks demo_buddy) \<le> 4" "free_pages demo_buddy = 4"
proof -
  have "\<exists>b'. add_region 0x100000 0x104000 BuddyAllocator_new = ret b' \<and> buddy_ok b' \<and>
      free_frames b' = free_frames BuddyAllocator_new \<union> frames_of 0x100000 0x104000 \<and>
      total_pages b' = total_pages BuddyAllocator_new + (0x104000 - 0x100000) div PAGE_SIZE"
  proof (rule add_region_ok)
    show "nblocks (free_blocks BuddyAllocator_new) + region_blocks 0x100000 0x104000 \<le> POOL_SIZE"
      by (subst region_blocks.simps, simp add: demo_region PAGE_SIZE_def, subst region_blocks.simps)
        (simp add: empty_ok nblocks_def POOL_SIZE_def)
  qed (simp_all add: empty_ok PAGE_SIZE_def)
  then obtain b where b: "add_region 0x100000 0x104000 BuddyAllocator_new = ret b" "buddy_ok b"
    "free_frames b = frames_of 0x100000 0x104000"
    unfolding empty_ok by blast
  have demo: "demo_buddy = b" by (simp only: demo_buddy_def b(1) option.sel)
  show ok: "buddy_ok demo_buddy" "free_frames demo_buddy = {256..<260}"
    using b(2,3) by (simp_all add: demo frames_of_def PAGE_SIZE_def)
  show fp: "free_pages demo_buddy = 4" using free_pages_card [OF ok(1)] ok(2) by simp
  then show "nblocks (free_blocks demo_buddy) \<le> 4"
    using nblocks_le [of "free_blocks demo_buddy"] tracks_pages [of demo_buddy "free_blocks demo_buddy"] ok(1)
    by (simp add: buddy_ok_def)
qed

text \<open>(C24) Allocation. \<open>buddy_alloc\<close> with a legal order on a consistent allocator always returns. It
  either hands out one naturally aligned block all of whose pages were free, removes exactly these
  pages from the free pages, and lowers the page counter by their number; or no block of that order
  or a higher one is free, and nothing changes. Splitting keeps the rule that no two free blocks of
  one order are buddies. The hypothesis on the pool is that ten slots are unused, since a split
  without a free slot never returns.\<close>

theorem alloc_takes:
  assumes "buddy_ok b" "order \<le> MAX_ORDER" "nblocks (free_blocks b) + MAX_ORDER \<le> POOL_SIZE"
  shows "(\<exists>a b'. buddy_alloc order b = ret (Some a, b') \<and> buddy_ok b' \<and> PAGE_SIZE * 2 ^ order dvd a \<and>
            pages order a \<subseteq> free_frames b \<and> free_frames b' = free_frames b - pages order a \<and>
            free_page_count b = free_page_count b' + 2 ^ order \<and>
            (coalesced (free_blocks b) \<longrightarrow> coalesced (free_blocks b'))) \<or>
         buddy_alloc order b = ret (None, b) \<and> (\<forall>i \<in> {order..MAX_ORDER}. free_blocks b i = [])"
proof -
  have "free_page_count b = free_page_count b' + 2 ^ order"
    if "buddy_ok b'" "pages order a \<subseteq> free_frames b" "free_frames b' = free_frames b - pages order a"
    for a b'
  proof -
    have "finite (free_frames b)" by (simp add: free_frames_def free_set_def)
    then have "card (free_frames b) = card (free_frames b') + card (pages order a)"
      using that(2,3) card_mono [OF _ that(2)] by (simp add: card_Diff_subset)
    then show ?thesis using that(1) assms(1) by (simp add: free_page_count_def free_pages_card)
  qed
  then show ?thesis
    using alloc_ok [OF assms(1,2) demand_room [OF assms(3)]] unfolding aligned_def by blast
qed

theorem alloc_takes_witness:
  "buddy_ok demo_buddy \<and> nblocks (free_blocks demo_buddy) + MAX_ORDER \<le> POOL_SIZE \<and>
   ((\<exists>a b'. buddy_alloc 1 demo_buddy = ret (Some a, b') \<and> buddy_ok b' \<and> PAGE_SIZE * 2 ^ 1 dvd a \<and>
       pages 1 a \<subseteq> free_frames demo_buddy \<and> free_frames b' = free_frames demo_buddy - pages 1 a \<and>
       free_page_count demo_buddy = free_page_count b' + 2 ^ 1 \<and>
       (coalesced (free_blocks demo_buddy) \<longrightarrow> coalesced (free_blocks b'))) \<or>
    buddy_alloc 1 demo_buddy = ret (None, demo_buddy) \<and> (\<forall>i \<in> {1..MAX_ORDER}. free_blocks demo_buddy i = []))"
proof -
  have room: "nblocks (free_blocks demo_buddy) + MAX_ORDER \<le> POOL_SIZE"
    using demo_buddy_ok(3) by (simp add: MAX_ORDER_def POOL_SIZE_def)
  show ?thesis
    using alloc_takes [OF demo_buddy_ok(1) _ room, of 1] room demo_buddy_ok(1)
    by (simp add: MAX_ORDER_def)
qed

text \<open>(C25) Round trip. Freeing a block that was just allocated always returns, merges it with its
  free buddies, and leaves the allocator with exactly the free pages it had before the allocation;
  no two free buddies remain unmerged.\<close>

theorem alloc_free_roundtrip:
  assumes "buddy_ok b" "order \<le> MAX_ORDER" "nblocks (free_blocks b) + MAX_ORDER \<le> POOL_SIZE"
    "buddy_alloc order b = ret (Some a, b')"
  shows "\<exists>b''. buddy_free a order b' = ret b'' \<and> buddy_ok b'' \<and> free_frames b'' = free_frames b \<and>
           free_page_count b'' = free_page_count b \<and> (coalesced (free_blocks b) \<longrightarrow> coalesced (free_blocks b''))"
proof -
  have al: "buddy_ok b'" "aligned order a" "pages order a \<subseteq> free_frames b"
    "free_frames b' = free_frames b - pages order a" "nblocks (free_blocks b') < POOL_SIZE"
    "coalesced (free_blocks b) \<longrightarrow> coalesced (free_blocks b')"
    using alloc_ok [OF assms(1,2) demand_room [OF assms(3)]] assms(4) by auto
  obtain b'' where b: "buddy_free a order b' = ret b''" "buddy_ok b''"
    "free_frames b'' = free_frames b' \<union> pages order a"
    "coalesced (free_blocks b') \<longrightarrow> coalesced (free_blocks b'')"
    using free_ok [OF al(1) assms(2) al(2) _ al(5)] al(4) by blast
  have "free_frames b'' = free_frames b" using b(3) al(3,4) by blast
  then show ?thesis
    using b al(6) assms(1) by (auto simp: free_page_count_def free_pages_card)
qed

theorem alloc_free_roundtrip_witness:
  "\<exists>a b' b''. buddy_alloc 1 demo_buddy = ret (Some a, b') \<and> buddy_free a 1 b' = ret b'' \<and> buddy_ok b'' \<and>
     free_frames b'' = free_frames demo_buddy \<and> free_page_count b'' = free_page_count demo_buddy \<and>
     (coalesced (free_blocks demo_buddy) \<longrightarrow> coalesced (free_blocks b''))"
proof -
  have room: "nblocks (free_blocks demo_buddy) + MAX_ORDER \<le> POOL_SIZE"
    using demo_buddy_ok(3) by (simp add: MAX_ORDER_def POOL_SIZE_def)
  have "\<not> (\<forall>i \<in> {1..MAX_ORDER}. free_blocks demo_buddy i = [])"
  proof -
    have "free_lists demo_buddy 2 \<noteq> 0"
      by (simp add: demo_buddy_def add_region_def demo_blocks push_block_def pool_alloc_def
          init_pool_def in_pool_def BuddyAllocator_new_def PAGE_SIZE_def MAX_ORDER_def POOL_SIZE_def)
    then have "free_blocks demo_buddy 2 \<noteq> []"
      using tracks_head [of demo_buddy "free_blocks demo_buddy" 2] demo_buddy_ok(1)
      by (simp add: buddy_ok_def MAX_ORDER_def)
    then show ?thesis by (auto simp: MAX_ORDER_def)
  qed
  then obtain a b' where "buddy_alloc 1 demo_buddy = ret (Some a, b')"
    using alloc_ok [OF demo_buddy_ok(1) _ demand_room [OF room], of 1] by (auto simp: MAX_ORDER_def)
  then show ?thesis
    using alloc_free_roundtrip [OF demo_buddy_ok(1) _ room, of 1 a b'] by (auto simp: MAX_ORDER_def)
qed

text \<open>(C26) Partition of memory. \<open>drain_for_usercaps\<close> always returns. The blocks it hands to user
  space were free, are at most as many as the caller's buffer holds, are disjoint, and are exactly
  the pages the kernel gives up; the kernel keeps at least \<open>reserve_pages\<close> pages, or all it had when
  it had fewer.\<close>

theorem drain_keeps_reserve:
  assumes "buddy_ok b"
  shows "\<exists>out b'. drain_for_usercaps reserve_pages n b = ret (out, b') \<and> buddy_ok b' \<and>
           length out \<le> n \<and> drained out \<subseteq> free_frames b \<and> free_frames b' = free_frames b - drained out \<and>
           card (drained out) = drained_pages out \<and>
           free_page_count b = free_page_count b' + drained_pages out \<and>
           min reserve_pages (free_page_count b) \<le> free_page_count b'"
proof -
  have "drains reserve_pages n (drain_for_usercaps reserve_pages n b) b []"
    unfolding drain_for_usercaps_def by (rule drain_orders_ok [OF assms]) auto
  then obtain out b' where d: "drain_for_usercaps reserve_pages n b = ret (out, b')" "buddy_ok b'"
    "length out \<le> n" "drained out \<subseteq> free_frames b" "free_frames b' = free_frames b - drained out"
    "free_pages b = free_pages b' + drained_pages out" "min reserve_pages (free_pages b) \<le> free_pages b'"
    unfolding drains_def by auto
  have "finite (free_frames b)" by (simp add: free_frames_def free_set_def)
  then have "card (free_frames b) = card (free_frames b') + card (drained out)"
    using d(4,5) card_mono [OF _ d(4)] finite_subset [OF d(4)] by (simp add: card_Diff_subset)
  then have "card (drained out) = drained_pages out"
    using d(2,6) assms by (simp add: free_pages_card)
  then show ?thesis using d by (auto simp: free_page_count_def)
qed

theorem drain_keeps_reserve_witness:
  "buddy_ok demo_buddy \<and>
   (\<exists>out b'. drain_for_usercaps 1 8 demo_buddy = ret (out, b') \<and> buddy_ok b' \<and>
      length out \<le> 8 \<and> drained out \<subseteq> free_frames demo_buddy \<and>
      free_frames b' = free_frames demo_buddy - drained out \<and> card (drained out) = drained_pages out \<and>
      free_page_count demo_buddy = free_page_count b' + drained_pages out \<and>
      min 1 (free_page_count demo_buddy) \<le> free_page_count b')"
  using drain_keeps_reserve [OF demo_buddy_ok(1), of 1 8] demo_buddy_ok(1) by blast

end
