(* ===== verification/Intrusive_Fifo.thy ===== *)
theory Intrusive_Fifo
  imports Kernel_Prelude
begin

text \<open>
  First-in-first-out queues threaded through a link field of heap nodes, as the run queues and the
  endpoint wait queues use them. \<open>fifo nx a z xs\<close> says that the links \<open>nx\<close>, the head and the tail
  pointer represent the list \<open>xs\<close>. The lemmas cover the three pointer manipulations the code
  performs: appending, removing the head and unlinking an inner node.

  The locale \<open>fifo_queue\<close> is the contract both implementations satisfy; its lemmas (order of
  delivery, independence of queues with disjoint nodes) are proved once.
\<close>

section \<open>Head, tail and links\<close>

definition last_opt :: "'a list \<Rightarrow> 'a option" where
  "last_opt xs = (if xs = [] then None else Some (last xs))"

lemma last_opt_simps [simp]:
  "last_opt [] = None" "last_opt (xs @ [x]) = Some x" "last_opt xs = None \<longleftrightarrow> xs = []"
  by (simp_all add: last_opt_def)

lemma last_opt_SomeE:
  assumes "last_opt xs = Some x"
  obtains ys where "xs = ys @ [x]"
  using assms by (cases xs rule: rev_cases) auto

lemma last_opt_append: "ys \<noteq> [] \<Longrightarrow> last_opt (xs @ ys) = last_opt ys"
  by (simp add: last_opt_def)

lemma last_opt_Cons: "last_opt (x # xs) = Some (if xs = [] then x else last xs)"
  by (simp add: last_opt_def)

definition fifo :: "('p \<Rightarrow> 'p option) \<Rightarrow> 'p option \<Rightarrow> 'p option \<Rightarrow> 'p list \<Rightarrow> bool" where
  "fifo nx a z xs \<longleftrightarrow> llist nx a xs \<and> z = last_opt xs"

lemma fifo_empty [simp]: "fifo nx None None []"
  by (simp add: fifo_def)

lemma fifo_head: "fifo nx a z xs \<Longrightarrow> a = None \<longleftrightarrow> xs = []"
  by (cases xs) (auto simp: fifo_def)

lemma fifo_tail: "fifo nx a z xs \<Longrightarrow> z = None \<longleftrightarrow> xs = []"
  by (auto simp: fifo_def)

lemma fifo_distinct: "fifo nx a z xs \<Longrightarrow> distinct xs"
  by (auto simp: fifo_def dest: llist_distinct)

lemma fifo_cong: "(\<And>x. x \<in> set xs \<Longrightarrow> nx x = nx' x) \<Longrightarrow> fifo nx a z xs = fifo nx' a z xs"
  by (simp add: fifo_def cong: lseg_cong)

lemma fifo_append_first: "fifo nx None None xs \<Longrightarrow> fifo (nx(x := None)) (Some x) (Some x) (xs @ [x])"
  by (simp add: fifo_def last_opt_def)

lemma fifo_append:
  assumes "fifo nx a (Some t) xs" "x \<notin> set xs"
  shows "fifo (nx(x := None, t := Some x)) a (Some x) (xs @ [x])" "t \<in> set xs"
proof -
  obtain ys where xs: "xs = ys @ [t]" using assms(1) by (auto simp: fifo_def elim: last_opt_SomeE [OF sym])
  then show "t \<in> set xs" by simp
  show "fifo (nx(x := None, t := Some x)) a (Some x) (xs @ [x])"
    using assms fifo_distinct [OF assms(1)] xs by (auto simp: fifo_def lseg_append last_opt_def)
qed

lemma fifo_remove_head:
  assumes "fifo nx a z (x # xs)"
  shows "a = Some x" "fifo (nx(x := None)) (nx x) (if nx x = None then None else z) xs"
  using assms fifo_distinct [OF assms] by (cases xs; auto simp: fifo_def last_opt_def)+

lemma fifo_unlink:
  assumes f: "fifo nx a z (us @ c # vs)"
  shows "fifo ((case last_opt us of None \<Rightarrow> nx | Some p \<Rightarrow> nx(p := nx c))(c := None))
    (if us = [] then nx c else a) (if z = Some c then last_opt us else z) (us @ vs)"
proof -
  have d: "distinct (us @ c # vs)" by (rule fifo_distinct [OF f])
  have z: "z = Some (if vs = [] then c else last vs)"
    using f by (simp add: fifo_def last_opt_append last_opt_Cons)
  then have z': "(if z = Some c then last_opt us else z) = last_opt (us @ vs)"
    using d by (cases vs rule: rev_cases) (auto simp: last_opt_append)
  have l: "lseg nx a us (Some c)" "llist nx (nx c) vs" using f by (auto simp: fifo_def lseg_append)
  show ?thesis
  proof (cases us rule: rev_cases)
    case Nil
    then show ?thesis using l d z' by (simp add: fifo_def)
  next
    case (snoc ws p)
    then have "lseg nx a ws (Some p)" using l(1) by (auto simp: lseg_append)
    then show ?thesis using snoc l d z' by (auto simp: fifo_def lseg_append)
  qed
qed

section \<open>Links of a heap of nodes\<close>

definition nxt :: "('n \<Rightarrow> ptr option) \<Rightarrow> (ptr \<Rightarrow> 'n option) \<Rightarrow> ptr \<Rightarrow> ptr option" where
  "nxt get h p = Option.bind (h p) get"

lemma nxt_upd [simp]: "nxt get (h(p \<mapsto> t)) = (nxt get h)(p := get t)"
  by (auto simp: nxt_def)

lemma nxt_live [simp]: "h p = Some t \<Longrightarrow> nxt get h p = get t"
  by (simp add: nxt_def)

text \<open>\<open>only_links clr S h h'\<close>: the heaps agree outside \<open>S\<close>, and inside up to the field that \<open>clr\<close> erases.\<close>

definition only_links :: "('n \<Rightarrow> 'n) \<Rightarrow> ptr set \<Rightarrow> (ptr \<Rightarrow> 'n option) \<Rightarrow> (ptr \<Rightarrow> 'n option) \<Rightarrow> bool" where
  "only_links clr S h h' \<longleftrightarrow> (\<forall>p. p \<notin> S \<longrightarrow> h' p = h p) \<and> (\<forall>p. map_option clr (h' p) = map_option clr (h p))"

lemma only_links_refl [simp]: "only_links clr S h h"
  by (simp add: only_links_def)

lemma only_links_trans:
  "only_links clr S h h' \<Longrightarrow> only_links clr T h' h'' \<Longrightarrow> only_links clr (S \<union> T) h h''"
  by (simp add: only_links_def)

lemma only_links_mono: "only_links clr S h h' \<Longrightarrow> S \<subseteq> T \<Longrightarrow> only_links clr T h h'"
  by (auto simp: only_links_def)

lemma only_links_upd:
  "only_links clr S h h' \<Longrightarrow> p \<in> S \<Longrightarrow> h' p = Some t \<Longrightarrow> clr t' = clr t \<Longrightarrow> only_links clr S h (h'(p \<mapsto> t'))"
  unfolding only_links_def by (metis (no_types, lifting) fun_upd_other fun_upd_same option.simps(9))

lemma only_links_live: "only_links clr S h h' \<Longrightarrow> h' p = None \<longleftrightarrow> h p = None"
  by (metis only_links_def map_option_is_None)

lemma only_links_field:
  assumes "only_links clr S h h'" "h' p = Some t'" "\<And>t. f (clr t) = f t"
  shows "\<exists>t. h p = Some t \<and> f t' = f t"
proof -
  have "map_option clr (h p) = Some (clr t')" using assms(1,2) by (metis only_links_def option.simps(9))
  then obtain t where "h p = Some t" "clr t = clr t'" by auto
  then show ?thesis using assms(3) by metis
qed

lemma only_links_fifo:
  "only_links clr S h h' \<Longrightarrow> set xs \<inter> S = {} \<Longrightarrow> fifo (nxt get h) a z xs \<Longrightarrow> fifo (nxt get h') a z xs"
  by (subst fifo_cong [of xs _ "nxt get h"]) (auto simp: only_links_def nxt_def)

section \<open>Queues through one link field\<close>

text \<open>The pointer updates of a queue whose nodes are linked through one field, for any such field.\<close>

locale link_field =
  fixes get :: "'n \<Rightarrow> ptr option" and upd :: "ptr option \<Rightarrow> 'n \<Rightarrow> 'n"
  assumes get_upd: "get (upd v x) = v"
    and upd_upd: "upd v (upd w x) = upd v x"
begin

definition keeps :: "ptr set \<Rightarrow> (ptr \<Rightarrow> 'n option) \<Rightarrow> (ptr \<Rightarrow> 'n option) \<Rightarrow> bool" where
  "keeps = only_links (upd None)"

definition rep :: "(ptr \<Rightarrow> 'n option) \<Rightarrow> ptr option \<Rightarrow> ptr option \<Rightarrow> ptr list \<Rightarrow> bool" where
  "rep h a z xs \<longleftrightarrow> fifo (nxt get h) a z xs \<and> (\<forall>x \<in> set xs. h x \<noteq> None)"

lemma keeps_refl: "keeps S h h"
  by (simp add: keeps_def)

lemma keeps_upd: "keeps S h h' \<Longrightarrow> p \<in> S \<Longrightarrow> h' p = Some t \<Longrightarrow> keeps S h (h'(p \<mapsto> upd v t))"
  unfolding keeps_def by (erule only_links_upd) (simp_all add: upd_upd)

lemma append_first:
  assumes "rep h a None xs" "h x = Some t"
  shows "xs = []" "a = None" "rep (h(x \<mapsto> upd None t)) (Some x) (Some x) (xs @ [x])"
    "keeps (insert x (set xs)) h (h(x \<mapsto> upd None t))"
proof -
  show "xs = []" "a = None" using assms(1) fifo_tail [of "nxt get h" a None xs] fifo_head [of "nxt get h" a None xs] by (auto simp: rep_def)
  then show "rep (h(x \<mapsto> upd None t)) (Some x) (Some x) (xs @ [x])"
    using fifo_append_first [of "nxt get h" "[]" x] by (simp add: rep_def get_upd)
  show "keeps (insert x (set xs)) h (h(x \<mapsto> upd None t))" by (rule keeps_upd [OF keeps_refl]) (simp_all add: assms)
qed

lemma append_last:
  assumes r: "rep h a (Some z) xs" and x: "h x = Some t" "x \<notin> set xs"
  shows "\<exists>y. h z = Some y \<and> z \<noteq> x \<and> rep (h(x \<mapsto> upd None t, z \<mapsto> upd (Some x) y)) a (Some x) (xs @ [x]) \<and>
    keeps (insert x (set xs)) h (h(x \<mapsto> upd None t, z \<mapsto> upd (Some x) y))"
proof -
  have f: "fifo (nxt get h) a (Some z) xs" "\<forall>x \<in> set xs. h x \<noteq> None" using r by (auto simp: rep_def)
  note app = fifo_append [OF f(1) x(2)]
  then obtain y where y: "h z = Some y" "z \<noteq> x" using f(2) x(2) by fastforce
  have "keeps (insert x (set xs)) h (h(x \<mapsto> upd None t, z \<mapsto> upd (Some x) y))"
    by (intro keeps_upd keeps_refl) (use app(2) y x in simp_all)
  moreover have "rep (h(x \<mapsto> upd None t, z \<mapsto> upd (Some x) y)) a (Some x) (xs @ [x])"
    using app(1) f(2) by (simp add: rep_def get_upd)
  ultimately show ?thesis using y by blast
qed

lemma remove_head:
  assumes r: "rep h a z (x # xs)"
  shows "\<exists>t. a = Some x \<and> h x = Some t \<and> rep (h(x \<mapsto> upd None t)) (get t) (if get t = None then None else z) xs \<and>
    keeps (set (x # xs)) h (h(x \<mapsto> upd None t))"
proof -
  have f: "fifo (nxt get h) a z (x # xs)" using r by (simp add: rep_def)
  obtain t where t: "h x = Some t" using r by (auto simp: rep_def)
  have "keeps (set (x # xs)) h (h(x \<mapsto> upd None t))" by (rule keeps_upd [OF keeps_refl]) (simp_all add: t)
  moreover have "rep (h(x \<mapsto> upd None t)) (get t) (if get t = None then None else z) xs"
    using fifo_remove_head(2) [OF f] t r by (simp add: rep_def get_upd)
  ultimately show ?thesis using t fifo_remove_head(1) [OF f] by blast
qed

lemma unlink_head:
  assumes r: "rep h a z (c # vs)"
  shows "\<exists>t. h c = Some t \<and> rep (h(c \<mapsto> upd None t)) (get t) (if z = Some c then None else z) vs \<and>
    keeps (set (c # vs)) h (h(c \<mapsto> upd None t))"
proof -
  have f: "fifo (nxt get h) a z ([] @ c # vs)" using r by (simp add: rep_def)
  obtain t where t: "h c = Some t" using r by (auto simp: rep_def)
  have "keeps (set (c # vs)) h (h(c \<mapsto> upd None t))" by (rule keeps_upd [OF keeps_refl]) (simp_all add: t)
  then show ?thesis using fifo_unlink [OF f] t r by (auto simp: rep_def get_upd)
qed

lemma unlink_inner:
  assumes r: "rep h a z (us @ p # c # vs)"
  shows "\<exists>y t. h p = Some y \<and> h c = Some t \<and> p \<noteq> c \<and>
    rep (h(p \<mapsto> upd (get t) y, c \<mapsto> upd None t)) a (if z = Some c then Some p else z) (us @ p # vs) \<and>
    keeps (set (us @ p # c # vs)) h (h(p \<mapsto> upd (get t) y, c \<mapsto> upd None t))"
proof -
  have f: "fifo (nxt get h) a z ((us @ [p]) @ c # vs)" using r by (simp add: rep_def)
  obtain y t where y: "h p = Some y" "h c = Some t" using r by (auto simp: rep_def)
  have pc: "p \<noteq> c" using fifo_distinct [OF f] by auto
  have "keeps (set (us @ p # c # vs)) h (h(p \<mapsto> upd (get t) y, c \<mapsto> upd None t))"
    by (intro keeps_upd keeps_refl) (use y pc in simp_all)
  then show ?thesis using fifo_unlink [OF f] y pc r by (auto simp: rep_def get_upd)
qed

lemma keeps_rep: "keeps S h h' \<Longrightarrow> set xs \<inter> S = {} \<Longrightarrow> rep h a z xs \<Longrightarrow> rep h' a z xs"
  using only_links_fifo only_links_live unfolding keeps_def rep_def by metis

lemma keeps_live: "keeps S h h' \<Longrightarrow> (h' p \<noteq> None) = (h p \<noteq> None)"
  using only_links_live unfolding keeps_def by metis

lemma rep_distinct: "rep h a z xs \<Longrightarrow> distinct xs"
  using fifo_distinct by (auto simp: rep_def)

lemma rep_empty: "rep h a z [] \<longleftrightarrow> a = None \<and> z = None"
  by (auto simp: rep_def fifo_def)

lemma rep_links: "rep h a z xs \<Longrightarrow> llist (nxt get h) a xs"
  by (simp add: rep_def fifo_def)

lemma rep_live: "rep h a z xs \<Longrightarrow> x \<in> set xs \<Longrightarrow> \<exists>t. h x = Some t"
  by (auto simp: rep_def)

end

section \<open>The contract of a queue\<close>

locale fifo_queue =
  fixes enq :: "'q \<Rightarrow> ptr \<Rightarrow> 'h \<Rightarrow> ('q \<times> 'h) run"
    and deq :: "'q \<Rightarrow> 'h \<Rightarrow> (ptr option \<times> 'q \<times> 'h) run"
    and rem :: "ptr \<Rightarrow> 'q \<Rightarrow> 'h \<Rightarrow> (bool \<times> 'q \<times> 'h) run"
    and rep :: "'h \<Rightarrow> 'q \<Rightarrow> ptr list \<Rightarrow> bool"
    and keeps :: "ptr set \<Rightarrow> 'h \<Rightarrow> 'h \<Rightarrow> bool"
    and live :: "'h \<Rightarrow> ptr \<Rightarrow> bool"
  assumes enq_law: "rep h q xs \<Longrightarrow> live h x \<Longrightarrow> x \<notin> set xs \<Longrightarrow>
      \<exists>q' h'. enq q x h = ret (q', h') \<and> rep h' q' (xs @ [x]) \<and> keeps (insert x (set xs)) h h'"
    and deq_empty_law: "rep h q [] \<Longrightarrow> deq q h = ret (None, q, h)"
    and deq_law: "rep h q (x # xs) \<Longrightarrow>
      \<exists>q' h'. deq q h = ret (Some x, q', h') \<and> rep h' q' xs \<and> keeps (set (x # xs)) h h'"
    and rem_law: "rep h q xs \<Longrightarrow>
      \<exists>q' h'. rem x q h = ret (x \<in> set xs, q', h') \<and> rep h' q' (remove1 x xs) \<and> keeps (set xs) h h'"
    and keeps_rep: "keeps S h h' \<Longrightarrow> set xs \<inter> S = {} \<Longrightarrow> rep h q xs \<Longrightarrow> rep h' q xs"
    and keeps_live: "keeps S h h' \<Longrightarrow> live h' p = live h p"
    and rep_distinct: "rep h q xs \<Longrightarrow> distinct xs"
begin

text \<open>Appending a batch of new nodes, then taking as many as were appended.\<close>

lemma enq_all:
  assumes "rep h q xs" "distinct ys" "set ys \<inter> set xs = {}" "\<forall>y \<in> set ys. live h y"
  shows "\<exists>q' h'. foldl (\<lambda>s y. Option.bind s (\<lambda>(q, h). enq q y h)) (ret (q, h)) ys = ret (q', h') \<and>
    rep h' q' (xs @ ys) \<and> (\<forall>p. live h' p = live h p)"
  using assms
proof (induction ys arbitrary: q h xs)
  case Nil
  then show ?case by auto
next
  case (Cons y ys)
  obtain q1 h1 where 1: "enq q y h = ret (q1, h1)" "rep h1 q1 (xs @ [y])" "keeps (insert y (set xs)) h h1"
    using enq_law [OF Cons.prems(1), of y] Cons.prems by auto
  then show ?case using Cons.IH [OF 1(2)] Cons.prems keeps_live [OF 1(3)] by auto
qed

fun take_all :: "nat \<Rightarrow> 'q \<Rightarrow> 'h \<Rightarrow> (ptr list \<times> 'q \<times> 'h) run" where
  "take_all 0 q h = ret ([], q, h)"
| "take_all (Suc n) q h = do {
     (r, q, h) \<leftarrow> deq q h;
     (case r of
        None \<Rightarrow> ret ([], q, h)
      | Some x \<Rightarrow> do { (xs, q, h) \<leftarrow> take_all n q h; ret (x # xs, q, h) })
   }"

lemma take_all_order:
  "rep h q xs \<Longrightarrow> \<exists>q' h'. take_all n q h = ret (take n xs, q', h') \<and> rep h' q' (drop n xs)"
proof (induction n arbitrary: q h xs)
  case 0
  then show ?case by auto
next
  case (Suc n)
  show ?case
  proof (cases xs)
    case Nil
    then show ?thesis using Suc.prems deq_empty_law [of h q] by auto
  next
    case (Cons x ys)
    then obtain q1 h1 where "deq q h = ret (Some x, q1, h1)" "rep h1 q1 ys" using deq_law Suc.prems by blast
    then show ?thesis using Suc.IH [of h1 q1 ys] Cons by auto
  qed
qed

lemma enq_other:
  assumes "rep h q xs" "rep h r ys" "live h x" "x \<notin> set xs" "x \<notin> set ys" "set xs \<inter> set ys = {}"
  shows "\<exists>q' h'. enq q x h = ret (q', h') \<and> rep h' q' (xs @ [x]) \<and> rep h' r ys"
  using enq_law [OF assms(1,3,4)] keeps_rep [OF _ _ assms(2)] assms(5,6) by (metis Int_commute disjoint_insert(1))

end

end
