(* ===== verification/Kernel_State.thy ===== *)
theory Kernel_State
  imports Derivation Trap_Frame Buddy Intrusive_Fifo
begin

text \<open>
  The kernel's global state as one record: the thread control blocks of
  \<open>kernel/src/sched/thread.rs\<close>, the per-CPU schedulers of \<open>sched/run_queue.rs\<close> and
  \<open>sched/mod.rs\<close>, the IPC objects of \<open>kernel/src/ipc\<close>, and the kernel objects that capabilities
  name (\<open>cap/object.rs\<close>). Each heap maps an address to the structure behind it; an address that was
  never allocated or has been freed maps to \<open>None\<close>, and dereferencing it is the value \<open>panic\<close>.

  Stacks are not part of the record; the page tables of user address spaces are its field \<open>ptables\<close>. Of the
  hardware it holds what the modelled code reads or writes: the number of the executing CPU, the tick counter, the page-table root and
  the trap stack each CPU has loaded, the list of inter-processor interrupts sent, the masked
  interrupt lines and the list of lines acknowledged, and the bytes of memory by page-table
  root and virtual address. The field \<open>saved_frame\<close> of a thread is the register frame that its
  \<open>trap_frame\<close> pointer leads to, \<open>None\<close> for the null pointer. The field \<open>frames\<close> is the physical frame
  allocator.
\<close>

section \<open>Threads\<close>

datatype ipc_thread_state =
  IpcNone | BlockedOnSend | BlockedOnRecv | BlockedOnReply | BlockedOnSignal |
  BlockedOnEventQueue | BlockedOnWaitSet

datatype thread_state = Created | Ready | Running | Blocked | Stopped | Exited

record message =
  label :: u64
  msg_token :: u64
  msg_data :: "u64 list"
  data_count :: nat
  cap_slots :: "nat list"
  cap_count :: nat

definition default_message :: message where
  "default_message = \<lparr>label = 0, msg_token = 0, msg_data = replicate MSG_DATA_WORDS_MAX 0,
     data_count = 0, cap_slots = replicate MSG_CAP_SLOTS_MAX 0, cap_count = 0\<rparr>"

definition Message_new :: "u64 \<Rightarrow> message" where
  "Message_new l = default_message\<lparr>label := l\<rparr>"

record tcb =
  state :: thread_state
  priority :: nat
  slice_remaining :: nat
  cpu_affinity :: nat
  preferred_cpu :: nat
  run_queue_next :: "ptr option"
  ipc_state :: ipc_thread_state
  ipc_msg :: message
  reply_tcb :: "ptr option"
  ipc_wait_next :: "ptr option"
  is_user :: bool
  kernel_stack_top :: nat
  address_space :: "ptr option"
  tcb_cspace :: "ptr option"
  ipc_buffer :: nat
  wakeup_value :: u64
  blocked_on_object :: "ptr option"
  thread_id :: nat
  context_saved :: bool
  death_notification :: "ptr option"
  sleep_deadline :: nat
  magic :: u64
  saved_frame :: "trap_frame option"
  iopb :: "u8 list option"

definition TCB_MAGIC :: u64 where "TCB_MAGIC = 0xDEADBEEFCAFEF00D"

section \<open>Schedulers\<close>

definition NUM_PRIORITY_LEVELS :: nat where "NUM_PRIORITY_LEVELS = 32"
definition IDLE_PRIORITY :: nat where "IDLE_PRIORITY = 0"
definition TIME_SLICE_TICKS :: nat where "TIME_SLICE_TICKS = 10"
definition MAX_CPUS :: nat where "MAX_CPUS = 64"
definition AFFINITY_ANY :: nat where "AFFINITY_ANY = 0xFFFFFFFF"
definition MAX_SLEEPING :: nat where "MAX_SLEEPING = 16"

record run_queue =
  rq_head :: "ptr option"
  rq_tail :: "ptr option"

record per_cpu_scheduler =
  queues :: "run_queue list"
  non_empty :: u32
  current :: "ptr option"
  idle :: "ptr option"
  sched_cpu_id :: nat

section \<open>IPC objects\<close>

record endpoint_state =
  send_head :: "ptr option"
  send_tail :: "ptr option"
  recv_head :: "ptr option"
  recv_tail :: "ptr option"
  ep_wait_set :: "ptr option"
  ep_member_idx :: nat

record signal_state =
  bits :: u64
  sig_waiter :: "ptr option"
  sig_wait_set :: "ptr option"
  sig_member_idx :: nat
  has_observer :: bool

record event_queue_state =
  ring :: "u64 list"
  eq_capacity :: nat
  eq_count :: nat
  write_idx :: nat
  read_idx :: nat
  eq_waiter :: "ptr option"
  eq_wait_set :: "ptr option"
  eq_member_idx :: nat

datatype wait_set_source_tag = SrcEndpoint | SrcSignal | SrcEventQueue

record wait_set_member =
  source_ptr :: ptr
  source_tag :: wait_set_source_tag
  member_token :: u64

record wait_set_state =
  members :: "wait_set_member option list"
  member_count :: nat
  ready_ring :: "nat list"
  ready_head :: nat
  ready_tail :: nat
  ws_waiter :: "ptr option"

section \<open>Kernel objects\<close>

datatype kobject =
    FrameObj (frame_base: nat) (frame_size: nat)
  | MmioRegionObj (mmio_base: nat) (mmio_size: nat) (mmio_flags: nat)
  | InterruptObj (irq_id: nat) (irq_flags: nat)
  | IoPortRangeObj (port_base: nat) (port_size: nat)
  | SchedControlObj
  | SbiControlObj
  | ThreadObj (thread_tcb: "ptr option")
  | AddressSpaceObj (object_aspace: "ptr option")
  | CSpaceObj (object_cspace: "ptr option")
  | EndpointObj (object_endpoint: "ptr option")
  | SignalObj (object_signal: "ptr option")
  | EventQueueObj (object_event_queue: "ptr option")
  | WaitSetObj (object_wait_set: "ptr option")

record kernel_object =
  ref_count :: u32
  body :: kobject

record aspace =
  root_phys :: nat
  active_cpus :: u64

section \<open>The state\<close>

record kernel =
  kcaps :: cap_state
  objects :: "ptr \<Rightarrow> kernel_object option"
  tcbs :: "ptr \<Rightarrow> tcb option"
  scheds :: "nat \<Rightarrow> per_cpu_scheduler"
  cpu_load :: "nat \<Rightarrow> u32"
  cpu_count :: nat
  this_cpu :: nat
  idle_mask :: u64
  apic_ids :: "nat \<Rightarrow> nat"
  ipis_sent :: "nat list"
  current_tick :: nat
  sleep_list :: "ptr option list"
  sleep_count :: nat
  endpoints :: "ptr \<Rightarrow> endpoint_state option"
  signals :: "ptr \<Rightarrow> signal_state option"
  event_queues :: "ptr \<Rightarrow> event_queue_state option"
  wait_sets :: "ptr \<Rightarrow> wait_set_state option"
  irq_table :: "nat \<Rightarrow> ptr option"
  aspaces :: "ptr \<Rightarrow> aspace option"
  cpu_root :: "nat \<Rightarrow> nat"
  kernel_root :: nat
  trap_stack :: "nat \<Rightarrow> nat"
  preempt_count :: "nat \<Rightarrow> nat"
  reschedule_pending :: u64
  next_thread_id :: nat
  brk :: ptr
  ticks_per_second :: nat
  irq_masked :: "nat \<Rightarrow> bool"
  irq_acked :: "nat list"
  frames :: buddy
  memory :: "nat \<Rightarrow> nat \<Rightarrow> u8"
  ptables :: "nat \<Rightarrow> nat \<Rightarrow> u64"
  tss_iopb :: "nat \<Rightarrow> u8 list"
  elapsed_us :: "u64 option"

type_synonym tcb_heap = "ptr \<Rightarrow> tcb option"

text \<open>Reading and updating the structure behind a pointer.\<close>

definition upd_tcb :: "ptr \<Rightarrow> (tcb \<Rightarrow> tcb) \<Rightarrow> kernel \<Rightarrow> kernel run" where
  "upd_tcb p f k = (case tcbs k p of None \<Rightarrow> panic | Some t \<Rightarrow> ret (k\<lparr>tcbs := (tcbs k)(p \<mapsto> f t)\<rparr>))"

definition put_endpoint :: "ptr \<Rightarrow> endpoint_state \<Rightarrow> kernel \<Rightarrow> kernel" where
  "put_endpoint p ep k = k\<lparr>endpoints := (endpoints k)(p \<mapsto> ep)\<rparr>"

definition put_signal :: "ptr \<Rightarrow> signal_state \<Rightarrow> kernel \<Rightarrow> kernel" where
  "put_signal p s k = k\<lparr>signals := (signals k)(p \<mapsto> s)\<rparr>"

definition put_event_queue :: "ptr \<Rightarrow> event_queue_state \<Rightarrow> kernel \<Rightarrow> kernel" where
  "put_event_queue p q k = k\<lparr>event_queues := (event_queues k)(p \<mapsto> q)\<rparr>"

definition put_wait_set :: "ptr \<Rightarrow> wait_set_state \<Rightarrow> kernel \<Rightarrow> kernel" where
  "put_wait_set p w k = k\<lparr>wait_sets := (wait_sets k)(p \<mapsto> w)\<rparr>"

definition put_sched :: "nat \<Rightarrow> per_cpu_scheduler \<Rightarrow> kernel \<Rightarrow> kernel" where
  "put_sched c s k = k\<lparr>scheds := (scheds k)(c := s)\<rparr>"

lemmas put_defs = put_endpoint_def put_signal_def put_event_queue_def put_wait_set_def put_sched_def

lemma upd_tcb_Some: "tcbs k p = Some t \<Longrightarrow> upd_tcb p f k = ret (k\<lparr>tcbs := (tcbs k)(p \<mapsto> f t)\<rparr>)"
  by (simp add: upd_tcb_def)

end
