(* ===== verification/Run_Queue.thy ===== *)
theory Run_Queue
  imports Kernel_State
begin

unbundle bit_operations_syntax

text \<open>
  The per-CPU run queues: \<open>kernel/src/sched/run_queue.rs\<close>.

  A \<open>run_queue\<close> is an intrusive list of thread control blocks, and a scheduler has one per priority
  level together with a bitmask of the non-empty ones. The invariant \<open>run_queues k Q\<close> relates the
  schedulers of all CPUs to abstract lists \<open>Q cpu priority\<close>; the operations are shown to act on these
  lists, and selection to return the oldest thread of the highest non-empty level.
\<close>

section \<open>Queues of one priority\<close>

definition RunQueue_new :: run_queue where
  "RunQueue_new = \<lparr>rq_head = None, rq_tail = None\<rparr>"

definition rq_enqueue :: "run_queue \<Rightarrow> ptr \<Rightarrow> tcb_heap \<Rightarrow> (run_queue \<times> tcb_heap) run" where
  "rq_enqueue q t h = do {
     x \<leftarrow> h t;
     let h = h(t \<mapsto> x\<lparr>run_queue_next := None\<rparr>);
     (case rq_tail q of
        None \<Rightarrow> ret (q\<lparr>rq_head := Some t, rq_tail := Some t\<rparr>, h)
      | Some tail \<Rightarrow> do {
          y \<leftarrow> h tail;
          ret (q\<lparr>rq_tail := Some t\<rparr>, h(tail \<mapsto> y\<lparr>run_queue_next := Some t\<rparr>))
        })
   }"

definition rq_dequeue :: "run_queue \<Rightarrow> tcb_heap \<Rightarrow> (ptr option \<times> run_queue \<times> tcb_heap) run" where
  "rq_dequeue q h =
     (case rq_head q of
        None \<Rightarrow> ret (None, q, h)
      | Some head \<Rightarrow> do {
          x \<leftarrow> h head;
          let q = q\<lparr>rq_head := run_queue_next x\<rparr>;
          let q = (if rq_head q = None then q\<lparr>rq_tail := None\<rparr> else q);
          ret (Some head, q, h(head \<mapsto> x\<lparr>run_queue_next := None\<rparr>))
        })"

definition rq_is_empty :: "run_queue \<Rightarrow> bool" where
  "rq_is_empty q \<longleftrightarrow> rq_head q = None"

definition rq_unlink :: "ptr option \<Rightarrow> ptr \<Rightarrow> run_queue \<Rightarrow> tcb_heap \<Rightarrow> (run_queue \<times> tcb_heap) run" where
  "rq_unlink prev c q h = do {
     x \<leftarrow> h c;
     (q, h) \<leftarrow> (case prev of
        None \<Rightarrow> ret (q\<lparr>rq_head := run_queue_next x\<rparr>, h)
      | Some p \<Rightarrow> do {
          y \<leftarrow> h p;
          ret (q, h(p \<mapsto> y\<lparr>run_queue_next := run_queue_next x\<rparr>))
        });
     let q = (if rq_tail q = Some c then q\<lparr>rq_tail := prev\<rparr> else q);
     x \<leftarrow> h c;
     ret (q, h(c \<mapsto> x\<lparr>run_queue_next := None\<rparr>))
   }"

partial_function (option) rq_remove_loop ::
  "ptr \<Rightarrow> ptr option \<Rightarrow> ptr option \<Rightarrow> run_queue \<Rightarrow> tcb_heap \<Rightarrow> (bool \<times> run_queue \<times> tcb_heap) run"
where
  "rq_remove_loop t prev cur q h =
     (case cur of
        None \<Rightarrow> Some (False, q, h)
      | Some c \<Rightarrow>
          (if c = t
           then (case rq_unlink prev c q h of None \<Rightarrow> None | Some (q', h') \<Rightarrow> Some (True, q', h'))
           else (case h c of
                   None \<Rightarrow> None
                 | Some x \<Rightarrow> rq_remove_loop t cur (run_queue_next x) q h)))"

definition rq_remove :: "ptr \<Rightarrow> run_queue \<Rightarrow> tcb_heap \<Rightarrow> (bool \<times> run_queue \<times> tcb_heap) run" where
  "rq_remove t q h = rq_remove_loop t None (rq_head q) q h"

section \<open>Schedulers\<close>

definition PerCpuScheduler_new :: per_cpu_scheduler where
  "PerCpuScheduler_new = \<lparr>queues = replicate NUM_PRIORITY_LEVELS RunQueue_new, non_empty = 0,
     current = None, idle = None, sched_cpu_id = 0\<rparr>"

definition increment_load :: "nat \<Rightarrow> kernel \<Rightarrow> kernel" where
  "increment_load c k = k\<lparr>cpu_load := (cpu_load k)(sched_cpu_id (scheds k c) :=
     cpu_load k (sched_cpu_id (scheds k c)) + 1)\<rparr>"

definition decrement_load :: "nat \<Rightarrow> kernel \<Rightarrow> kernel" where
  "decrement_load c k = k\<lparr>cpu_load := (cpu_load k)(sched_cpu_id (scheds k c) :=
     cpu_load k (sched_cpu_id (scheds k c)) - 1)\<rparr>"

definition current_load :: "nat \<Rightarrow> kernel \<Rightarrow> u32" where
  "current_load c k = cpu_load k (sched_cpu_id (scheds k c))"

text \<open>The update of queue \<open>p\<close> and of the thread heap that every scheduler operation ends with.\<close>

definition put_queue :: "nat \<Rightarrow> nat \<Rightarrow> run_queue \<Rightarrow> tcb_heap \<Rightarrow> kernel \<Rightarrow> kernel" where
  "put_queue c p q h k =
     (put_sched c (scheds k c\<lparr>queues := (queues (scheds k c))[p := q]\<rparr>) k)\<lparr>tcbs := h\<rparr>"

definition set_bit_ne :: "nat \<Rightarrow> nat \<Rightarrow> kernel \<Rightarrow> kernel" where
  "set_bit_ne c p k = put_sched c (scheds k c\<lparr>non_empty := non_empty (scheds k c) OR push_bit p 1\<rparr>) k"

definition clear_bit_ne :: "nat \<Rightarrow> nat \<Rightarrow> kernel \<Rightarrow> kernel" where
  "clear_bit_ne c p k =
     put_sched c (scheds k c\<lparr>non_empty := non_empty (scheds k c) AND NOT (push_bit p 1)\<rparr>) k"

definition sched_enqueue :: "nat \<Rightarrow> ptr \<Rightarrow> nat \<Rightarrow> kernel \<Rightarrow> kernel run" where
  "sched_enqueue c t p k = do {
     x \<leftarrow> tcbs k t;
     if magic x \<noteq> TCB_MAGIC then panic
     else if p \<ge> NUM_PRIORITY_LEVELS then panic
     else do {
       let k = increment_load c k;
       (q, h) \<leftarrow> rq_enqueue (queues (scheds k c) ! p) t (tcbs k);
       ret (set_bit_ne c p (put_queue c p q h k))
     }
   }"

definition leading_zeros :: "u32 \<Rightarrow> nat" where
  "leading_zeros w = length (takeWhile (\<lambda>i. \<not> bit w i) (rev [0..<32]))"

definition dequeue_highest :: "nat \<Rightarrow> kernel \<Rightarrow> (ptr option \<times> kernel) run" where
  "dequeue_highest c k =
     (let ne = non_empty (scheds k c)
      in if ne = 0 then ret (idle (scheds k c), k)
         else do {
           let p = 31 - leading_zeros ne;
           (r, q, h) \<leftarrow> rq_dequeue (queues (scheds k c) ! p) (tcbs k);
           t \<leftarrow> r;
           x \<leftarrow> h t;
           if magic x \<noteq> TCB_MAGIC then panic
           else do {
             let k = put_queue c p q h k;
             let k = (if rq_is_empty q then clear_bit_ne c p k else k);
             ret (Some t, decrement_load c k)
           }
         })"

definition set_idle :: "nat \<Rightarrow> ptr option \<Rightarrow> kernel \<Rightarrow> kernel" where
  "set_idle c t k = put_sched c (scheds k c\<lparr>idle := t\<rparr>) k"

definition set_current :: "nat \<Rightarrow> ptr option \<Rightarrow> kernel \<Rightarrow> kernel" where
  "set_current c t k = put_sched c (scheds k c\<lparr>current := t\<rparr>) k"

definition has_runnable :: "nat \<Rightarrow> kernel \<Rightarrow> bool" where
  "has_runnable c k \<longleftrightarrow> non_empty (scheds k c) \<noteq> 0"

text \<open>\<open>if self.queues[p].remove(tcb) && self.queues[p].is_empty() { clear bit }\<close>.\<close>

definition remove_and_clear :: "nat \<Rightarrow> nat \<Rightarrow> ptr \<Rightarrow> kernel \<Rightarrow> kernel run" where
  "remove_and_clear c p t k = do {
     (found, q, h) \<leftarrow> rq_remove t (queues (scheds k c) ! p) (tcbs k);
     let k = put_queue c p q h k;
     ret (if found \<and> rq_is_empty q then clear_bit_ne c p k else k)
   }"

definition remove_from_queue :: "nat \<Rightarrow> ptr \<Rightarrow> nat \<Rightarrow> kernel \<Rightarrow> kernel run" where
  "remove_from_queue c t p k =
     (if p \<ge> NUM_PRIORITY_LEVELS then ret k else remove_and_clear c p t k)"

definition change_priority :: "nat \<Rightarrow> ptr \<Rightarrow> nat \<Rightarrow> nat \<Rightarrow> kernel \<Rightarrow> kernel run" where
  "change_priority c t old new k =
     (if old = new then ret k
      else if \<not> (old < NUM_PRIORITY_LEVELS \<and> new < NUM_PRIORITY_LEVELS) then panic
      else do {
        k \<leftarrow> remove_and_clear c old t k;
        (q, h) \<leftarrow> rq_enqueue (queues (scheds k c) ! new) t (tcbs k);
        ret (set_bit_ne c new (put_queue c new q h k))
      })"

section \<open>One queue implements a list\<close>

interpretation rql: link_field run_queue_next "\<lambda>v. run_queue_next_update (\<lambda>_. v)"
  by unfold_locales simp_all

definition rq_rep :: "tcb_heap \<Rightarrow> run_queue \<Rightarrow> ptr list \<Rightarrow> bool" where
  "rq_rep h q xs \<longleftrightarrow> fifo (nxt run_queue_next h) (rq_head q) (rq_tail q) xs \<and> (\<forall>x \<in> set xs. h x \<noteq> None)"

definition rq_keeps :: "ptr set \<Rightarrow> tcb_heap \<Rightarrow> tcb_heap \<Rightarrow> bool" where
  "rq_keeps = only_links (run_queue_next_update (\<lambda>_. None))"

lemma rql_rep: "rql.rep h (rq_head q) (rq_tail q) xs = rq_rep h q xs"
  by (simp add: rql.rep_def rq_rep_def)

lemma rql_keeps: "rql.keeps = rq_keeps"
  by (simp add: rql.keeps_def rq_keeps_def fun_eq_iff)

lemma rq_keeps_refl [simp]: "rq_keeps S h h"
  by (simp add: rq_keeps_def)

lemma rq_enqueue_law:
  assumes r: "rq_rep h q xs" and x: "h x \<noteq> None" "x \<notin> set xs"
  shows "\<exists>q' h'. rq_enqueue q x h = ret (q', h') \<and> rq_rep h' q' (xs @ [x]) \<and> rq_keeps (insert x (set xs)) h h'"
proof -
  obtain t where t: "h x = Some t" using x(1) by auto
  show ?thesis
  proof (cases "rq_tail q")
    case None
    then show ?thesis
      using rql.append_first [of h "rq_head q" xs x t] r t by (auto simp: rq_enqueue_def rql_keeps simp flip: rql_rep)
  next
    case (Some z)
    then show ?thesis
      using rql.append_last [of h "rq_head q" z xs x t] r t x(2) by (auto simp: rq_enqueue_def rql_keeps simp flip: rql_rep)
  qed
qed

lemma rq_dequeue_law:
  assumes r: "rq_rep h q (x # xs)"
  shows "\<exists>q' h'. rq_dequeue q h = ret (Some x, q', h') \<and> rq_rep h' q' xs \<and> rq_keeps (set (x # xs)) h h'"
  using rql.remove_head [of h "rq_head q" "rq_tail q" x xs] r
  by (auto simp: rq_dequeue_def Let_def rql_keeps simp flip: rql_rep)

lemma rq_unlink_law:
  assumes r: "rq_rep h q (us @ c # vs)"
  shows "\<exists>q' h'. rq_unlink (last_opt us) c q h = ret (q', h') \<and> rq_rep h' q' (us @ vs) \<and>
    rq_keeps (set (us @ c # vs)) h h'"
proof (cases us rule: rev_cases)
  case Nil
  then show ?thesis
    using rql.unlink_head [of h "rq_head q" "rq_tail q" c vs] r
    by (auto simp: rq_unlink_def Let_def rql_keeps simp flip: rql_rep)
next
  case (snoc ws p)
  then show ?thesis
    using rql.unlink_inner [of h "rq_head q" "rq_tail q" ws p c vs] r
    by (auto simp: rq_unlink_def Let_def rql_keeps simp flip: rql_rep)
qed

lemma rq_remove_loop_law:
  assumes "rq_rep h q (us @ vs)" "x \<notin> set us" "lseg (nxt run_queue_next h) cur vs None"
  shows "\<exists>q' h'. rq_remove_loop x (last_opt us) cur q h = ret (x \<in> set vs, q', h') \<and>
    rq_rep h' q' (us @ remove1 x vs) \<and> rq_keeps (set (us @ vs)) h h'"
  using assms
proof (induction vs arbitrary: us cur)
  case Nil
  then show ?case by (simp add: rq_remove_loop.simps)
next
  case (Cons c vs)
  show ?case
  proof (cases "c = x")
    case True
    then show ?thesis using rq_unlink_law [OF Cons.prems(1)] Cons.prems(3)
      by (auto simp: rq_remove_loop.simps [of _ _ "Some _"])
  next
    case False
    obtain t where t: "h c = Some t" using Cons.prems(1) by (auto simp: rq_rep_def)
    show ?thesis
      using Cons.IH [of "us @ [c]" "run_queue_next t"] Cons.prems t False
      by (simp add: rq_remove_loop.simps [of _ _ "Some _"])
  qed
qed

lemma rq_remove_law:
  assumes "rq_rep h q xs"
  shows "\<exists>q' h'. rq_remove x q h = ret (x \<in> set xs, q', h') \<and> rq_rep h' q' (remove1 x xs) \<and> rq_keeps (set xs) h h'"
  using rq_remove_loop_law [of h q "[]" xs x "rq_head q"] assms by (simp add: rq_remove_def rq_rep_def fifo_def)

interpretation rq: fifo_queue rq_enqueue rq_dequeue rq_remove rq_rep rq_keeps "\<lambda>h p. h p \<noteq> None"
proof unfold_locales
  show "rq_dequeue q h = ret (None, q, h)" if "rq_rep h q []" for h q
    using that by (simp add: rq_rep_def rq_dequeue_def fifo_def)
  show "rq_rep h' q xs" if "rq_keeps S h h'" "set xs \<inter> S = {}" "rq_rep h q xs" for S h h' xs q
    using rql.keeps_rep [of S h h' xs "rq_head q" "rq_tail q"] that by (simp add: rql_keeps rql_rep)
  show "(h' p \<noteq> None) = (h p \<noteq> None)" if "rq_keeps S h h'" for S h h' p
    using rql.keeps_live [of S h h' p] that by (simp add: rql_keeps)
  show "distinct xs" if "rq_rep h q xs" for h q xs
    using rql.rep_distinct [of h "rq_head q" "rq_tail q" xs] that by (simp add: rql_rep)
qed (fact rq_enqueue_law rq_dequeue_law rq_remove_law)+

section \<open>All schedulers implement a table of lists\<close>

text \<open>\<open>Q c p\<close> is the list of ready threads of CPU \<open>c\<close> at priority \<open>p\<close>. A thread is in at most one of
  these lists, and every listed thread carries the magic cookie of a live control block.\<close>

definition run_queues :: "kernel \<Rightarrow> (nat \<Rightarrow> nat \<Rightarrow> ptr list) \<Rightarrow> bool" where
  "run_queues k Q \<longleftrightarrow>
     (\<forall>c < MAX_CPUS. length (queues (scheds k c)) = NUM_PRIORITY_LEVELS) \<and>
     (\<forall>c < MAX_CPUS. \<forall>p < NUM_PRIORITY_LEVELS. rq_rep (tcbs k) (queues (scheds k c) ! p) (Q c p)) \<and>
     (\<forall>c < MAX_CPUS. \<forall>p < NUM_PRIORITY_LEVELS. bit (non_empty (scheds k c)) p \<longleftrightarrow> Q c p \<noteq> []) \<and>
     (\<forall>c p. \<not> (c < MAX_CPUS \<and> p < NUM_PRIORITY_LEVELS) \<longrightarrow> Q c p = []) \<and>
     (\<forall>c p d q. (c, p) \<noteq> (d, q) \<longrightarrow> set (Q c p) \<inter> set (Q d q) = {}) \<and>
     (\<forall>c p. \<forall>t \<in> set (Q c p). \<exists>x. tcbs k t = Some x \<and> magic x = TCB_MAGIC)"

definition queued :: "(nat \<Rightarrow> nat \<Rightarrow> ptr list) \<Rightarrow> ptr set" where
  "queued Q = (\<Union>c p. set (Q c p))"

lemma queuedI: "t \<in> set (Q c p) \<Longrightarrow> t \<in> queued Q"
  by (auto simp: queued_def)

lemma bit_ne_set: "bit (w OR 2 ^ p :: u32) i \<longleftrightarrow> bit w i \<or> i = p \<and> p < 32"
  by (auto simp: bit_simps)

lemma bit_ne_clear: "bit (w AND NOT (2 ^ p) :: u32) i \<longleftrightarrow> bit w i \<and> i \<noteq> p"
  by (auto simp: bit_simps dest: bit_imp_le_length)

text \<open>A change of one queue of one CPU, in which the heap changes in link fields of that queue and of
  threads in no queue only.\<close>

lemma run_queues_upd:
  assumes r: "run_queues k Q" and c: "c < MAX_CPUS" "p < NUM_PRIORITY_LEVELS"
    and q: "rq_rep (tcbs k') (queues (scheds k' c) ! p) xs"
    and len: "length (queues (scheds k' c)) = NUM_PRIORITY_LEVELS"
    and others: "\<forall>d. d \<noteq> c \<longrightarrow> scheds k' d = scheds k d"
      "\<forall>i < NUM_PRIORITY_LEVELS. i \<noteq> p \<longrightarrow> queues (scheds k' c) ! i = queues (scheds k c) ! i"
    and ne: "\<forall>i < NUM_PRIORITY_LEVELS. bit (non_empty (scheds k' c)) i \<longleftrightarrow>
      (if i = p then xs \<noteq> [] else bit (non_empty (scheds k c)) i)"
    and keeps: "rq_keeps S (tcbs k) (tcbs k')" "S \<subseteq> set (Q c p) \<union> - queued Q"
    and new: "set xs \<inter> (queued Q - set (Q c p)) = {}"
      "\<forall>t \<in> set xs. \<exists>x. tcbs k t = Some x \<and> magic x = TCB_MAGIC"
  shows "run_queues k' (Q(c := (Q c)(p := xs)))"
proof -
  let ?Q = "Q(c := (Q c)(p := xs))"
  have R: "\<And>d i. d < MAX_CPUS \<Longrightarrow> i < NUM_PRIORITY_LEVELS \<Longrightarrow>
      rq_rep (tcbs k) (queues (scheds k d) ! i) (Q d i) \<and> (bit (non_empty (scheds k d)) i \<longleftrightarrow> Q d i \<noteq> [])"
    "\<And>d. d < MAX_CPUS \<Longrightarrow> length (queues (scheds k d)) = NUM_PRIORITY_LEVELS"
    "\<And>d i. \<not> (d < MAX_CPUS \<and> i < NUM_PRIORITY_LEVELS) \<Longrightarrow> Q d i = []"
    "\<And>c p d q. (c, p) \<noteq> (d, q) \<Longrightarrow> set (Q c p) \<inter> set (Q d q) = {}"
    "\<And>d i t. t \<in> set (Q d i) \<Longrightarrow> \<exists>x. tcbs k t = Some x \<and> magic x = TCB_MAGIC"
    using r unfolding run_queues_def by blast+
  have dis: "set (Q d i) \<inter> S = {}" if "(d, i) \<noteq> (c, p)" for d i
    using R(4) [OF that] keeps(2) by (auto simp: queued_def)
  have mg: "\<exists>x. tcbs k' t = Some x \<and> magic x = TCB_MAGIC" if m: "\<exists>x. tcbs k t = Some x \<and> magic x = TCB_MAGIC" for t
  proof -
    obtain x' where x': "tcbs k' t = Some x'" using m rq.keeps_live [OF keeps(1), of t] by auto
    then show ?thesis
      using m only_links_field [OF keeps(1) [unfolded rq_keeps_def] x', of magic] by auto
  qed
  have rep: "rq_rep (tcbs k') (queues (scheds k' d) ! i) (?Q d i)"
    if "d < MAX_CPUS" "i < NUM_PRIORITY_LEVELS" for d i
    using that q others R(1) [OF that] rq.keeps_rep [OF keeps(1) dis, of d i] by (cases "d = c \<and> i = p") auto
  have other: "set (Q d i) \<subseteq> queued Q - set (Q c p)" if "(d, i) \<noteq> (c, p)" for d i
    using R(4) [OF that] by (auto simp: queued_def)
  have disj: "set (?Q a i) \<inter> set (?Q b j) = {}" if "(a, i) \<noteq> (b, j)" for a i b j
    using that R(4) [OF that] other [of a i] other [of b j] new(1)
    by (cases "(a, i) = (c, p)"; cases "(b, j) = (c, p)") auto
  have lens: "length (queues (scheds k' d)) = NUM_PRIORITY_LEVELS" if "d < MAX_CPUS" for d
    using that len others(1) R(2) by (cases "d = c") auto
  have bits: "bit (non_empty (scheds k' d)) i \<longleftrightarrow> ?Q d i \<noteq> []" if "d < MAX_CPUS" "i < NUM_PRIORITY_LEVELS" for d i
    using that ne others(1) R(1) [OF that] by (cases "d = c") auto
  have out: "?Q d i = []" if "\<not> (d < MAX_CPUS \<and> i < NUM_PRIORITY_LEVELS)" for d i
    using that c R(3) [OF that] by auto
  have live: "\<exists>x. tcbs k' t = Some x \<and> magic x = TCB_MAGIC" if "t \<in> set (?Q d i)" for d i t
    using that new(2) R(5) [of t d i] by (intro mg) (auto split: if_splits)
  show ?thesis unfolding run_queues_def
    by (intro conjI allI impI ballI) (erule rep lens bits out disj live, assumption?)+
qed

text \<open>The rest of the state is unchanged by a queue operation.\<close>

definition queues_only :: "kernel \<Rightarrow> kernel \<Rightarrow> bool" where
  "queues_only k k' \<longleftrightarrow> (\<exists>h s l. k' = k\<lparr>tcbs := h, scheds := s, cpu_load := l\<rparr> \<and>
     (\<forall>c. current (s c) = current (scheds k c) \<and> idle (s c) = idle (scheds k c) \<and>
        sched_cpu_id (s c) = sched_cpu_id (scheds k c)) \<and> rq_keeps UNIV (tcbs k) h)"

lemma queues_onlyI:
  "k' = k\<lparr>tcbs := tcbs k', scheds := scheds k', cpu_load := cpu_load k'\<rparr> \<Longrightarrow>
    (\<And>c. current (scheds k' c) = current (scheds k c)) \<Longrightarrow> (\<And>c. idle (scheds k' c) = idle (scheds k c)) \<Longrightarrow>
    (\<And>c. sched_cpu_id (scheds k' c) = sched_cpu_id (scheds k c)) \<Longrightarrow>
    rq_keeps UNIV (tcbs k) (tcbs k') \<Longrightarrow> queues_only k k'"
  unfolding queues_only_def by blast

lemma queues_onlyD:
  assumes "queues_only k k'"
  shows "rq_keeps UNIV (tcbs k) (tcbs k')" "current (scheds k' c) = current (scheds k c)"
    "idle (scheds k' c) = idle (scheds k c)" "sched_cpu_id (scheds k' c) = sched_cpu_id (scheds k c)"
  using assms by (auto simp: queues_only_def)

lemma queues_only_refl [simp]: "queues_only k k"
  by (rule queues_onlyI) simp_all

lemma rq_keeps_trans: "rq_keeps S h h' \<Longrightarrow> rq_keeps S h' h'' \<Longrightarrow> rq_keeps S h h''"
  using only_links_trans [of _ S h h' S h''] by (simp add: rq_keeps_def)

lemma rq_keeps_UNIV: "rq_keeps S h h' \<Longrightarrow> rq_keeps UNIV h h'"
  by (auto simp: rq_keeps_def intro: only_links_mono)

lemma queues_only_trans: "queues_only a b \<Longrightarrow> queues_only b c \<Longrightarrow> queues_only a c"
  unfolding queues_only_def by (elim exE conjE) (simp, blast intro: rq_keeps_trans)

lemma queues_only_fields:
  assumes "queues_only k k'"
  shows "kcaps k' = kcaps k" "objects k' = objects k" "cpu_count k' = cpu_count k" "this_cpu k' = this_cpu k"
    "idle_mask k' = idle_mask k" "apic_ids k' = apic_ids k" "ipis_sent k' = ipis_sent k"
    "current_tick k' = current_tick k" "sleep_list k' = sleep_list k" "sleep_count k' = sleep_count k"
    "endpoints k' = endpoints k" "signals k' = signals k" "event_queues k' = event_queues k"
    "wait_sets k' = wait_sets k" "irq_table k' = irq_table k" "brk k' = brk k" "aspaces k' = aspaces k"
    "cpu_root k' = cpu_root k" "kernel_root k' = kernel_root k" "trap_stack k' = trap_stack k"
    "preempt_count k' = preempt_count k"
proof -
  obtain h s l where "k' = k\<lparr>tcbs := h, scheds := s, cpu_load := l\<rparr>"
    using assms unfolding queues_only_def by blast
  then show "kcaps k' = kcaps k" "objects k' = objects k" "cpu_count k' = cpu_count k" "this_cpu k' = this_cpu k"
    "idle_mask k' = idle_mask k" "apic_ids k' = apic_ids k" "ipis_sent k' = ipis_sent k"
    "current_tick k' = current_tick k" "sleep_list k' = sleep_list k" "sleep_count k' = sleep_count k"
    "endpoints k' = endpoints k" "signals k' = signals k" "event_queues k' = event_queues k"
    "wait_sets k' = wait_sets k" "irq_table k' = irq_table k" "brk k' = brk k" "aspaces k' = aspaces k"
    "cpu_root k' = cpu_root k" "kernel_root k' = kernel_root k" "trap_stack k' = trap_stack k"
    "preempt_count k' = preempt_count k"
    by simp_all
qed

lemma queues_only_tcb:
  assumes "queues_only k k'" "tcbs k t = Some x"
  shows "\<exists>n. tcbs k' t = Some (x\<lparr>run_queue_next := n\<rparr>)"
proof -
  have "map_option (run_queue_next_update (\<lambda>_. None)) (tcbs k' t) = Some (x\<lparr>run_queue_next := None\<rparr>)"
    using queues_onlyD(1) [OF assms(1)] assms(2) by (simp add: rq_keeps_def only_links_def)
  then obtain y where y: "tcbs k' t = Some y" "y\<lparr>run_queue_next := None\<rparr> = x\<lparr>run_queue_next := None\<rparr>" by auto
  then have "x\<lparr>run_queue_next := run_queue_next y\<rparr> = y" by (cases x; cases y) simp
  then show ?thesis using y(1) by metis
qed

lemma run_queues_get:
  assumes "run_queues k Q" "c < MAX_CPUS" "p < NUM_PRIORITY_LEVELS"
  shows "rq_rep (tcbs k) (queues (scheds k c) ! p) (Q c p)" "length (queues (scheds k c)) = NUM_PRIORITY_LEVELS"
    "bit (non_empty (scheds k c)) p \<longleftrightarrow> Q c p \<noteq> []"
  using assms unfolding run_queues_def by blast+

lemma run_queues_magic:
  "run_queues k Q \<Longrightarrow> t \<in> queued Q \<Longrightarrow> \<exists>x. tcbs k t = Some x \<and> magic x = TCB_MAGIC"
  unfolding run_queues_def queued_def by blast

lemma run_queues_disjoint:
  "run_queues k Q \<Longrightarrow> t \<in> set (Q c p) \<Longrightarrow> t \<in> set (Q d q) \<Longrightarrow> c = d \<and> p = q"
  unfolding run_queues_def by blast

lemma run_queues_distinct: "run_queues k Q \<Longrightarrow> distinct (Q c p)"
  unfolding run_queues_def by (metis distinct.simps(1) rq.rep_distinct)

lemmas queue_defs = put_queue_def set_bit_ne_def clear_bit_ne_def increment_load_def decrement_load_def put_sched_def

text \<open>Enqueueing appends to the list of the given priority.\<close>

lemma sched_enqueue_ok:
  assumes r: "run_queues k Q" and c: "c < MAX_CPUS" "p < NUM_PRIORITY_LEVELS"
    and t: "t \<notin> queued Q" "tcbs k t = Some x" "magic x = TCB_MAGIC"
  shows "\<exists>k'. sched_enqueue c t p k = ret k' \<and> run_queues k' (Q(c := (Q c)(p := Q c p @ [t]))) \<and> queues_only k k'"
proof -
  note g = run_queues_get [OF r c]
  have "t \<notin> set (Q c p)" using t(1) queuedI by metis
  then obtain q h where q: "rq_enqueue (queues (scheds k c) ! p) t (tcbs k) = ret (q, h)"
      "rq_rep h q (Q c p @ [t])" "rq_keeps (insert t (set (Q c p))) (tcbs k) h"
    using rq.enq_law [OF g(1), of t] t(2) by auto
  let ?k = "set_bit_ne c p (put_queue c p q h (increment_load c k))"
  have "sched_enqueue c t p k = ret ?k"
    using t c q(1) by (simp add: sched_enqueue_def increment_load_def)
  moreover have "run_queues ?k (Q(c := (Q c)(p := Q c p @ [t])))"
    by (rule run_queues_upd [OF r c, where S = "insert t (set (Q c p))"])
      (use q t g(2) c run_queues_magic [OF r queuedI] in
        \<open>auto simp: queue_defs bit_ne_set NUM_PRIORITY_LEVELS_def\<close>)
  moreover have "queues_only k ?k"
    by (rule queues_onlyI) (use rq_keeps_UNIV [OF q(3)] in \<open>simp_all add: queue_defs\<close>)
  ultimately show ?thesis by blast
qed

text \<open>The position of the highest set bit.\<close>

lemma leading_zeros_highest:
  fixes w :: u32
  assumes "w \<noteq> 0"
  shows "31 - leading_zeros w < 32" "bit w (31 - leading_zeros w)" "31 - leading_zeros w < i \<Longrightarrow> \<not> bit w i"
proof -
  let ?n = "leading_zeros w"
  obtain j where j: "bit w j" "j < 32"
    using assms by (auto simp: bit_eq_iff dest: bit_imp_le_length)
  have nth: "rev [0..<32] ! i = 31 - i" if "i < 32" for i using that by (simp add: rev_nth)
  have lt: "?n < 32"
  proof -
    have "\<exists>x \<in> set (rev [0..<32]). bit w x" using j by auto
    then have "takeWhile (\<lambda>i. \<not> bit w i) (rev [0..<32]) \<noteq> rev [0..<32]" by (metis takeWhile_eq_all_conv)
    then show ?thesis
      unfolding leading_zeros_def
      by (metis length_rev length_takeWhile_le length_upt minus_nat.diff_0 nat_less_le takeWhile_eq_take take_all_iff order_refl)
  qed
  show "31 - ?n < 32" by simp
  show "bit w (31 - ?n)"
    using nth_length_takeWhile [of "\<lambda>i. \<not> bit w i" "rev [0..<32]"] lt nth [OF lt] by (simp add: leading_zeros_def)
  show "\<not> bit w i" if "31 - ?n < i"
  proof
    assume b: "bit w i"
    then have "i < 32" using bit_imp_le_length by fastforce
    then have "31 - i < ?n" using that lt by linarith
    then have "takeWhile (\<lambda>i. \<not> bit w i) (rev [0..<32]) ! (31 - i) = i"
      using nth [of "31 - i"] \<open>i < 32\<close> lt takeWhile_nth [of "31 - i" "\<lambda>i. \<not> bit w i" "rev [0..<32]"]
      by (simp add: leading_zeros_def)
    then have "i \<in> set (takeWhile (\<lambda>i. \<not> bit w i) (rev [0..<32]))"
      using \<open>31 - i < ?n\<close> nth_mem by (metis leading_zeros_def)
    then show False using b by (auto dest: set_takeWhileD)
  qed
qed

text \<open>Selection takes the head of the highest non-empty list, or the idle thread.\<close>

lemma dequeue_highest_idle:
  assumes r: "run_queues k Q" and c: "c < MAX_CPUS" and e: "\<forall>p. Q c p = []"
  shows "dequeue_highest c k = ret (idle (scheds k c), k)"
proof -
  have "non_empty (scheds k c) = 0"
  proof (rule bit_eqI)
    fix n assume "possible_bit TYPE(32 word) n"
    then show "bit (non_empty (scheds k c)) n = bit (0 :: u32) n"
      using run_queues_get(3) [OF r c, of n] e by (simp add: NUM_PRIORITY_LEVELS_def)
  qed
  then show ?thesis by (simp add: dequeue_highest_def)
qed

lemma dequeue_highest_ok:
  assumes r: "run_queues k Q" and c: "c < MAX_CPUS"
    and p: "Q c p = t # ts" "\<forall>i > p. Q c i = []"
  shows "\<exists>k'. dequeue_highest c k = ret (Some t, k') \<and> run_queues k' (Q(c := (Q c)(p := ts))) \<and> queues_only k k'"
proof -
  let ?ne = "non_empty (scheds k c)"
  have pl: "p < NUM_PRIORITY_LEVELS" using r p(1) unfolding run_queues_def by (metis list.distinct(1))
  note g = run_queues_get [OF r c pl]
  have b: "bit ?ne p" using g(3) p(1) by simp
  then have ne: "?ne \<noteq> 0" by auto
  have "31 - leading_zeros ?ne = p"
  proof (rule ccontr)
    assume "31 - leading_zeros ?ne \<noteq> p"
    then have "p < 31 - leading_zeros ?ne" using leading_zeros_highest(3) [OF ne] b by (metis linorder_neqE_nat)
    then show False
      using run_queues_get(3) [OF r c, of "31 - leading_zeros ?ne"] leading_zeros_highest(1,2) [OF ne] p(2)
      by (simp add: NUM_PRIORITY_LEVELS_def)
  qed
  moreover obtain q h where q: "rq_dequeue (queues (scheds k c) ! p) (tcbs k) = ret (Some t, q, h)"
      "rq_rep h q ts" "rq_keeps (set (t # ts)) (tcbs k) h"
    using rq.deq_law g(1) p(1) by metis
  moreover have mt: "\<exists>x. h t = Some x \<and> magic x = TCB_MAGIC"
  proof -
    obtain x where x: "tcbs k t = Some x" "magic x = TCB_MAGIC"
      using run_queues_magic [OF r queuedI, of t c p] p(1) by auto
    then obtain y where y: "h t = Some y" using rq.keeps_live [OF q(3), of t] by auto
    show ?thesis using only_links_field [OF q(3) [unfolded rq_keeps_def] y, of magic] x y by auto
  qed
  moreover have e: "rq_is_empty q \<longleftrightarrow> ts = []"
    using q(2) fifo_head by (auto simp: rq_rep_def rq_is_empty_def)
  ultimately have d: "dequeue_highest c k = ret (Some t, decrement_load c
      (if ts = [] then clear_bit_ne c p (put_queue c p q h k) else put_queue c p q h k))"
    using ne by (auto simp: dequeue_highest_def Let_def)
  let ?k = "decrement_load c (if ts = [] then clear_bit_ne c p (put_queue c p q h k) else put_queue c p q h k)"
  have "run_queues ?k (Q(c := (Q c)(p := ts)))"
    by (rule run_queues_upd [OF r c pl, where S = "set (t # ts)"])
      (use q p b g(2) pl run_queues_magic [OF r queuedI, of _ c p] in \<open>auto simp: queue_defs bit_ne_clear\<close>)
  moreover have "queues_only k ?k"
    by (rule queues_onlyI) (use rq_keeps_UNIV [OF q(3)] in \<open>simp_all add: queue_defs\<close>)
  ultimately show ?thesis using d by blast
qed

text \<open>Removal of a given thread from one list.\<close>

lemma remove_and_clear_ok:
  assumes r: "run_queues k Q" and c: "c < MAX_CPUS" "p < NUM_PRIORITY_LEVELS"
  shows "\<exists>k'. remove_and_clear c p t k = ret k' \<and> run_queues k' (Q(c := (Q c)(p := remove1 t (Q c p)))) \<and>
    queues_only k k'"
proof -
  note g = run_queues_get [OF r c]
  obtain q h where q: "rq_remove t (queues (scheds k c) ! p) (tcbs k) = ret (t \<in> set (Q c p), q, h)"
      "rq_rep h q (remove1 t (Q c p))" "rq_keeps (set (Q c p)) (tcbs k) h"
    using rq.rem_law [OF g(1)] by blast
  have e: "rq_is_empty q \<longleftrightarrow> remove1 t (Q c p) = []"
    using q(2) fifo_head by (auto simp: rq_rep_def rq_is_empty_def)
  let ?k = "if t \<in> set (Q c p) \<and> rq_is_empty q then clear_bit_ne c p (put_queue c p q h k) else put_queue c p q h k"
  have sub: "set (remove1 t (Q c p)) \<subseteq> set (Q c p)" by (rule set_remove1_subset)
  have "run_queues ?k (Q(c := (Q c)(p := remove1 t (Q c p))))"
    by (rule run_queues_upd [OF r c, where S = "set (Q c p)"])
      (use q g(2,3) c e sub run_queues_magic [OF r queuedI, of _ c p] in
        \<open>auto simp: queue_defs bit_ne_clear remove1_idem\<close>)
  moreover have "queues_only k ?k"
    by (rule queues_onlyI) (use rq_keeps_UNIV [OF q(3)] in \<open>simp_all add: queue_defs\<close>)
  moreover have "remove_and_clear c p t k = ret ?k" using q(1) by (simp add: remove_and_clear_def Let_def)
  ultimately show ?thesis by blast
qed

lemma queued_remove1:
  assumes r: "run_queues k Q" and t: "t \<in> set (Q c p)"
  shows "t \<notin> queued (Q(c := (Q c)(p := remove1 t (Q c p))))" (is "t \<notin> queued ?Q")
proof
  assume "t \<in> queued ?Q"
  then obtain d i where di: "t \<in> set (?Q d i)" unfolding queued_def by blast
  show False
  proof (cases "d = c \<and> i = p")
    case True
    then show False using di run_queues_distinct [OF r, of c p] by simp
  next
    case False
    then have "t \<in> set (Q d i)" using di by (auto split: if_splits)
    then show False using run_queues_disjoint [OF r t] False by blast
  qed
qed

lemma change_priority_ok:
  assumes r: "run_queues k Q" and c: "c < MAX_CPUS" "old < NUM_PRIORITY_LEVELS" "new < NUM_PRIORITY_LEVELS"
    and t: "t \<in> set (Q c old)" "old \<noteq> new"
  shows "\<exists>k'. change_priority c t old new k = ret k' \<and> queues_only k k' \<and>
    run_queues k' (Q(c := (Q c)(old := remove1 t (Q c old), new := Q c new @ [t])))"
proof -
  obtain k1 where k1: "remove_and_clear c old t k = ret k1" "queues_only k k1"
      "run_queues k1 (Q(c := (Q c)(old := remove1 t (Q c old))))"
    using remove_and_clear_ok [OF r c(1,2)] by blast
  let ?Q = "Q(c := (Q c)(old := remove1 t (Q c old)))"
  have out: "t \<notin> queued ?Q" by (rule queued_remove1 [OF r t(1)])
  obtain y where "tcbs k t = Some y" "magic y = TCB_MAGIC"
    using run_queues_magic [OF r queuedI [of t Q c old, OF t(1)]] by blast
  then obtain x where x: "tcbs k1 t = Some x" "magic x = TCB_MAGIC"
    using queues_only_tcb [OF k1(2), of t y] by auto
  note g = run_queues_get [OF k1(3) c(1,3)]
  have xs: "?Q c new = Q c new" using t(2) by simp
  obtain q h where q: "rq_enqueue (queues (scheds k1 c) ! new) t (tcbs k1) = ret (q, h)"
      "rq_rep h q (Q c new @ [t])" "rq_keeps (insert t (set (Q c new))) (tcbs k1) h"
    using rq.enq_law [OF g(1), of t] x(1) out queuedI [of t ?Q c new] unfolding xs by auto
  let ?k = "set_bit_ne c new (put_queue c new q h k1)"
  have "run_queues ?k (?Q(c := (?Q c)(new := Q c new @ [t])))"
    by (rule run_queues_upd [OF k1(3) c(1,3), where S = "insert t (set (Q c new))"])
      (use q x out t(2) g(2) c run_queues_magic [OF k1(3) queuedI, of _ c new] in
        \<open>auto simp: queue_defs bit_ne_set NUM_PRIORITY_LEVELS_def\<close>)
  moreover have "queues_only k1 ?k"
    by (rule queues_onlyI) (use rq_keeps_UNIV [OF q(3)] in \<open>simp_all add: queue_defs\<close>)
  moreover have "change_priority c t old new k = ret ?k"
    using c t(2) k1(1) q(1) by (simp add: change_priority_def)
  ultimately show ?thesis using queues_only_trans [OF k1(2)] by auto
qed

section \<open>An initial state\<close>

definition blank_tcb :: tcb where
  "blank_tcb = \<lparr>state = Created, priority = PRIORITY_DEFAULT, slice_remaining = TIME_SLICE_TICKS,
     cpu_affinity = AFFINITY_ANY, preferred_cpu = 0, run_queue_next = None, ipc_state = IpcNone,
     ipc_msg = default_message, reply_tcb = None, ipc_wait_next = None, is_user = True,
     kernel_stack_top = 0, address_space = None, tcb_cspace = None, ipc_buffer = 0, wakeup_value = 0,
     blocked_on_object = None, thread_id = 0, context_saved = True, death_notification = None,
     sleep_deadline = 0, magic = TCB_MAGIC, saved_frame = None, iopb = None\<rparr>"

definition blank_kernel :: kernel where
  "blank_kernel = \<lparr>kcaps = empty_state, objects = Map.empty, tcbs = (\<lambda>p. if p < 10 then Some blank_tcb else None),
     scheds = (\<lambda>c. PerCpuScheduler_new\<lparr>sched_cpu_id := c\<rparr>), cpu_load = (\<lambda>_. 0), cpu_count = 2, this_cpu = 0,
     idle_mask = 0, apic_ids = id, ipis_sent = [], current_tick = 0,
     sleep_list = replicate MAX_SLEEPING None, sleep_count = 0, endpoints = Map.empty, signals = Map.empty,
     event_queues = Map.empty, wait_sets = Map.empty, irq_table = Map.empty, aspaces = Map.empty,
     cpu_root = (\<lambda>_. 0), kernel_root = 0, trap_stack = (\<lambda>_. 0), preempt_count = (\<lambda>_. 0),
     reschedule_pending = 0, next_thread_id = 0, brk = 1000, ticks_per_second = 1000,
     irq_masked = (\<lambda>_. False), irq_acked = [], frames = BuddyAllocator_new, memory = (\<lambda>_ _. 0),
     ptables = (\<lambda>_ _. 0), tss_iopb = (\<lambda>_. []), elapsed_us = None\<rparr>"

lemma blank_kernel_queues: "run_queues blank_kernel (\<lambda>c p. [])"
  by (simp add: run_queues_def blank_kernel_def PerCpuScheduler_new_def RunQueue_new_def rq_rep_def)

lemma blank_kernel_tcb: "p < 10 \<Longrightarrow> tcbs blank_kernel p = Some blank_tcb" "magic blank_tcb = TCB_MAGIC"
  by (simp_all add: blank_kernel_def blank_tcb_def)

section \<open>Properties\<close>

text \<open>(C13) Enqueueing. A live thread in no run queue is appended to the queue of its CPU and priority; no
  other queue changes, each thread stays in at most one queue, and the bitmask still marks exactly
  the non-empty priorities.\<close>

theorem enqueue_appends:
  assumes "run_queues k Q" "c < MAX_CPUS" "p < NUM_PRIORITY_LEVELS"
    and "t \<notin> queued Q" "tcbs k t = Some x" "magic x = TCB_MAGIC"
  shows "\<exists>k'. sched_enqueue c t p k = ret k' \<and> run_queues k' (Q(c := (Q c)(p := Q c p @ [t])))"
  using sched_enqueue_ok [OF assms] by blast

theorem enqueue_appends_witness:
  "\<exists>k'. sched_enqueue 1 7 5 blank_kernel = ret k' \<and>
     run_queues k' ((\<lambda>c p. [])(1 := (\<lambda>p. [])(5 := [7])))"
  using enqueue_appends [OF blank_kernel_queues, of 1 5 7 blank_tcb] blank_kernel_tcb(1) [of 7] blank_kernel_tcb(2)
  by (simp add: MAX_CPUS_def NUM_PRIORITY_LEVELS_def queued_def)

text \<open>(C12) Selection. \<open>dequeue_highest\<close> returns the idle thread exactly when every queue of the CPU is empty;
  otherwise it returns the oldest thread of the highest non-empty priority and removes it from
  that queue, leaving all others as they were.\<close>

theorem dequeue_highest_selects:
  assumes "run_queues k Q" "c < MAX_CPUS"
  shows "if \<forall>p. Q c p = [] then dequeue_highest c k = ret (idle (scheds k c), k)
    else \<exists>p t ts k'. Q c p = t # ts \<and> (\<forall>i > p. Q c i = []) \<and>
      dequeue_highest c k = ret (Some t, k') \<and> run_queues k' (Q(c := (Q c)(p := ts)))"
proof (cases "\<forall>p. Q c p = []")
  case True
  then show ?thesis using dequeue_highest_idle [OF assms True] by simp
next
  case False
  then obtain i where i: "Q c i \<noteq> []" by blast
  have bound: "p < NUM_PRIORITY_LEVELS" if "Q c p \<noteq> []" for p using that assms(1) unfolding run_queues_def by blast
  define p where "p = Max {p. Q c p \<noteq> []}"
  have fin: "finite {p. Q c p \<noteq> []}" using bound by (auto intro: finite_subset [of _ "{..<NUM_PRIORITY_LEVELS}"])
  have "Q c p \<noteq> []" using Max_in [OF fin] i unfolding p_def by auto
  moreover have "\<forall>j > p. Q c j = []" using Max_ge [OF fin] unfolding p_def by (metis leD mem_Collect_eq)
  ultimately show ?thesis
    using False dequeue_highest_ok [OF assms, of p] by (cases "Q c p") auto
qed

theorem dequeue_highest_selects_witness:
  "\<exists>k k'. sched_enqueue 1 7 5 blank_kernel = ret k \<and> dequeue_highest 1 k = ret (Some 7, k')"
proof -
  let ?Q = "(\<lambda>c p. [])(1 := (\<lambda>p. [])(5 := [7 :: ptr]))"
  obtain k where k: "sched_enqueue 1 7 5 blank_kernel = ret k" "run_queues k ?Q"
    using sched_enqueue_ok [OF blank_kernel_queues, of 1 5 7 blank_tcb] blank_kernel_tcb(1) [of 7] blank_kernel_tcb(2)
    by (auto simp: MAX_CPUS_def NUM_PRIORITY_LEVELS_def queued_def)
  from dequeue_highest_selects [OF k(2), of 1] k(1) show ?thesis
    by (auto simp: MAX_CPUS_def split: if_splits)
qed

text \<open>(C14) Changing the priority of a ready thread moves it from its queue to the end of the queue of the
  new priority, on the same CPU; the order of the other threads is kept.\<close>

theorem change_priority_moves:
  assumes "run_queues k Q" "c < MAX_CPUS" "old < NUM_PRIORITY_LEVELS" "new < NUM_PRIORITY_LEVELS"
    and "t \<in> set (Q c old)" "old \<noteq> new"
  shows "\<exists>k'. change_priority c t old new k = ret k' \<and>
    run_queues k' (Q(c := (Q c)(old := remove1 t (Q c old), new := Q c new @ [t])))"
  using change_priority_ok [OF assms] by blast

theorem change_priority_moves_witness:
  "\<exists>k k'. sched_enqueue 1 7 5 blank_kernel = ret k \<and> change_priority 1 7 5 9 k = ret k' \<and>
     run_queues k' ((\<lambda>c p. [])(1 := (\<lambda>p. [])(9 := [7])))"
proof -
  let ?Q = "(\<lambda>c p. [])(1 := (\<lambda>p. [])(5 := [7 :: ptr]))"
  obtain k where k: "sched_enqueue 1 7 5 blank_kernel = ret k" "run_queues k ?Q"
    using sched_enqueue_ok [OF blank_kernel_queues, of 1 5 7 blank_tcb] blank_kernel_tcb(1) [of 7] blank_kernel_tcb(2)
    by (auto simp: MAX_CPUS_def NUM_PRIORITY_LEVELS_def queued_def)
  have "(\<lambda>p :: nat. [])(5 := [], 9 := [7 :: ptr]) = (\<lambda>p. [])(9 := [7])" by auto
  then show ?thesis
    using change_priority_moves [OF k(2), of 1 5 9 7] k(1)
    by (auto simp: MAX_CPUS_def NUM_PRIORITY_LEVELS_def)
qed

end
