(* ===== verification/Scheduler.thy ===== *)
theory Scheduler
  imports Run_Queue "HOL-Library.Multiset"
begin

unbundle bit_operations_syntax

text \<open>
  The scheduler proper: \<open>kernel/src/sched/mod.rs\<close> with the idle bookkeeping and the preemption
  counter of \<open>kernel/src/percpu.rs\<close> and the activity mask of \<open>kernel/src/mm/address_space.rs\<close>.

  Each function is one step taken with its lock held. The context switch itself is modelled by its
  effect on the state: which thread is current, which page-table root and trap stack the CPU has
  loaded, and the flag that tells that the registers of the previous thread are saved. Spinning on
  a flag that only another CPU can set does not return.
\<close>

section \<open>Idle CPUs, preemption, rescheduling flags\<close>

definition mark_idle :: "nat \<Rightarrow> kernel \<Rightarrow> kernel" where
  "mark_idle c k = k\<lparr>idle_mask := idle_mask k OR push_bit c 1\<rparr>"

definition mark_active :: "nat \<Rightarrow> kernel \<Rightarrow> kernel" where
  "mark_active c k = k\<lparr>idle_mask := idle_mask k AND NOT (push_bit c 1)\<rparr>"

definition is_idle :: "nat \<Rightarrow> kernel \<Rightarrow> bool" where
  "is_idle c k \<longleftrightarrow> idle_mask k AND push_bit c 1 \<noteq> 0"

definition apic_id_for :: "nat \<Rightarrow> kernel \<Rightarrow> nat run" where
  "apic_id_for c k = (if c < MAX_CPUS then ret (apic_ids k c) else panic)"

definition preempt_disable :: "kernel \<Rightarrow> kernel" where
  "preempt_disable k = k\<lparr>preempt_count := (preempt_count k)(this_cpu k := (preempt_count k (this_cpu k) + 1) mod 2 ^ 32)\<rparr>"

definition preempt_enable :: "kernel \<Rightarrow> kernel run" where
  "preempt_enable k =
     (if preempt_count k (this_cpu k) > 0
      then ret (k\<lparr>preempt_count := (preempt_count k)(this_cpu k := preempt_count k (this_cpu k) - 1)\<rparr>)
      else panic)"

definition preemption_disabled :: "kernel \<Rightarrow> bool" where
  "preemption_disabled k \<longleftrightarrow> preempt_count k (this_cpu k) > 0"

definition set_reschedule_pending :: "kernel \<Rightarrow> kernel" where
  "set_reschedule_pending k = k\<lparr>reschedule_pending := reschedule_pending k OR push_bit (this_cpu k) 1\<rparr>"

definition take_reschedule_pending :: "nat \<Rightarrow> kernel \<Rightarrow> bool \<times> kernel" where
  "take_reschedule_pending c k =
     (reschedule_pending k AND push_bit c 1 \<noteq> 0,
      k\<lparr>reschedule_pending := reschedule_pending k AND NOT (push_bit c 1)\<rparr>)"

definition alloc_thread_id :: "kernel \<Rightarrow> nat \<times> kernel" where
  "alloc_thread_id k = (next_thread_id k, k\<lparr>next_thread_id := (next_thread_id k + 1) mod 2 ^ 32\<rparr>)"

section \<open>Waking threads\<close>

definition wake_idle_cpu :: "nat \<Rightarrow> kernel \<Rightarrow> kernel run" where
  "wake_idle_cpu target k =
     (if target = this_cpu k then ret k
      else if \<not> is_idle target k then ret k
      else do {
        hw_id \<leftarrow> apic_id_for target k;
        ret (k\<lparr>ipis_sent := ipis_sent k @ [hw_id]\<rparr>)
      })"

definition enqueue_and_wake :: "ptr \<Rightarrow> nat \<Rightarrow> nat \<Rightarrow> kernel \<Rightarrow> kernel run" where
  "enqueue_and_wake t target prio k =
     (if target \<ge> MAX_CPUS then panic
      else do {
        k \<leftarrow> sched_enqueue target t prio k;
        k \<leftarrow> upd_tcb t (\<lambda>x. x\<lparr>preferred_cpu := target\<rparr>) k;
        wake_idle_cpu target k
      })"

fun least_loaded :: "kernel \<Rightarrow> nat list \<Rightarrow> u32 \<Rightarrow> nat \<Rightarrow> nat" where
  "least_loaded k [] min_load min_cpu = min_cpu"
| "least_loaded k (c # cs) min_load min_cpu =
     (if current_load c k < min_load then least_loaded k cs (current_load c k) c
      else least_loaded k cs min_load min_cpu)"

definition select_target_cpu :: "ptr \<Rightarrow> kernel \<Rightarrow> nat run" where
  "select_target_cpu t k = do {
     x \<leftarrow> tcbs k t;
     if cpu_affinity x \<noteq> AFFINITY_ANY then ret (cpu_affinity x)
     else if cpu_count k > MAX_CPUS then panic
     else ret (least_loaded k [0..<cpu_count k] (- 1) 0)
   }"

section \<open>Sleeping threads\<close>

definition sleep_list_add :: "ptr \<Rightarrow> kernel \<Rightarrow> kernel" where
  "sleep_list_add t k =
     (if sleep_count k < MAX_SLEEPING
      then k\<lparr>sleep_list := (sleep_list k)[sleep_count k := Some t], sleep_count := sleep_count k + 1\<rparr>
      else k)"

text \<open>The scan of the sleep list: an expired entry is recorded in \<open>to_wake\<close> and replaced by the last one,
  which is then examined in turn.\<close>

function sleep_scan ::
  "nat \<Rightarrow> nat \<Rightarrow> nat \<Rightarrow> ptr option list \<Rightarrow> tcb_heap \<Rightarrow> (ptr \<times> nat \<times> nat) list \<Rightarrow>
    ((ptr \<times> nat \<times> nat) list \<times> nat \<times> ptr option list \<times> tcb_heap) run"
where
  "sleep_scan now i n sl h to_wake =
     (if i < n
      then (case sl ! i of
              None \<Rightarrow> sleep_scan now (Suc i) n sl h to_wake
            | Some t \<Rightarrow>
                (case h t of
                   None \<Rightarrow> panic
                 | Some x \<Rightarrow>
                     (if sleep_deadline x \<le> now
                      then (if length to_wake < MAX_SLEEPING
                            then sleep_scan now i (n - 1) (sl[i := sl ! (n - 1), n - 1 := None])
                                   (h(t \<mapsto> x\<lparr>sleep_deadline := 0, state := Ready\<rparr>))
                                   (to_wake @ [(t, preferred_cpu x, priority x)])
                            else panic)
                      else sleep_scan now (Suc i) n sl h to_wake)))
      else ret (to_wake, n, sl, h))"
  by pat_completeness auto
termination by (relation "measure (\<lambda>(now, i, n, sl, h, w). n - i)") auto

fun wake_all :: "(ptr \<times> nat \<times> nat) list \<Rightarrow> kernel \<Rightarrow> kernel run" where
  "wake_all [] k = ret k"
| "wake_all ((t, c, p) # ws) k = do { k \<leftarrow> enqueue_and_wake t c p k; wake_all ws k }"

definition sleep_check_wakeups :: "kernel \<Rightarrow> kernel run" where
  "sleep_check_wakeups k = do {
     (to_wake, n, sl, h) \<leftarrow> sleep_scan (current_tick k) 0 (sleep_count k) (sleep_list k) (tcbs k) [];
     wake_all to_wake (k\<lparr>sleep_list := sl, sleep_count := n, tcbs := h\<rparr>)
   }"

section \<open>Address-space activity\<close>

definition mark_active_on_cpu :: "nat \<Rightarrow> aspace \<Rightarrow> aspace" where
  "mark_active_on_cpu c a = a\<lparr>active_cpus := active_cpus a OR push_bit c 1\<rparr>"

definition mark_inactive_on_cpu :: "nat \<Rightarrow> aspace \<Rightarrow> aspace" where
  "mark_inactive_on_cpu c a = a\<lparr>active_cpus := active_cpus a AND NOT (push_bit c 1)\<rparr>"

definition upd_aspace :: "ptr \<Rightarrow> (aspace \<Rightarrow> aspace) \<Rightarrow> kernel \<Rightarrow> kernel run" where
  "upd_aspace p f k =
     (case aspaces k p of None \<Rightarrow> panic | Some a \<Rightarrow> ret (k\<lparr>aspaces := (aspaces k)(p \<mapsto> f a)\<rparr>))"

definition activate :: "ptr \<Rightarrow> kernel \<Rightarrow> kernel run" where
  "activate p k =
     (case aspaces k p of
        None \<Rightarrow> panic
      | Some a \<Rightarrow> ret (k\<lparr>cpu_root := (cpu_root k)(this_cpu k := root_phys a)\<rparr>))"

definition switch_address_space :: "ptr option \<Rightarrow> ptr option \<Rightarrow> kernel \<Rightarrow> kernel run" where
  "switch_address_space cur_as nxt_as k = do {
     k \<leftarrow> (case cur_as of
             Some a \<Rightarrow> (if nxt_as = None \<or> nxt_as \<noteq> cur_as
                       then upd_aspace a (mark_inactive_on_cpu (this_cpu k)) k else ret k)
           | None \<Rightarrow> ret k);
     let k = (if nxt_as = None \<and> cur_as \<noteq> None
              then k\<lparr>cpu_root := (cpu_root k)(this_cpu k := kernel_root k)\<rparr> else k);
     (case nxt_as of
        Some b \<Rightarrow> (if nxt_as \<noteq> cur_as
                  then do { k \<leftarrow> upd_aspace b (mark_active_on_cpu (this_cpu k)) k; activate b k }
                  else ret k)
      | None \<Rightarrow> ret k)
   }"

section \<open>Scheduling\<close>

definition requeue :: "nat \<Rightarrow> ptr \<Rightarrow> kernel \<Rightarrow> kernel run" where
  "requeue cpu t k = do {
     x \<leftarrow> tcbs k t;
     if magic x \<noteq> TCB_MAGIC then panic
     else if state x \<noteq> Exited \<and> state x \<noteq> Stopped
     then do {
       k \<leftarrow> upd_tcb t (\<lambda>x. x\<lparr>state := Ready\<rparr>) k;
       if priority x < NUM_PRIORITY_LEVELS then sched_enqueue cpu t (priority x) k else panic
     }
     else ret k
   }"

partial_function (option) pick_next :: "nat \<Rightarrow> kernel \<Rightarrow> (ptr option \<times> kernel) run" where
  "pick_next c k =
     (case dequeue_highest c k of
        None \<Rightarrow> None
      | Some (next, k') \<Rightarrow>
          (if next = idle (scheds k' c) then Some (next, k')
           else case next of
             None \<Rightarrow> None
           | Some t \<Rightarrow>
               (case tcbs k' t of
                  None \<Rightarrow> None
                | Some x \<Rightarrow>
                    (if state x = Stopped \<or> state x = Exited then pick_next c k'
                     else Some (next, k')))))"

text \<open>The I/O permission bitmap of the CPU's task state segment, a set bit denies the port.\<close>

definition IOPB_SIZE :: nat where "IOPB_SIZE = 8192"

definition load_iopb :: "nat \<Rightarrow> u8 list option \<Rightarrow> kernel \<Rightarrow> kernel" where
  "load_iopb cpu b k =
     k\<lparr>tss_iopb := (tss_iopb k)(cpu := case b of None \<Rightarrow> replicate IOPB_SIZE 0xFF | Some b \<Rightarrow> b)\<rparr>"

definition switch_to :: "nat \<Rightarrow> ptr option \<Rightarrow> ptr \<Rightarrow> kernel \<Rightarrow> kernel run" where
  "switch_to cpu cur new k = do {
     k \<leftarrow> upd_tcb new (\<lambda>x. x\<lparr>state := Running, preferred_cpu := cpu\<rparr>) k;
     let k = set_current cpu (Some new) k;
     x \<leftarrow> tcbs k new;
     let k = k\<lparr>trap_stack := (trap_stack k)(cpu := if is_user x then kernel_stack_top x else 0)\<rparr>;
     cur_as \<leftarrow> (case cur of None \<Rightarrow> ret None | Some t \<Rightarrow> do { y \<leftarrow> tcbs k t; ret (address_space y) });
     k \<leftarrow> switch_address_space cur_as (address_space x) k;
     let k = load_iopb cpu (iopb x) k;
     k \<leftarrow> (case cur of None \<Rightarrow> ret k | Some t \<Rightarrow> upd_tcb t (\<lambda>x. x\<lparr>context_saved := False\<rparr>) k);
     x \<leftarrow> tcbs k new;
     if Some new \<noteq> idle (scheds k cpu) \<and> \<not> context_saved x then panic
     else (case cur of None \<Rightarrow> ret k | Some t \<Rightarrow> upd_tcb t (\<lambda>x. x\<lparr>context_saved := True\<rparr>) k)
   }"

definition schedule :: "bool \<Rightarrow> kernel \<Rightarrow> kernel run" where
  "schedule requeue_current k =
     (let cpu = this_cpu k in
      if cpu \<ge> MAX_CPUS then panic
      else do {
        let cur = current (scheds k cpu);
        k \<leftarrow> (case cur of
                None \<Rightarrow> ret k
              | Some t \<Rightarrow> if requeue_current then requeue cpu t k else ret k);
        (next, k) \<leftarrow> pick_next cpu k;
        _ \<leftarrow> (case next of
                None \<Rightarrow> ret ()
              | Some t \<Rightarrow> if next = idle (scheds k cpu) then ret ()
                         else do {
                           x \<leftarrow> tcbs k t;
                           if magic x = TCB_MAGIC \<and> priority x < NUM_PRIORITY_LEVELS then ret () else panic
                         });
        if next = cur
        then (case cur of None \<Rightarrow> ret k | Some t \<Rightarrow> upd_tcb t (\<lambda>x. x\<lparr>state := Running\<rparr>) k)
        else (case next of None \<Rightarrow> panic | Some t \<Rightarrow> switch_to cpu cur t k)
      })"

definition timer_tick :: "kernel \<Rightarrow> kernel run" where
  "timer_tick k =
     (let cpu = this_cpu k in
      if cpu \<ge> MAX_CPUS then panic
      else case current (scheds k cpu) of
        None \<Rightarrow> ret k
      | Some t \<Rightarrow> do {
          x \<leftarrow> tcbs k t;
          if magic x \<noteq> TCB_MAGIC then panic
          else do {
            k \<leftarrow> (if cpu = 0 then sleep_check_wakeups k else ret k);
            x \<leftarrow> tcbs k t;
            if slice_remaining x = 0 then ret k
            else do {
              let new_remaining = slice_remaining x - 1;
              k \<leftarrow> upd_tcb t (\<lambda>x. x\<lparr>slice_remaining := new_remaining\<rparr>) k;
              if new_remaining = 0
              then do {
                k \<leftarrow> upd_tcb t (\<lambda>x. x\<lparr>slice_remaining := TIME_SLICE_TICKS\<rparr>) k;
                if preemption_disabled k then ret k else schedule True k
              }
              else ret k
            }
          }
        })"

section \<open>Frames\<close>

lemma run_queues_cong:
  assumes r: "run_queues k Q" and s: "\<And>c. queues (scheds k' c) = queues (scheds k c)"
      "\<And>c. non_empty (scheds k' c) = non_empty (scheds k c)"
    and t: "\<And>p. map_option (\<lambda>x. (run_queue_next x, magic x)) (tcbs k' p) =
      map_option (\<lambda>x. (run_queue_next x, magic x)) (tcbs k p)"
  shows "run_queues k' Q"
proof -
  have nx: "nxt run_queue_next (tcbs k') = nxt run_queue_next (tcbs k)"
  proof
    fix p show "nxt run_queue_next (tcbs k') p = nxt run_queue_next (tcbs k) p"
      using t [of p] by (cases "tcbs k p"; cases "tcbs k' p") (auto simp: nxt_def)
  qed
  have live: "tcbs k' p = None \<longleftrightarrow> tcbs k p = None" for p using t [of p] by (cases "tcbs k p"; cases "tcbs k' p") auto
  have rep: "rq_rep (tcbs k') q xs = rq_rep (tcbs k) q xs" for q xs by (simp add: rq_rep_def nx live)
  have mg: "(\<exists>x. tcbs k' p = Some x \<and> magic x = TCB_MAGIC) = (\<exists>x. tcbs k p = Some x \<and> magic x = TCB_MAGIC)" for p
    using t [of p] by (cases "tcbs k p"; cases "tcbs k' p") auto
  show ?thesis using r unfolding run_queues_def s rep mg .
qed

lemma run_queues_tcb:
  assumes "run_queues k Q" "tcbs k t = Some x" "run_queue_next y = run_queue_next x" "magic y = magic x"
  shows "run_queues (k\<lparr>tcbs := (tcbs k)(t \<mapsto> y)\<rparr>) Q"
  by (rule run_queues_cong [OF assms(1)]) (use assms(2-) in auto)

text \<open>Waking a thread changes run queues, loads, the preferred CPU of threads, and sends interrupts.\<close>

definition woke :: "kernel \<Rightarrow> kernel \<Rightarrow> bool" where
  "woke k k' \<longleftrightarrow> (\<exists>h s l i. k' = k\<lparr>tcbs := h, scheds := s, cpu_load := l, ipis_sent := i\<rparr> \<and>
     (\<forall>c. current (s c) = current (scheds k c) \<and> idle (s c) = idle (scheds k c) \<and>
        sched_cpu_id (s c) = sched_cpu_id (scheds k c)) \<and>
     (\<forall>p. map_option (\<lambda>x. x\<lparr>run_queue_next := None, preferred_cpu := 0\<rparr>) (h p) =
          map_option (\<lambda>x. x\<lparr>run_queue_next := None, preferred_cpu := 0\<rparr>) (tcbs k p)))"

lemma wokeI:
  assumes "k' = k\<lparr>tcbs := tcbs k', scheds := scheds k', cpu_load := cpu_load k', ipis_sent := ipis_sent k'\<rparr>"
    and "\<And>c. current (scheds k' c) = current (scheds k c)" "\<And>c. idle (scheds k' c) = idle (scheds k c)"
    and "\<And>c. sched_cpu_id (scheds k' c) = sched_cpu_id (scheds k c)"
    and "\<And>p. map_option (\<lambda>x. x\<lparr>run_queue_next := None, preferred_cpu := 0\<rparr>) (tcbs k' p) =
          map_option (\<lambda>x. x\<lparr>run_queue_next := None, preferred_cpu := 0\<rparr>) (tcbs k p)"
  shows "woke k k'"
  unfolding woke_def using assms by blast

lemma woke_refl [simp]: "woke k k"
  by (rule wokeI) simp_all

lemma woke_trans: "woke a b \<Longrightarrow> woke b c \<Longrightarrow> woke a c"
  unfolding woke_def by (elim exE conjE) (simp, blast)

lemma woke_fields:
  assumes "woke k k'"
  shows "kcaps k' = kcaps k" "objects k' = objects k" "cpu_count k' = cpu_count k" "this_cpu k' = this_cpu k"
    "idle_mask k' = idle_mask k" "apic_ids k' = apic_ids k"
    "current_tick k' = current_tick k" "sleep_list k' = sleep_list k" "sleep_count k' = sleep_count k"
    "endpoints k' = endpoints k" "signals k' = signals k" "event_queues k' = event_queues k"
    "wait_sets k' = wait_sets k" "irq_table k' = irq_table k" "brk k' = brk k" "aspaces k' = aspaces k"
    "cpu_root k' = cpu_root k" "kernel_root k' = kernel_root k" "trap_stack k' = trap_stack k"
    "preempt_count k' = preempt_count k" "current (scheds k' c) = current (scheds k c)"
    "idle (scheds k' c) = idle (scheds k c)" "sched_cpu_id (scheds k' c) = sched_cpu_id (scheds k c)"
    "irq_masked k' = irq_masked k" "irq_acked k' = irq_acked k" "frames k' = frames k" "memory k' = memory k"
    "next_thread_id k' = next_thread_id k" "ticks_per_second k' = ticks_per_second k"
  using assms unfolding woke_def by (elim exE conjE; simp)+

lemma strip_eq:
  assumes "map_option (\<lambda>x :: tcb. x\<lparr>run_queue_next := None, preferred_cpu := 0\<rparr>) a =
      Some (x\<lparr>run_queue_next := None, preferred_cpu := 0\<rparr>)"
  shows "\<exists>n c. a = Some (x\<lparr>run_queue_next := n, preferred_cpu := c\<rparr>)"
proof -
  obtain y where y: "a = Some y"
      "y\<lparr>run_queue_next := None, preferred_cpu := 0\<rparr> = x\<lparr>run_queue_next := None, preferred_cpu := 0\<rparr>"
    using assms by auto
  then have "x\<lparr>run_queue_next := run_queue_next y, preferred_cpu := preferred_cpu y\<rparr> = y"
    by (cases x; cases y) simp
  then show ?thesis using y(1) by metis
qed

lemma woke_tcb:
  assumes "woke k k'" "tcbs k t = Some x"
  shows "\<exists>n c. tcbs k' t = Some (x\<lparr>run_queue_next := n, preferred_cpu := c\<rparr>)"
proof -
  have "map_option (\<lambda>x. x\<lparr>run_queue_next := None, preferred_cpu := 0\<rparr>) (tcbs k' t) =
      Some (x\<lparr>run_queue_next := None, preferred_cpu := 0\<rparr>)"
    using assms unfolding woke_def by (elim exE conjE) simp
  then show ?thesis by (rule strip_eq)
qed

lemma woke_dead: "woke k k' \<Longrightarrow> tcbs k' t = None \<longleftrightarrow> tcbs k t = None"
  unfolding woke_def by (elim exE conjE) (simp, metis map_option_is_None)

lemma queues_only_woke:
  assumes "queues_only k k'"
  shows "woke k k'"
proof -
  obtain h s l where k': "k' = k\<lparr>tcbs := h, scheds := s, cpu_load := l\<rparr>"
      "\<forall>c. current (s c) = current (scheds k c) \<and> idle (s c) = idle (scheds k c) \<and>
        sched_cpu_id (s c) = sched_cpu_id (scheds k c)"
    using assms unfolding queues_only_def by blast
  show ?thesis
  proof (rule wokeI)
    fix p show "map_option (\<lambda>x. x\<lparr>run_queue_next := None, preferred_cpu := 0\<rparr>) (tcbs k' p) =
          map_option (\<lambda>x. x\<lparr>run_queue_next := None, preferred_cpu := 0\<rparr>) (tcbs k p)"
    proof (cases "tcbs k p")
      case None
      then show ?thesis using rq.keeps_live [OF queues_onlyD(1) [OF assms], of p] by simp
    next
      case (Some x)
      then show ?thesis using queues_only_tcb [OF assms Some] by auto
    qed
  qed (use k' in simp_all)
qed

section \<open>Waking\<close>

lemma enqueue_and_wake_step:
  assumes k1: "sched_enqueue c t p k = ret k1" "run_queues k1 Q'" "queues_only k k1"
    and c: "c < MAX_CPUS" and t: "tcbs k t = Some x"
  shows "\<exists>k'. enqueue_and_wake t c p k = ret k' \<and> run_queues k' Q' \<and> woke k k' \<and>
    ipis_sent k' = ipis_sent k @ (if c \<noteq> this_cpu k \<and> is_idle c k then [apic_ids k c] else [])"
proof -
  obtain y where y: "tcbs k1 t = Some y" using queues_only_tcb [OF k1(3) t] by auto
  let ?k2 = "k1\<lparr>tcbs := (tcbs k1)(t \<mapsto> y\<lparr>preferred_cpu := c\<rparr>)\<rparr>"
  let ?k3 = "if c \<noteq> this_cpu k \<and> is_idle c k then ?k2\<lparr>ipis_sent := ipis_sent k1 @ [apic_ids k c]\<rparr> else ?k2"
  note f = queues_only_fields [OF k1(3)]
  have "run_queues ?k2 Q'" by (rule run_queues_tcb [OF k1(2) y]) simp_all
  then have r3: "run_queues ?k3 Q'" by (auto intro: run_queues_cong)
  have "woke k1 ?k3" by (rule wokeI) (use y in auto)
  then have w: "woke k ?k3" using queues_only_woke [OF k1(3)] woke_trans by blast
  have "enqueue_and_wake t c p k = ret ?k3"
    using c k1(1) y f
    by (auto simp: enqueue_and_wake_def upd_tcb_def wake_idle_cpu_def is_idle_def apic_id_for_def)
  then show ?thesis using r3 w f by auto
qed

lemma enqueue_and_wake_ok:
  assumes r: "run_queues k Q" and c: "c < MAX_CPUS" "p < NUM_PRIORITY_LEVELS"
    and t: "t \<notin> queued Q" "tcbs k t = Some x" "magic x = TCB_MAGIC"
  shows "\<exists>k'. enqueue_and_wake t c p k = ret k' \<and> run_queues k' (Q(c := (Q c)(p := Q c p @ [t]))) \<and> woke k k' \<and>
    ipis_sent k' = ipis_sent k @ (if c \<noteq> this_cpu k \<and> is_idle c k then [apic_ids k c] else [])"
  using sched_enqueue_ok [OF r c t] enqueue_and_wake_step [OF _ _ _ c(1) t(2)] by blast

lemma least_loaded_mem: "least_loaded k cs m c = c \<or> least_loaded k cs m c \<in> set cs"
  by (induction cs arbitrary: m c) auto

lemma least_loaded_le:
  "m = current_load c k \<or> (\<exists>d \<in> set cs. current_load d k < m) \<Longrightarrow>
    current_load (least_loaded k cs m c) k \<le> m \<and>
    (\<forall>d \<in> set cs. current_load (least_loaded k cs m c) k \<le> current_load d k)"
proof (induction cs arbitrary: m c)
  case Nil
  then show ?case by simp
next
  case (Cons a cs)
  show ?case
  proof (cases "current_load a k < m")
    case True
    then show ?thesis using Cons.IH [of "current_load a k" a] by auto
  next
    case False
    then show ?thesis using Cons.IH [of m c] Cons.prems by auto
  qed
qed

lemma least_loaded_none: "\<forall>d \<in> set cs. \<not> current_load d k < m \<Longrightarrow> least_loaded k cs m c = c"
  by (induction cs) auto

lemma select_target_cpu_ok:
  assumes "tcbs k t = Some x" "cpu_affinity x = AFFINITY_ANY" "0 < cpu_count k" "cpu_count k \<le> MAX_CPUS"
  shows "\<exists>c. select_target_cpu t k = ret c \<and> c < cpu_count k \<and> (\<forall>d < cpu_count k. current_load c k \<le> current_load d k)"
proof -
  let ?c = "least_loaded k [0..<cpu_count k] (- 1) 0"
  have mem: "?c < cpu_count k" using least_loaded_mem [of k "[0..<cpu_count k]" "- 1" 0] assms(3) by auto
  have "current_load ?c k \<le> current_load d k" if "d < cpu_count k" for d
  proof (cases "\<exists>d \<in> set [0..<cpu_count k]. current_load d k < - 1")
    case True
    then show ?thesis using least_loaded_le [of "- 1" 0 k "[0..<cpu_count k]"] that by simp
  next
    case False
    then have "current_load d k = - 1" using that by (metis atLeastLessThan_iff le0 not_less set_upt word_order.extremum_uniqueI)
    then show ?thesis by simp
  qed
  then show ?thesis using assms mem by (auto simp: select_target_cpu_def)
qed

section \<open>Choosing the next thread\<close>

text \<open>The ready threads of a CPU in the order in which they are selected.\<close>

definition run_order :: "(nat \<Rightarrow> nat \<Rightarrow> ptr list) \<Rightarrow> nat \<Rightarrow> ptr list" where
  "run_order Q c = concat (map (Q c) (rev [0..<NUM_PRIORITY_LEVELS]))"

definition stopped_tcb :: "kernel \<Rightarrow> ptr \<Rightarrow> bool" where
  "stopped_tcb k t \<longleftrightarrow> (\<exists>x. tcbs k t = Some x \<and> (state x = Stopped \<or> state x = Exited))"

lemma concat_prio_head:
  assumes "f p = t # ts" "\<forall>i. p < i \<longrightarrow> f i = []" "p < n"
  shows "concat (map f (rev [0..<n])) = t # concat (map (f(p := ts)) (rev [0..<n]))"
proof -
  have "[0..<n] = [0..<p] @ p # [Suc p..<n]"
    using upt_add_eq_append [of 0 p "n - p"] upt_conv_Cons [OF assms(3)] assms(3) by simp
  then have e: "concat (map g (rev [0..<n])) = concat (map g (rev [Suc p..<n])) @ g p @ concat (map g (rev [0..<p]))" for g :: "nat \<Rightarrow> 'a list"
    by simp
  have z: "concat (map f (rev [Suc p..<n])) = []" "concat (map (f(p := ts)) (rev [Suc p..<n])) = []"
    using assms(2) by auto
  have "map (f(p := ts)) (rev [0..<p]) = map f (rev [0..<p])" by auto
  then show ?thesis unfolding e z using assms(1) by simp
qed

lemma run_order_cases:
  assumes r: "run_queues k Q" and c: "c < MAX_CPUS"
  obtains (empty) "\<forall>p. Q c p = []" "run_order Q c = []"
  | (head) p t ts where "Q c p = t # ts" "\<forall>i > p. Q c i = []" "p < NUM_PRIORITY_LEVELS"
      "run_order Q c = t # run_order (Q(c := (Q c)(p := ts))) c"
proof (cases "\<forall>p. Q c p = []")
  case True
  then show thesis using empty by (simp add: run_order_def)
next
  case False
  have bound: "p < NUM_PRIORITY_LEVELS" if "Q c p \<noteq> []" for p using that r unfolding run_queues_def by blast
  define p where "p = Max {p. Q c p \<noteq> []}"
  have fin: "finite {p. Q c p \<noteq> []}" using bound by (auto intro: finite_subset [of _ "{..<NUM_PRIORITY_LEVELS}"])
  have ne: "Q c p \<noteq> []" using Max_in [OF fin] False unfolding p_def by auto
  moreover have gt: "\<forall>j > p. Q c j = []" using Max_ge [OF fin] unfolding p_def by (metis leD mem_Collect_eq)
  ultimately obtain t ts where t: "Q c p = t # ts" by (cases "Q c p") auto
  then show thesis
    using head [OF t gt bound [OF ne]] concat_prio_head [of "Q c" p t ts, OF t gt bound [OF ne]]
    by (simp add: run_order_def)
qed

lemma pick_next_unfold_idle:
  "dequeue_highest c k = ret (n, k') \<Longrightarrow> n = idle (scheds k' c) \<Longrightarrow> pick_next c k = ret (n, k')"
  by (subst pick_next.simps) simp

lemma stopped_queues_only: "queues_only k k' \<Longrightarrow> stopped_tcb k' t = stopped_tcb k t"
  using queues_only_tcb [of k k' t] rq.keeps_live [OF queues_onlyD(1), of k k' t]
  by (cases "tcbs k t") (fastforce simp: stopped_tcb_def)+

text \<open>Stopped and exited threads at the front of the order are dropped; the first other one, or the idle
  thread, is selected.\<close>

lemma pick_next_ok:
  assumes "run_queues k Q" "c < MAX_CPUS"
  shows "\<exists>k' Q'. let rest = dropWhile (\<lambda>t. Some t \<noteq> idle (scheds k c) \<and> stopped_tcb k t) (run_order Q c) in
    pick_next c k = ret (case rest of [] \<Rightarrow> idle (scheds k c) | t # _ \<Rightarrow> Some t, k') \<and>
    run_queues k' Q' \<and> queues_only k k' \<and> run_order Q' c = tl rest \<and> (\<forall>d. d \<noteq> c \<longrightarrow> Q' d = Q d)"
  using assms
proof (induction "length (run_order Q c)" arbitrary: k Q rule: less_induct)
  case less
  from less.prems show ?case
  proof (cases rule: run_order_cases)
    case empty
    then have "pick_next c k = ret (idle (scheds k c), k)"
      using pick_next_unfold_idle dequeue_highest_idle [OF less.prems] by blast
    then show ?thesis using empty less.prems by (intro exI [of _ k] exI [of _ Q]) (simp add: Let_def)
  next
    case (head p t ts)
    let ?Q = "Q(c := (Q c)(p := ts))"
    obtain k1 where k1: "dequeue_highest c k = ret (Some t, k1)" "run_queues k1 ?Q" "queues_only k k1"
      using dequeue_highest_ok [OF less.prems head(1,2)] by blast
    obtain x where x: "tcbs k1 t = Some x"
      using run_queues_magic [OF less.prems(1) queuedI, of t c p] head(1)
        rq.keeps_live [OF queues_onlyD(1) [OF k1(3)], of t] by auto
    have idle: "idle (scheds k1 c) = idle (scheds k c)" using queues_onlyD(3) [OF k1(3)] .
    show ?thesis
    proof (cases "Some t \<noteq> idle (scheds k c) \<and> stopped_tcb k t")
      case True
      then have pk: "pick_next c k = pick_next c k1"
        using k1(1) x idle stopped_queues_only [OF k1(3), of t]
        by (subst pick_next.simps) (auto simp: stopped_tcb_def)
      have st: "stopped_tcb k1 = stopped_tcb k" using stopped_queues_only [OF k1(3)] by blast
      have "length (run_order ?Q c) < length (run_order Q c)" using head(4) by simp
      from less.hyps [OF this k1(2) less.prems(2), unfolded idle st] pk
      obtain k' Q' where "let rest = dropWhile (\<lambda>t. Some t \<noteq> idle (scheds k c) \<and> stopped_tcb k t) (run_order ?Q c) in
          pick_next c k = ret (case rest of [] \<Rightarrow> idle (scheds k c) | t # _ \<Rightarrow> Some t, k') \<and>
          run_queues k' Q' \<and> queues_only k1 k' \<and> run_order Q' c = tl rest \<and> (\<forall>d. d \<noteq> c \<longrightarrow> Q' d = ?Q d)"
        by auto
      then show ?thesis
        using head(4) True queues_only_trans [OF k1(3), of k']
        by (intro exI [of _ k'] exI [of _ Q']) (simp add: Let_def)
    next
      case False
      then have "pick_next c k = ret (Some t, k1)"
        using k1(1) x idle stopped_queues_only [OF k1(3), of t]
        by (subst pick_next.simps) (auto simp: stopped_tcb_def)
      then show ?thesis using k1 head(4) False by (intro exI [of _ k1] exI [of _ ?Q]) (auto simp: Let_def)
    qed
  qed
qed

lemma run_queues_bound: "run_queues k Q \<Longrightarrow> t \<in> set (Q c p) \<Longrightarrow> c < MAX_CPUS \<and> p < NUM_PRIORITY_LEVELS"
  unfolding run_queues_def by (metis emptyE empty_set)

lemma run_order_set: "run_queues k Q \<Longrightarrow> t \<in> set (run_order Q c) \<longleftrightarrow> (\<exists>p. t \<in> set (Q c p))"
  using run_queues_bound [of k Q t c] by (auto simp: run_order_def)

lemma run_order_distinct:
  assumes r: "run_queues k Q"
  shows "distinct (run_order Q c)"
  unfolding run_order_def distinct_concat_iff
proof (intro conjI)
  show "distinct (removeAll [] (map (Q c) (rev [0..<NUM_PRIORITY_LEVELS])))"
  proof -
    have "inj_on (Q c) {p. Q c p \<noteq> []}"
    proof (rule inj_onI)
      fix p q assume "p \<in> {p. Q c p \<noteq> []}" "q \<in> {p. Q c p \<noteq> []}" "Q c p = Q c q"
      then show "p = q" using run_queues_disjoint [OF r, of "hd (Q c p)" c p c q] by (metis hd_in_set mem_Collect_eq)
    qed
    moreover have "removeAll [] (map (Q c) xs) = map (Q c) (filter (\<lambda>p. Q c p \<noteq> []) xs)" for xs
      by (induction xs) auto
    ultimately show ?thesis by (auto simp: distinct_map intro: inj_on_subset)
  qed
  show "\<forall>ys. ys \<in> set (map (Q c) (rev [0..<NUM_PRIORITY_LEVELS])) \<longrightarrow> distinct ys"
    using run_queues_distinct [OF r] by auto
  show "\<forall>ys zs. ys \<in> set (map (Q c) (rev [0..<NUM_PRIORITY_LEVELS])) \<and>
      zs \<in> set (map (Q c) (rev [0..<NUM_PRIORITY_LEVELS])) \<and> ys \<noteq> zs \<longrightarrow> set ys \<inter> set zs = {}"
  proof (intro allI impI, elim conjE)
    fix ys zs assume "ys \<in> set (map (Q c) (rev [0..<NUM_PRIORITY_LEVELS]))"
      "zs \<in> set (map (Q c) (rev [0..<NUM_PRIORITY_LEVELS]))" and ne: "ys \<noteq> zs"
    then obtain p q where "ys = Q c p" "zs = Q c q" by auto
    then show "set ys \<inter> set zs = {}" using run_queues_disjoint [OF r, of _ c p c q] ne by blast
  qed
qed

lemma queued_split:
  "run_queues k Q \<Longrightarrow> t \<in> queued Q \<longleftrightarrow> t \<in> set (run_order Q c) \<or> (\<exists>d p. d \<noteq> c \<and> t \<in> set (Q d p))"
  by (auto simp: run_order_set queued_def)

text \<open>The invariant of the schedulers between operations.\<close>

definition thread_ok :: "kernel \<Rightarrow> ptr \<Rightarrow> bool" where
  "thread_ok k t \<longleftrightarrow> (\<exists>x. tcbs k t = Some x \<and> magic x = TCB_MAGIC \<and> priority x < NUM_PRIORITY_LEVELS \<and>
     (\<forall>a. address_space x = Some a \<longrightarrow> aspaces k a \<noteq> None))"

definition saved :: "kernel \<Rightarrow> ptr \<Rightarrow> bool" where
  "saved k t \<longleftrightarrow> (\<exists>x. tcbs k t = Some x \<and> context_saved x)"

definition sched_ok :: "kernel \<Rightarrow> (nat \<Rightarrow> nat \<Rightarrow> ptr list) \<Rightarrow> bool" where
  "sched_ok k Q \<longleftrightarrow> run_queues k Q \<and> this_cpu k < MAX_CPUS \<and>
     (\<forall>t \<in> queued Q. thread_ok k t \<and> saved k t) \<and>
     (\<forall>c < MAX_CPUS. \<forall>t. current (scheds k c) = Some t \<longrightarrow> thread_ok k t \<and> t \<notin> queued Q) \<and>
     (\<forall>c < MAX_CPUS. \<forall>d < MAX_CPUS. c \<noteq> d \<longrightarrow> current (scheds k c) \<noteq> None \<longrightarrow> current (scheds k c) \<noteq> current (scheds k d)) \<and>
     (\<forall>c < MAX_CPUS. \<forall>t. idle (scheds k c) = Some t \<longrightarrow> thread_ok k t \<and>
        (\<forall>d. d \<noteq> c \<longrightarrow> (\<forall>p. t \<notin> set (Q d p)) \<and>
           (d < MAX_CPUS \<longrightarrow> current (scheds k d) \<noteq> Some t \<and> idle (scheds k d) \<noteq> Some t)))"

text \<open>The address space of the thread a CPU runs, and what the CPU and the activity masks say of it.\<close>

definition space_of :: "kernel \<Rightarrow> nat \<Rightarrow> ptr option" where
  "space_of k c = Option.bind (current (scheds k c)) (\<lambda>t. Option.bind (tcbs k t) address_space)"

definition space_inv :: "kernel \<Rightarrow> (nat \<Rightarrow> ptr option) \<Rightarrow> bool" where
  "space_inv k S \<longleftrightarrow>
     (\<forall>c < MAX_CPUS. case S c of
        None \<Rightarrow> cpu_root k c = kernel_root k
      | Some a \<Rightarrow> (\<exists>A. aspaces k a = Some A \<and> cpu_root k c = root_phys A)) \<and>
     (\<forall>a A. aspaces k a = Some A \<longrightarrow> (\<forall>c < MAX_CPUS. bit (active_cpus A) c \<longleftrightarrow> S c = Some a))"

definition space_ok :: "kernel \<Rightarrow> bool" where
  "space_ok k \<longleftrightarrow> space_inv k (space_of k)"

definition requeues :: "bool \<Rightarrow> kernel \<Rightarrow> ptr \<Rightarrow> bool" where
  "requeues b k t \<longleftrightarrow> b \<and> \<not> stopped_tcb k t"

definition after_requeue :: "bool \<Rightarrow> kernel \<Rightarrow> nat \<Rightarrow> ptr \<Rightarrow> (nat \<Rightarrow> nat \<Rightarrow> ptr list) \<Rightarrow> nat \<Rightarrow> nat \<Rightarrow> ptr list" where
  "after_requeue b k c t Q =
     (if requeues b k t
      then let p = priority (the (tcbs k t)) in Q(c := (Q c)(p := Q c p @ [t])) else Q)"

definition set_ready :: "bool \<Rightarrow> kernel \<Rightarrow> ptr \<Rightarrow> kernel" where
  "set_ready b k t =
     (if requeues b k t then k\<lparr>tcbs := (tcbs k)(t \<mapsto> (the (tcbs k t))\<lparr>state := Ready\<rparr>)\<rparr> else k)"

lemma requeue_step:
  assumes r: "run_queues k Q" and c: "c < MAX_CPUS" and t: "thread_ok k t" "t \<notin> queued Q"
  shows "\<exists>k1. (if b then requeue c t k else ret k) = ret k1 \<and> run_queues k1 (after_requeue b k c t Q) \<and>
    queues_only (set_ready b k t) k1"
proof -
  obtain x where x: "tcbs k t = Some x" "magic x = TCB_MAGIC" "priority x < NUM_PRIORITY_LEVELS"
    using t(1) by (auto simp: thread_ok_def)
  show ?thesis
  proof (cases "requeues b k t")
    case True
    let ?k = "k\<lparr>tcbs := (tcbs k)(t \<mapsto> x\<lparr>state := Ready\<rparr>)\<rparr>"
    have "run_queues ?k Q" by (rule run_queues_tcb [OF r x(1)]) simp_all
    then obtain k1 where "sched_enqueue c t (priority x) ?k = ret k1"
        "run_queues k1 (Q(c := (Q c)(priority x := Q c (priority x) @ [t])))" "queues_only ?k k1"
      using sched_enqueue_ok [of ?k Q c "priority x" t "x\<lparr>state := Ready\<rparr>"] c x t(2) by auto
    then show ?thesis
      using True x by (auto simp: requeue_def upd_tcb_def after_requeue_def set_ready_def requeues_def stopped_tcb_def Let_def)
  next
    case False
    then show ?thesis
      using x r by (auto simp: requeue_def after_requeue_def set_ready_def requeues_def stopped_tcb_def)
  qed
qed

lemma set_ready_stopped: "tcbs k t \<noteq> None \<Longrightarrow> stopped_tcb (set_ready b k t) = stopped_tcb k"
  by (auto simp: fun_eq_iff stopped_tcb_def set_ready_def requeues_def)

definition choice :: "bool \<Rightarrow> kernel \<Rightarrow> (nat \<Rightarrow> nat \<Rightarrow> ptr list) \<Rightarrow> nat \<Rightarrow> ptr \<Rightarrow> ptr \<Rightarrow> ptr" where
  "choice b k Q c t i =
     (case dropWhile (\<lambda>u. u \<noteq> i \<and> stopped_tcb k u) (run_order (after_requeue b k c t Q) c) of
        [] \<Rightarrow> i | u # _ \<Rightarrow> u)"

lemma queued_append: "queued (Q(c := (Q c)(p := Q c p @ [t]))) = insert t (queued Q)" (is "queued ?Q = _")
proof
  show "queued ?Q \<subseteq> insert t (queued Q)" by (auto simp: queued_def split: if_splits)
  have "t \<in> set (?Q c p)" by simp
  moreover have "set (Q d i) \<subseteq> set (?Q d i)" for d i by auto
  ultimately show "insert t (queued Q) \<subseteq> queued ?Q" unfolding queued_def by blast
qed

lemma queued_after_requeue:
  "queued (after_requeue b k c t Q) = (if requeues b k t then insert t (queued Q) else queued Q)"
  by (simp add: after_requeue_def Let_def queued_append)

lemma case_list_Some: "(case xs of [] \<Rightarrow> Some i | u # _ \<Rightarrow> Some u) = Some (case xs of [] \<Rightarrow> i | u # _ \<Rightarrow> u)"
  by (cases xs) simp_all

lemma select_step:
  assumes ok: "sched_ok k Q" and c: "c = this_cpu k" and t: "current (scheds k c) = Some t"
    and i: "idle (scheds k c) = Some i"
  shows "\<exists>k1 k2 Q2. (if b then requeue c t k else ret k) = ret k1 \<and>
    pick_next c k1 = ret (Some (choice b k Q c t i), k2) \<and> run_queues k2 Q2 \<and> queues_only (set_ready b k t) k2 \<and>
    choice b k Q c t i \<notin> queued Q2 \<and> queued Q2 \<subseteq> queued (after_requeue b k c t Q) \<and>
    (choice b k Q c t i = i \<or> choice b k Q c t i \<in> queued (after_requeue b k c t Q)) \<and>
    (\<forall>d. d \<noteq> c \<longrightarrow> Q2 d = Q d)"
proof -
  have r: "run_queues k Q" and cl: "c < MAX_CPUS" and tok: "thread_ok k t" "t \<notin> queued Q"
    and io: "\<forall>d p. d \<noteq> c \<longrightarrow> i \<notin> set (Q d p)"
    using ok c t i unfolding sched_ok_def by blast+
  let ?Q1 = "after_requeue b k c t Q"
  obtain k1 where k1: "(if b then requeue c t k else ret k) = ret k1" "run_queues k1 ?Q1" "queues_only (set_ready b k t) k1"
    using requeue_step [OF r cl tok] by blast
  have live: "tcbs k t \<noteq> None" using tok by (auto simp: thread_ok_def)
  have st: "stopped_tcb k1 = stopped_tcb k"
    using stopped_queues_only [OF k1(3)] set_ready_stopped [OF live, of b] by auto
  have id: "idle (scheds k1 c) = Some i" using queues_onlyD(3) [OF k1(3)] i by (simp add: set_ready_def)
  define rest where "rest = dropWhile (\<lambda>u. u \<noteq> i \<and> stopped_tcb k u) (run_order ?Q1 c)"
  let ?n = "choice b k Q c t i"
  have n: "?n = (case rest of [] \<Rightarrow> i | u # _ \<Rightarrow> u)" by (simp only: choice_def rest_def)
  from pick_next_ok [OF k1(2) cl, unfolded id st] obtain k2 Q2 where
    k2: "pick_next c k1 = ret (case rest of [] \<Rightarrow> Some i | u # _ \<Rightarrow> Some u, k2)" "run_queues k2 Q2"
      "queues_only k1 k2" "run_order Q2 c = tl rest" "\<forall>d. d \<noteq> c \<longrightarrow> Q2 d = ?Q1 d"
    unfolding rest_def by (auto simp: Let_def)
  have pick: "pick_next c k1 = ret (Some ?n, k2)" using k2(1) unfolding case_list_Some n .
  have oth: "?Q1 d = Q d" if "d \<noteq> c" for d using that by (simp add: after_requeue_def Let_def)
  have sub: "set rest \<subseteq> set (run_order ?Q1 c)" unfolding rest_def by (auto dest: set_dropWhileD)
  have dis: "distinct rest" unfolding rest_def using run_order_distinct [OF k1(2)] by (rule distinct_dropWhile)
  have ro: "set (run_order Q2 c) \<subseteq> set (run_order ?Q1 c)" using k2(4) sub by (cases rest) auto
  have q2: "queued Q2 \<subseteq> queued ?Q1"
  proof
    fix u assume "u \<in> queued Q2"
    then consider "u \<in> set (run_order Q2 c)" | d p where "d \<noteq> c" "u \<in> set (Q2 d p)"
      using queued_split [OF k2(2), of u c] by blast
    then show "u \<in> queued ?Q1"
    proof cases
      case 1
      then show ?thesis using ro queued_split [OF k1(2), of u c] by blast
    next
      case 2
      then show ?thesis using k2(5) queuedI [of u ?Q1 d p] by simp
    qed
  qed
  have "?n = i \<or> ?n \<in> queued ?Q1"
    using sub queued_split [OF k1(2), of ?n c] n by (cases rest) auto
  moreover have "?n \<notin> queued Q2"
  proof (cases rest)
    case Nil
    then have "run_order Q2 c = []" "?n = i" using k2(4) n by auto
    then show ?thesis using queued_split [OF k2(2), of i c] k2(5) oth io by auto
  next
    case (Cons u us)
    then have u: "?n = u" "u \<notin> set (run_order Q2 c)" "u \<in> set (run_order ?Q1 c)"
      using k2(4) dis sub n by auto
    then obtain p where "u \<in> set (?Q1 c p)" using run_order_set [OF k1(2)] by blast
    then have "u \<notin> set (Q2 d q)" if "d \<noteq> c" for d q
      using that run_queues_disjoint [OF k1(2), of u c p d q] k2(5) by auto
    then show ?thesis using queued_split [OF k2(2), of u c] u by auto
  qed
  ultimately show ?thesis using k1(1) pick k2(2,5) oth q2 queues_only_trans [OF k1(3) k2(3)] by auto
qed

lemma bit_or_cpu: "bit (w OR 2 ^ c :: u64) d \<longleftrightarrow> bit w d \<or> d = c \<and> c < 64"
  by (auto simp: bit_simps)

lemma bit_clear_cpu: "bit (w AND NOT (2 ^ c) :: u64) d \<longleftrightarrow> bit w d \<and> d \<noteq> c"
  by (auto simp: bit_simps dest: bit_imp_le_length)

lemma space_inv_leave:
  assumes "space_inv k S" "c < MAX_CPUS" "S c = Some a" "aspaces k a = Some A"
  shows "space_inv (k\<lparr>aspaces := (aspaces k)(a \<mapsto> mark_inactive_on_cpu c A),
      cpu_root := (cpu_root k)(c := kernel_root k)\<rparr>) (S(c := None))"
  using assms unfolding space_inv_def mark_inactive_on_cpu_def
  by (auto simp: bit_clear_cpu split: option.splits)

lemma space_inv_enter:
  assumes "space_inv k S" "c < MAX_CPUS" "S c = None" "aspaces k b = Some B"
  shows "space_inv (k\<lparr>aspaces := (aspaces k)(b \<mapsto> mark_active_on_cpu c B),
      cpu_root := (cpu_root k)(c := root_phys B)\<rparr>) (S(c := Some b))"
  using assms unfolding space_inv_def mark_active_on_cpu_def
  by (auto simp: bit_or_cpu MAX_CPUS_def split: option.splits)

lemma switch_address_space_ok:
  assumes inv: "space_inv k S" and c: "c = this_cpu k" "c < MAX_CPUS" "S c = cur"
    and new: "\<forall>b. new = Some b \<longrightarrow> aspaces k b \<noteq> None"
  shows "\<exists>as root. switch_address_space cur new k = ret (k\<lparr>aspaces := as, cpu_root := root\<rparr>) \<and>
    space_inv (k\<lparr>aspaces := as, cpu_root := root\<rparr>) (S(c := new)) \<and> (\<forall>a. as a = None \<longleftrightarrow> aspaces k a = None)"
proof -
  let ?goal = "\<lambda>as root. switch_address_space cur new k = ret (k\<lparr>aspaces := as, cpu_root := root\<rparr>) \<and>
    space_inv (k\<lparr>aspaces := as, cpu_root := root\<rparr>) (S(c := new)) \<and> (\<forall>a. as a = None \<longleftrightarrow> aspaces k a = None)"
  consider (same) "new = cur" | (leave) a where "cur = Some a" "new = None"
    | (enter) b where "cur = None" "new = Some b" | (change) a b where "cur = Some a" "new = Some b" "a \<noteq> b"
    by (cases cur; cases new) auto
  then show ?thesis
  proof cases
    case same
    then have "?goal (aspaces k) (cpu_root k)" using inv c(3) by (cases cur) (simp_all add: switch_address_space_def fun_upd_idem)
    then show ?thesis by blast
  next
    case (leave a)
    then obtain A where A: "aspaces k a = Some A" using inv c unfolding space_inv_def by fastforce
    have "?goal ((aspaces k)(a \<mapsto> mark_inactive_on_cpu c A)) ((cpu_root k)(c := kernel_root k))"
      using space_inv_leave [OF inv c(2) _ A] c leave A by (simp add: switch_address_space_def upd_aspace_def)
    then show ?thesis by blast
  next
    case (enter b)
    then obtain B where B: "aspaces k b = Some B" using new by auto
    have "?goal ((aspaces k)(b \<mapsto> mark_active_on_cpu c B)) ((cpu_root k)(c := root_phys B))"
      using space_inv_enter [OF inv c(2) _ B] c enter B
      by (simp add: switch_address_space_def upd_aspace_def activate_def mark_active_on_cpu_def)
    then show ?thesis by blast
  next
    case (change a b)
    then obtain A B where A: "aspaces k a = Some A" and B: "aspaces k b = Some B"
      using inv c new unfolding space_inv_def by fastforce
    have i1: "space_inv (k\<lparr>aspaces := (aspaces k)(a \<mapsto> mark_inactive_on_cpu c A),
        cpu_root := (cpu_root k)(c := kernel_root k)\<rparr>) (S(c := None))"
      by (rule space_inv_leave [OF inv c(2) _ A]) (use c change in simp)
    have "?goal ((aspaces k)(a \<mapsto> mark_inactive_on_cpu c A, b \<mapsto> mark_active_on_cpu c B)) ((cpu_root k)(c := root_phys B))"
      using space_inv_enter [OF i1 c(2), of b B] c change A B
      by (simp add: switch_address_space_def upd_aspace_def activate_def mark_active_on_cpu_def)
    then show ?thesis by blast
  qed
qed

lemma space_inv_cong:
  "space_inv k S \<Longrightarrow> aspaces k' = aspaces k \<Longrightarrow> cpu_root k' = cpu_root k \<Longrightarrow> kernel_root k' = kernel_root k \<Longrightarrow> space_inv k' S"
  unfolding space_inv_def by (simp cong: option.case_cong)

lemma switch_to_ok:
  assumes c: "c = this_cpu k" "c < MAX_CPUS" and t: "n \<noteq> t" "tcbs k n = Some x" "tcbs k t = Some y"
    and sv: "idle (scheds k c) = Some n \<or> context_saved x"
    and inv: "space_inv k S" "S c = address_space y" "\<forall>b. address_space x = Some b \<longrightarrow> aspaces k b \<noteq> None"
  shows "\<exists>as root st io k'. switch_to c (Some t) n k = ret k' \<and>
    k' = k\<lparr>tcbs := (tcbs k)(n \<mapsto> x\<lparr>state := Running, preferred_cpu := c\<rparr>, t \<mapsto> y\<lparr>context_saved := True\<rparr>),
      scheds := (scheds k)(c := scheds k c\<lparr>current := Some n\<rparr>), trap_stack := st, aspaces := as, cpu_root := root, tss_iopb := io\<rparr> \<and>
    space_inv k' (S(c := address_space x)) \<and> (\<forall>a. as a = None \<longleftrightarrow> aspaces k a = None)"
proof -
  let ?k1 = "k\<lparr>tcbs := (tcbs k)(n \<mapsto> x\<lparr>state := Running, preferred_cpu := c\<rparr>),
      scheds := (scheds k)(c := scheds k c\<lparr>current := Some n\<rparr>),
      trap_stack := (trap_stack k)(c := if is_user x then kernel_stack_top x else 0)\<rparr>"
  have "space_inv ?k1 S" by (rule space_inv_cong [OF inv(1)]) simp_all
  from switch_address_space_ok [OF this _ c(2) inv(2), of "address_space x"] c(1) inv(3) obtain as root where
    sw: "switch_address_space (address_space y) (address_space x) ?k1 = ret (?k1\<lparr>aspaces := as, cpu_root := root\<rparr>)"
      "space_inv (?k1\<lparr>aspaces := as, cpu_root := root\<rparr>) (S(c := address_space x))"
      "\<forall>a. as a = None \<longleftrightarrow> aspaces k a = None" by auto
  let ?k' = "k\<lparr>tcbs := (tcbs k)(n \<mapsto> x\<lparr>state := Running, preferred_cpu := c\<rparr>, t \<mapsto> y\<lparr>context_saved := True\<rparr>),
      scheds := (scheds k)(c := scheds k c\<lparr>current := Some n\<rparr>),
      trap_stack := (trap_stack k)(c := if is_user x then kernel_stack_top x else 0), aspaces := as, cpu_root := root,
      tss_iopb := (tss_iopb k)(c := case iopb x of None \<Rightarrow> replicate IOPB_SIZE 0xFF | Some b \<Rightarrow> b)\<rparr>"
  have "switch_to c (Some t) n k = ret ?k'"
    using c t sv sw(1) by (auto simp: switch_to_def upd_tcb_def set_current_def put_sched_def load_iopb_def)
  moreover have "space_inv ?k' (S(c := address_space x))" by (rule space_inv_cong [OF sw(2)]) simp_all
  ultimately show ?thesis using sw(3) by blast
qed

lemma set_ready_tcb:
  assumes "queues_only (set_ready b k t) k2" "tcbs k u = Some x"
  shows "\<exists>y. tcbs k2 u = Some y \<and> magic y = magic x \<and> priority y = priority x \<and> address_space y = address_space x \<and>
    context_saved y = context_saved x"
proof -
  obtain z where z: "tcbs (set_ready b k t) u = Some z" "magic z = magic x" "priority z = priority x"
      "address_space z = address_space x" "context_saved z = context_saved x"
    using assms(2) by (cases "u = t"; cases "requeues b k t") (simp_all add: set_ready_def)
  then show ?thesis using queues_only_tcb [OF assms(1) z(1)] by auto
qed

lemma set_ready_fields [simp]:
  "scheds (set_ready b k t) = scheds k" "aspaces (set_ready b k t) = aspaces k" "this_cpu (set_ready b k t) = this_cpu k"
  "cpu_root (set_ready b k t) = cpu_root k" "kernel_root (set_ready b k t) = kernel_root k"
  by (simp_all add: set_ready_def)

lemma thread_ok_mono:
  assumes "thread_ok k u" "\<And>x. tcbs k u = Some x \<Longrightarrow> \<exists>y. tcbs k' u = Some y \<and> magic y = magic x \<and>
      priority y = priority x \<and> address_space y = address_space x" "\<And>a. aspaces k' a = None \<longleftrightarrow> aspaces k a = None"
  shows "thread_ok k' u"
proof -
  obtain x where "tcbs k u = Some x" "magic x = TCB_MAGIC" "priority x < NUM_PRIORITY_LEVELS"
      "\<forall>a. address_space x = Some a \<longrightarrow> aspaces k a \<noteq> None"
    using assms(1) unfolding thread_ok_def by blast
  then show ?thesis using assms(2) [of x] assms(3) unfolding thread_ok_def by auto
qed

lemma sched_okD:
  assumes "sched_ok k Q"
  shows "run_queues k Q" "this_cpu k < MAX_CPUS" "u \<in> queued Q \<Longrightarrow> thread_ok k u \<and> saved k u"
    "d < MAX_CPUS \<Longrightarrow> current (scheds k d) = Some u \<Longrightarrow> thread_ok k u \<and> u \<notin> queued Q"
    "d < MAX_CPUS \<Longrightarrow> e < MAX_CPUS \<Longrightarrow> d \<noteq> e \<Longrightarrow> current (scheds k d) \<noteq> None \<Longrightarrow> current (scheds k d) \<noteq> current (scheds k e)"
    "d < MAX_CPUS \<Longrightarrow> idle (scheds k d) = Some u \<Longrightarrow> thread_ok k u"
    "d < MAX_CPUS \<Longrightarrow> idle (scheds k d) = Some u \<Longrightarrow> e \<noteq> d \<Longrightarrow> u \<notin> set (Q e p)"
    "d < MAX_CPUS \<Longrightarrow> idle (scheds k d) = Some u \<Longrightarrow> e \<noteq> d \<Longrightarrow> e < MAX_CPUS \<Longrightarrow>
      current (scheds k e) \<noteq> Some u \<and> idle (scheds k e) \<noteq> Some u"
proof -
  note A = assms [unfolded sched_ok_def]
  note B = A [THEN conjunct2, THEN conjunct2]
  note C = B [THEN conjunct2, THEN conjunct2]
  show "run_queues k Q" by (rule A [THEN conjunct1])
  show "this_cpu k < MAX_CPUS" by (rule A [THEN conjunct2, THEN conjunct1])
  show "u \<in> queued Q \<Longrightarrow> thread_ok k u \<and> saved k u" by (rule B [THEN conjunct1, rule_format])
  show "d < MAX_CPUS \<Longrightarrow> current (scheds k d) = Some u \<Longrightarrow> thread_ok k u \<and> u \<notin> queued Q"
    by (rule B [THEN conjunct2, THEN conjunct1, rule_format])
  show "d < MAX_CPUS \<Longrightarrow> e < MAX_CPUS \<Longrightarrow> d \<noteq> e \<Longrightarrow> current (scheds k d) \<noteq> None \<Longrightarrow> current (scheds k d) \<noteq> current (scheds k e)"
    by (rule C [THEN conjunct1, rule_format])
  note I = C [THEN conjunct2, rule_format]
  show "d < MAX_CPUS \<Longrightarrow> idle (scheds k d) = Some u \<Longrightarrow> thread_ok k u" by (drule I) (assumption, blast)
  show "d < MAX_CPUS \<Longrightarrow> idle (scheds k d) = Some u \<Longrightarrow> e \<noteq> d \<Longrightarrow> u \<notin> set (Q e p)" by (drule I) (assumption, blast)
  show "d < MAX_CPUS \<Longrightarrow> idle (scheds k d) = Some u \<Longrightarrow> e \<noteq> d \<Longrightarrow> e < MAX_CPUS \<Longrightarrow>
      current (scheds k e) \<noteq> Some u \<and> idle (scheds k e) \<noteq> Some u" by (drule I) (assumption, blast)
qed

lemma sched_okI:
  assumes "run_queues k Q" "this_cpu k < MAX_CPUS" "\<forall>u. u \<in> queued Q \<longrightarrow> thread_ok k u \<and> saved k u"
    "\<forall>d u. d < MAX_CPUS \<longrightarrow> current (scheds k d) = Some u \<longrightarrow> thread_ok k u \<and> u \<notin> queued Q"
    "\<forall>d e. d < MAX_CPUS \<longrightarrow> e < MAX_CPUS \<longrightarrow> d \<noteq> e \<longrightarrow> current (scheds k d) \<noteq> None \<longrightarrow> current (scheds k d) \<noteq> current (scheds k e)"
    "\<forall>d u. d < MAX_CPUS \<longrightarrow> idle (scheds k d) = Some u \<longrightarrow> thread_ok k u"
    "\<forall>d u e. d < MAX_CPUS \<longrightarrow> idle (scheds k d) = Some u \<longrightarrow> e \<noteq> d \<longrightarrow> (\<forall>p. u \<notin> set (Q e p)) \<and>
      (e < MAX_CPUS \<longrightarrow> current (scheds k e) \<noteq> Some u \<and> idle (scheds k e) \<noteq> Some u)"
  shows "sched_ok k Q"
  unfolding sched_ok_def
  apply (intro conjI)
  subgoal by (rule assms(1))
  subgoal by (rule assms(2))
  subgoal using assms(3) by blast
  subgoal using assms(4) by blast
  subgoal using assms(5) by blast
  subgoal using assms(6,7) by blast
  done

text \<open>The queues and the current threads after a selection again satisfy the invariant.\<close>

lemma sched_ok_step:
  assumes ok: "sched_ok k Q" and c: "c = this_cpu k" "this_cpu k' = c" and t: "current (scheds k c) = Some t"
    and i: "idle (scheds k c) = Some i" and r: "run_queues k' Q2" "\<forall>d. d \<noteq> c \<longrightarrow> Q2 d = Q d"
    and n: "n \<notin> queued Q2" "n = i \<or> n = t \<or> n \<in> queued Q" "queued Q2 \<subseteq> insert t (queued Q)"
    and th: "\<And>u. thread_ok k u \<Longrightarrow> thread_ok k' u" "\<And>u. saved k u \<Longrightarrow> u \<noteq> t \<Longrightarrow> saved k' u" "t \<in> queued Q2 \<Longrightarrow> saved k' t"
    and cur: "current (scheds k' c) = Some n" "\<And>d. d \<noteq> c \<Longrightarrow> current (scheds k' d) = current (scheds k d)"
      "\<And>d. idle (scheds k' d) = idle (scheds k d)"
  shows "sched_ok k' Q2"
proof -
  note D = sched_okD [OF ok]
  have cl: "c < MAX_CPUS" using D(2) c by simp
  have tok: "thread_ok k t" "t \<notin> queued Q" using D(4) [OF cl t] by auto
  note qok = D(3) and cok = D(4) and iok = D(6) and iq = D(7) and ic = D(8)
  have cdis: "current (scheds k d) \<noteq> Some t" if "d < MAX_CPUS" "d \<noteq> c" for d using D(5) [OF cl that(1)] that t by auto
  have ni: "current (scheds k d) \<noteq> Some n" if "d < MAX_CPUS" "d \<noteq> c" for d
    using n(2) cdis [OF that] cok [OF that(1)] ic [OF cl i] that by blast
  have nok: "thread_ok k n" using n(2) tok iok [OF cl i] qok by blast
  have idle_other: "(\<forall>p. u \<notin> set (Q2 e p)) \<and> (e < MAX_CPUS \<longrightarrow> current (scheds k' e) \<noteq> Some u \<and> idle (scheds k' e) \<noteq> Some u)"
    if u: "d < MAX_CPUS" "idle (scheds k d) = Some u" "e \<noteq> d" for d u e
  proof (cases "e = c")
    case False
    then show ?thesis using u iq [OF u] ic [OF u] r(2) cur by auto
  next
    case True
    then have ut: "u \<noteq> t" "u \<noteq> i" using ic [OF u] t i cl by auto
    have "\<not> (\<exists>p. u \<in> set (Q2 c p))"
    proof
      assume "\<exists>p. u \<in> set (Q2 c p)"
      then obtain p where p: "u \<in> set (Q2 c p)" by blast
      then have "u \<in> queued Q" using n(3) queuedI [of u Q2 c p] p ut by blast
      then obtain e' q where e': "u \<in> set (Q e' q)" unfolding queued_def by blast
      then have "e' = d" using iq [OF u(1,2)] by blast
      then show False using run_queues_disjoint [OF r(1) p, of e' q] e' r(2) True u(3) by auto
    qed
    moreover have "u \<noteq> n"
    proof
      assume "u = n"
      then have "u \<in> queued Q" using n(2) ut by auto
      then obtain e' q where e': "u \<in> set (Q e' q)" unfolding queued_def by blast
      then have "e' = d" using iq [OF u(1,2)] by blast
      then have "u \<in> queued Q2" using e' r(2) True u(3) queuedI [of u Q2 d q] by simp
      then show False using n(1) \<open>u = n\<close> by simp
    qed
    ultimately show ?thesis using True cur ic [OF u] by auto
  qed
  have q2: "thread_ok k' u \<and> saved k' u" if "u \<in> queued Q2" for u
    using that n(3) th qok tok by (cases "u = t") auto
  have c2: "thread_ok k' u \<and> u \<notin> queued Q2" if "d < MAX_CPUS" "current (scheds k' d) = Some u" for d u
  proof (cases "d = c")
    case True
    then show ?thesis using that cur(1) n(1) nok th(1) by simp
  next
    case False
    then show ?thesis using that cur(2) cok [OF that(1)] cdis [OF that(1)] n(3) th(1) by fastforce
  qed
  have dis: "current (scheds k' d) \<noteq> current (scheds k' e)"
    if "d < MAX_CPUS" "e < MAX_CPUS" "d \<noteq> e" "current (scheds k' d) \<noteq> None" for d e
    using that cur(1,2) ni [OF that(1)] ni [OF that(2)] D(5) [OF that(1,2,3)] by (cases "d = c"; cases "e = c") auto
  show ?thesis
  proof (rule sched_okI)
    show "this_cpu k' < MAX_CPUS" using c cl by simp
    show "\<forall>d u. d < MAX_CPUS \<longrightarrow> idle (scheds k' d) = Some u \<longrightarrow> thread_ok k' u" using iok th(1) cur(3) by simp
    show "\<forall>d u e. d < MAX_CPUS \<longrightarrow> idle (scheds k' d) = Some u \<longrightarrow> e \<noteq> d \<longrightarrow> (\<forall>p. u \<notin> set (Q2 e p)) \<and>
        (e < MAX_CPUS \<longrightarrow> current (scheds k' e) \<noteq> Some u \<and> idle (scheds k' e) \<noteq> Some u)"
      using idle_other unfolding cur(3) by blast
  qed (use r(1) q2 c2 dis in blast)+
qed

lemma schedule_ok:
  assumes ok: "sched_ok k Q" and sp: "space_ok k" and c: "c = this_cpu k"
    and t: "current (scheds k c) = Some t" and i: "idle (scheds k c) = Some i"
  shows "\<exists>k' Q'. schedule b k = ret k' \<and> sched_ok k' Q' \<and> space_ok k' \<and> this_cpu k' = c \<and>
    current (scheds k' c) = Some (choice b k Q c t i) \<and>
    (\<exists>x. tcbs k' (choice b k Q c t i) = Some x \<and> state x = Running) \<and>
    queued Q' \<subseteq> queued (after_requeue b k c t Q)"
proof -
  let ?n = "choice b k Q c t i"
  note D = sched_okD [OF ok]
  have cl: "c < MAX_CPUS" and tok: "thread_ok k t" "t \<notin> queued Q" using D(2) D(4) [of c t] t c by auto
  obtain k1 k2 Q2 where s: "(if b then requeue c t k else ret k) = ret k1" "pick_next c k1 = ret (Some ?n, k2)"
      "run_queues k2 Q2" "queues_only (set_ready b k t) k2" "?n \<notin> queued Q2"
      "queued Q2 \<subseteq> queued (after_requeue b k c t Q)" "?n = i \<or> ?n \<in> queued (after_requeue b k c t Q)"
      "\<forall>d. d \<noteq> c \<longrightarrow> Q2 d = Q d"
    using select_step [OF ok c t i, of b] by blast
  note qa = queued_after_requeue [of b k c t Q]
  have n: "?n = i \<or> ?n = t \<or> ?n \<in> queued Q" "queued Q2 \<subseteq> insert t (queued Q)"
    using s(6,7) qa by (auto split: if_splits)
  have nok: "thread_ok k ?n" using n(1) tok D(3) [of ?n] D(6) [OF cl i] by auto
  note tc = set_ready_tcb [OF s(4)]
  have sc: "current (scheds k2 d) = current (scheds k d)" "idle (scheds k2 d) = idle (scheds k d)" for d
    using queues_onlyD [OF s(4)] by auto
  have f: "aspaces k2 = aspaces k" "cpu_root k2 = cpu_root k" "kernel_root k2 = kernel_root k" "this_cpu k2 = c"
    using queues_only_fields [OF s(4)] c by auto
  obtain x where x: "tcbs k2 ?n = Some x" "magic x = TCB_MAGIC" "priority x < NUM_PRIORITY_LEVELS"
      "\<forall>a. address_space x = Some a \<longrightarrow> aspaces k2 a \<noteq> None" "saved k ?n \<longrightarrow> context_saved x"
    using nok tc [of ?n] f(1) unfolding thread_ok_def saved_def by fastforce
  obtain y where y: "tcbs k2 t = Some y" using tok(1) tc [of t] unfolding thread_ok_def by blast
  have inv: "space_inv k2 (space_of k)" using sp f(1-3) space_inv_cong unfolding space_ok_def by blast
  have same: "schedule b k = (if ?n = t then upd_tcb t (\<lambda>x. x\<lparr>state := Running\<rparr>) k2 else switch_to c (Some t) ?n k2)"
    using s(1,2) t i x(1-3) cl sc(2) by (auto simp: schedule_def Let_def simp flip: c)
  have dead: "tcbs k2 u = None \<longleftrightarrow> tcbs k u = None" for u
    using rq.keeps_live [OF queues_onlyD(1) [OF s(4)], of u] tok(1) by (auto simp: set_ready_def thread_ok_def split: if_splits)
  have addr: "Option.bind (tcbs k2 u) address_space = Option.bind (tcbs k u) address_space" for u
    using tc [of u] dead [of u] by (cases "tcbs k u") auto
  have Sc: "space_of k c = address_space y" using addr [of t] y t by (simp add: space_of_def)
  have sv2: "saved k2 u" if "saved k u" for u using that tc [of u] unfolding saved_def by fastforce
  show ?thesis
  proof (cases "?n = t")
    case True
    let ?k = "k2\<lparr>tcbs := (tcbs k2)(t \<mapsto> y\<lparr>state := Running\<rparr>)\<rparr>"
    have th: "thread_ok ?k u" if "thread_ok k u" for u
      by (rule thread_ok_mono [OF that]) (use tc [of u] y f(1) in auto)
    have sv: "saved ?k u" if "saved k u" for u using sv2 [OF that] y by (auto simp: saved_def)
    have rq: "run_queues ?k Q2" by (rule run_queues_tcb [OF s(3) y]) simp_all
    have "sched_ok ?k Q2"
      by (rule sched_ok_step [OF ok c _ t i rq s(8,5) n th]) (use True s(5) sv sc t f(4) in auto)
    moreover have addr': "Option.bind (tcbs ?k u) address_space = Option.bind (tcbs k u) address_space" for u
      using addr [of u] y by (cases "u = t") auto
    have "space_of ?k = space_of k" unfolding space_of_def addr' by (simp add: sc(1))
    then have "space_ok ?k" using space_inv_cong [OF inv, of ?k] by (simp add: space_ok_def)
    ultimately show ?thesis using same True y s(6) sc(1) t f(4) by (auto simp: upd_tcb_def)
  next
    case False
    have sv: "idle (scheds k2 c) = Some ?n \<or> context_saved x"
      using n(1) False D(3) [of ?n] x(5) i sc(2) by auto
    obtain as root st io k' where k': "switch_to c (Some t) ?n k2 = ret k'"
        "k' = k2\<lparr>tcbs := (tcbs k2)(?n \<mapsto> x\<lparr>state := Running, preferred_cpu := c\<rparr>, t \<mapsto> y\<lparr>context_saved := True\<rparr>),
          scheds := (scheds k2)(c := scheds k2 c\<lparr>current := Some ?n\<rparr>), trap_stack := st, aspaces := as, cpu_root := root,
          tss_iopb := io\<rparr>"
        "space_inv k' ((space_of k)(c := address_space x))" "\<forall>a. as a = None \<longleftrightarrow> aspaces k2 a = None"
      using switch_to_ok [OF f(4) [symmetric] cl False x(1) y sv inv Sc x(4)] by blast
    have rq: "run_queues k' Q2" by (rule run_queues_cong [OF s(3)]) (use k'(2) x(1) y False in auto)
    have th: "thread_ok k' u" if "thread_ok k u" for u
      by (rule thread_ok_mono [OF that]) (use tc [of u] x(1) y f(1) k'(2,4) in auto)
    have svk: "saved k' u" if "saved k u" "u \<noteq> t" for u
      using sv2 [OF that(1)] that(2) x(1) k'(2) by (auto simp: saved_def)
    have cur: "current (scheds k' c) = Some ?n" "\<And>d. d \<noteq> c \<Longrightarrow> current (scheds k' d) = current (scheds k d)"
        "\<And>d. idle (scheds k' d) = idle (scheds k d)" using k'(2) sc by auto
    have "saved k' t" "this_cpu k' = c" using k'(2) f(4) by (auto simp: saved_def)
    then have "sched_ok k' Q2"
      by (intro sched_ok_step [OF ok c _ t i rq s(8) s(5) n(1,2) th svk _ cur]) auto
    moreover have addr': "Option.bind (tcbs k' u) address_space = Option.bind (tcbs k u) address_space" for u
      using addr [of u] x(1) y k'(2) False by (cases "u = t"; cases "u = ?n") auto
    have "space_of k' = (space_of k)(c := address_space x)"
      using addr [of ?n] x(1) unfolding space_of_def addr' by (auto simp: fun_eq_iff cur)
    then have "space_ok k'" using k'(3) by (simp add: space_ok_def)
    moreover have "tcbs k' ?n = Some (x\<lparr>state := Running, preferred_cpu := c\<rparr>)" using k'(2) False by simp
    ultimately show ?thesis using same False k'(1) cur(1) s(6) \<open>this_cpu k' = c\<close> by auto
  qed
qed

section \<open>Sleeping threads\<close>

definition due :: "tcb_heap \<Rightarrow> nat \<Rightarrow> ptr \<Rightarrow> bool" where
  "due h now t \<longleftrightarrow> (\<exists>x. h t = Some x \<and> sleep_deadline x \<le> now)"

definition wake_entry :: "tcb_heap \<Rightarrow> ptr \<Rightarrow> ptr \<times> nat \<times> nat" where
  "wake_entry h t = (t, preferred_cpu (the (h t)), priority (the (h t)))"

definition make_ready :: "ptr set \<Rightarrow> tcb_heap \<Rightarrow> tcb_heap" where
  "make_ready S h = (\<lambda>p. if p \<in> S then map_option (\<lambda>x. x\<lparr>sleep_deadline := 0, state := Ready\<rparr>) (h p) else h p)"

lemma take_swap_last:
  assumes "i < n" "n \<le> length sl"
  shows "mset (take (n - 1) (sl[i := sl ! (n - 1), n - 1 := None])) + {#sl ! i#} = mset (take n sl)"
proof -
  have n: "mset (take n sl) = mset (take (n - 1) sl) + {#sl ! (n - 1)#}"
    using assms take_Suc_conv_app_nth [of "n - 1" sl] by simp
  have "take (n - 1) (sl[i := sl ! (n - 1), n - 1 := None]) = (take (n - 1) sl)[i := sl ! (n - 1)]"
    by (simp add: take_update_swap list_update_beyond)
  moreover have "sl ! i \<in> set (take (n - 1) sl)" if "i \<noteq> n - 1"
    using that assms nth_mem [of i "take (n - 1) sl"] by simp
  ultimately show ?thesis
    using assms n by (cases "i = n - 1") (auto simp: mset_update)
qed

text \<open>The first \<open>n\<close> entries are threads, and the scan separates the expired ones from the others.\<close>

definition sleepers :: "nat \<Rightarrow> ptr option list \<Rightarrow> tcb_heap \<Rightarrow> bool" where
  "sleepers n sl h \<longleftrightarrow> n \<le> length sl \<and> distinct (take n sl) \<and> (\<forall>e \<in> set (take n sl). \<exists>t x. e = Some t \<and> h t = Some x)"

lemma sleepers_nth: "sleepers n sl h \<Longrightarrow> i < n \<Longrightarrow> \<exists>t x. sl ! i = Some t \<and> h t = Some x"
  unfolding sleepers_def by (metis in_set_conv_nth length_take min.absorb2 nth_take)

lemma sleepers_swap:
  assumes s: "sleepers n sl h" and i: "i < n" "sl ! i = Some t"
    and h: "\<And>u. u \<noteq> t \<Longrightarrow> h' u = h u"
  shows "sleepers (n - 1) (sl[i := sl ! (n - 1), n - 1 := None]) h'" (is "sleepers _ ?sl _")
    and "Some t \<notin> set (take (n - 1) (sl[i := sl ! (n - 1), n - 1 := None]))"
proof -
  have len: "n \<le> length sl" and d: "distinct (take n sl)" using s by (auto simp: sleepers_def)
  have sw: "mset (sl ! i # take (n - 1) ?sl) = mset (take n sl)" using take_swap_last [OF i(1) len] by simp
  then have d': "distinct (sl ! i # take (n - 1) ?sl)" using d by (metis mset_eq_imp_distinct_iff)
  then show out: "Some t \<notin> set (take (n - 1) ?sl)" using i(2) by simp
  have set: "set (take n sl) = set (sl ! i # take (n - 1) ?sl)" using sw by (metis mset_eq_setD)
  have "\<exists>u x. e = Some u \<and> h' u = Some x" if e: "e \<in> set (take (n - 1) ?sl)" for e
  proof -
    have "e \<noteq> Some t" using out e by auto
    moreover obtain u x where "e = Some u" "h u = Some x" using s set e unfolding sleepers_def by auto
    ultimately show ?thesis using h [of u] by auto
  qed
  then show "sleepers (n - 1) ?sl h'" using len d' by (auto simp: sleepers_def)
qed

lemma sleep_scan_ok:
  assumes "sleepers n sl h" "i \<le> n" "\<forall>j < i. \<forall>t. sl ! j = Some t \<longrightarrow> \<not> due h now t" "length w + n \<le> MAX_SLEEPING"
  shows "\<exists>es n' sl'. sleep_scan now i n sl h w = ret (w @ map (wake_entry h) es, n', sl', make_ready (set es) h) \<and>
    n' \<le> n \<and> length sl' = length sl \<and> mset (take n' sl') + mset (map Some es) = mset (take n sl) \<and> (\<forall>t \<in> set es. due h now t) \<and>
    (\<forall>j < n'. \<forall>t. sl' ! j = Some t \<longrightarrow> \<not> due h now t)"
  using assms
proof (induction now i n sl h w rule: sleep_scan.induct)
  case (1 now i n sl h w)
  show ?case
  proof (cases "i < n")
    case False
    then show ?thesis using "1.prems" by (intro exI [of _ "[]"]) (simp add: make_ready_def)
  next
    case True
    obtain t x where t: "sl ! i = Some t" "h t = Some x" using sleepers_nth [OF "1.prems"(1) True] by blast
    show ?thesis
    proof (cases "sleep_deadline x \<le> now")
      case False
      then have "\<forall>j < Suc i. \<forall>t. sl ! j = Some t \<longrightarrow> \<not> due h now t"
        using "1.prems"(3) t by (auto simp: less_Suc_eq due_def)
      then show ?thesis using "1.IH"(3) [OF True t False] "1.prems" t True False by simp
    next
      case due: True
      let ?h = "h(t \<mapsto> x\<lparr>sleep_deadline := 0, state := Ready\<rparr>)" and ?sl = "sl[i := sl ! (n - 1), n - 1 := None]"
      have out: "Some t \<notin> set (take (n - 1) ?sl)" and sl: "sleepers (n - 1) ?sl ?h"
        using sleepers_swap [OF "1.prems"(1) True t(1), of ?h] by auto
      have due_h: "due ?h now u = due h now u" if "u \<noteq> t" for u using that by (simp add: due_def)
      have len: "n \<le> length sl" using "1.prems"(1) by (simp add: sleepers_def)
      have in_sl: "Some u \<in> set (take (n - 1) ?sl)" if "j < n - 1" "?sl ! j = Some u" for j u
        using that len nth_mem [of j "take (n - 1) ?sl"] by simp
      have early: "\<forall>j < i. \<forall>u. ?sl ! j = Some u \<longrightarrow> \<not> due ?h now u"
      proof (intro allI impI)
        fix j u assume j: "j < i" "?sl ! j = Some u"
        then have "j < n - 1" using True by linarith
        then have "u \<noteq> t" using in_sl [of j u] j(2) out by blast
        then show "\<not> due ?h now u" using "1.prems"(3) due_h j True by auto
      qed
      have w: "length w < MAX_SLEEPING" "length (w @ [(t, preferred_cpu x, priority x)]) + (n - 1) \<le> MAX_SLEEPING" "i \<le> n - 1"
        using "1.prems"(4) True by auto
      obtain es n' sl' where r: "sleep_scan now i (n - 1) ?sl ?h (w @ [(t, preferred_cpu x, priority x)]) =
            ret ((w @ [(t, preferred_cpu x, priority x)]) @ map (wake_entry ?h) es, n', sl', make_ready (set es) ?h)"
          "n' \<le> n - 1" "length sl' = length ?sl" "mset (take n' sl') + mset (map Some es) = mset (take (n - 1) ?sl)"
          "\<forall>u \<in> set es. due ?h now u" "\<forall>j < n'. \<forall>u. sl' ! j = Some u \<longrightarrow> \<not> due ?h now u"
        using "1.IH"(2) [OF True t due w(1) sl w(3) early w(2)] by blast
      have set: "set (take n' sl') \<union> Some ` set es = set (take (n - 1) ?sl)"
        using arg_cong [OF r(4), of set_mset] by simp
      have nt: "t \<notin> set es" using set out by auto
      have "\<not> due h now u" if "j < n'" "sl' ! j = Some u" for j u
      proof -
        have "Some u \<in> set (take n' sl')" using that r(2,3) len nth_mem [of j "take n' sl'"] by simp
        then have "u \<noteq> t" using set out by auto
        then show ?thesis using r(6) that due_h by auto
      qed
      moreover have "mset (take n' sl') + mset (map Some (t # es)) = mset (take n sl)"
        using r(4) take_swap_last [OF True len] t(1) by simp
      moreover have "map (wake_entry ?h) es = map (wake_entry h) es" using nt by (auto simp: wake_entry_def)
      moreover have "make_ready (set es) ?h = make_ready (set (t # es)) h" using nt t(2) by (auto simp: make_ready_def)
      moreover have "due h now t" using due t(2) by (simp add: due_def)
      then have "\<forall>u \<in> set (t # es). due h now u" using r(5) due_h nt by (metis set_ConsD)
      moreover have "sleep_scan now i n sl h w = sleep_scan now i (n - 1) ?sl ?h (w @ [(t, preferred_cpu x, priority x)])"
        using True t due w(1) by (simp del: sleep_scan.simps add: sleep_scan.simps [of now i n])
      ultimately show ?thesis
        using r(1-3) t(2) by (intro exI [of _ "t # es"] exI [of _ n'] exI [of _ sl']) (simp del: sleep_scan.simps add: wake_entry_def)
    qed
  qed
qed

definition push_ready_thread :: "(nat \<Rightarrow> nat \<Rightarrow> ptr list) \<Rightarrow> ptr \<times> nat \<times> nat \<Rightarrow> nat \<Rightarrow> nat \<Rightarrow> ptr list" where
  "push_ready_thread Q e = (case e of (t, c, p) \<Rightarrow> Q(c := (Q c)(p := Q c p @ [t])))"

lemma queued_push1: "queued (push_ready_thread Q e) = insert (fst e) (queued Q)"
  by (cases e) (simp add: push_ready_thread_def queued_append)

lemma queued_push: "queued (foldl push_ready_thread Q ws) = queued Q \<union> fst ` set ws"
  by (induction ws arbitrary: Q) (simp_all add: queued_push1)

lemma wake_all_ok:
  assumes "run_queues k Q" "distinct (map fst ws)" "\<forall>(t, c, p) \<in> set ws. t \<notin> queued Q \<and> c < MAX_CPUS \<and>
      p < NUM_PRIORITY_LEVELS \<and> (\<exists>x. tcbs k t = Some x \<and> magic x = TCB_MAGIC)"
  shows "\<exists>k'. wake_all ws k = ret k' \<and> run_queues k' (foldl push_ready_thread Q ws) \<and> woke k k'"
  using assms
proof (induction ws arbitrary: k Q)
  case Nil
  then show ?case by simp
next
  case (Cons e ws)
  obtain t c p where e: "e = (t, c, p)" by (cases e) auto
  obtain x where x: "tcbs k t = Some x" "magic x = TCB_MAGIC" using Cons.prems(3) e by auto
  define Q1 where "Q1 = push_ready_thread Q e"
  have Q1: "Q1 = Q(c := (Q c)(p := Q c p @ [t]))" by (simp add: Q1_def e push_ready_thread_def)
  obtain k1 where k1: "enqueue_and_wake t c p k = ret k1" "run_queues k1 Q1" "woke k k1"
    using enqueue_and_wake_ok [OF Cons.prems(1) _ _ _ x, of c p] Cons.prems(3) e unfolding Q1 by auto
  have "\<forall>(u, d, q) \<in> set ws. u \<notin> queued Q1 \<and> d < MAX_CPUS \<and> q < NUM_PRIORITY_LEVELS \<and>
      (\<exists>x. tcbs k1 u = Some x \<and> magic x = TCB_MAGIC)"
  proof (clarify, intro conjI)
    fix u d q assume u: "(u, d, q) \<in> set ws"
    then have "u \<noteq> t" using Cons.prems(2) e by force
    then show "u \<notin> queued Q1" using Cons.prems(3) u queued_push1 [of Q e] e by (auto simp: Q1_def)
    show "d < MAX_CPUS" "q < NUM_PRIORITY_LEVELS" using Cons.prems(3) u by auto
    obtain y where "tcbs k u = Some y" "magic y = TCB_MAGIC" using Cons.prems(3) u by auto
    then show "\<exists>x. tcbs k1 u = Some x \<and> magic x = TCB_MAGIC" using woke_tcb [OF k1(3), of u y] by auto
  qed
  then obtain k2 where "wake_all ws k1 = ret k2" "run_queues k2 (foldl push_ready_thread Q1 ws)" "woke k1 k2"
    using Cons.IH [OF k1(2)] Cons.prems(2) by auto
  then show ?case using e k1(1) woke_trans [OF k1(3)] by (auto simp: Q1_def)
qed

lemma sleep_check_ok:
  assumes r: "run_queues k Q" and sl: "sleepers (sleep_count k) (sleep_list k) (tcbs k)" "sleep_count k \<le> MAX_SLEEPING"
    and th: "\<forall>t x. Some t \<in> set (take (sleep_count k) (sleep_list k)) \<longrightarrow> tcbs k t = Some x \<longrightarrow>
      t \<notin> queued Q \<and> magic x = TCB_MAGIC \<and> preferred_cpu x < MAX_CPUS \<and> priority x < NUM_PRIORITY_LEVELS"
  shows "\<exists>k' es Q'. sleep_check_wakeups k = ret k' \<and> run_queues k' Q' \<and> queued Q' = queued Q \<union> set es \<and>
    distinct es \<and> set es = {t. Some t \<in> set (take (sleep_count k) (sleep_list k)) \<and> due (tcbs k) (current_tick k) t} \<and>
    Some ` set es \<union> set (take (sleep_count k') (sleep_list k')) = set (take (sleep_count k) (sleep_list k)) \<and>
    (\<forall>t. Some t \<in> set (take (sleep_count k') (sleep_list k')) \<longrightarrow> t \<notin> set es) \<and>
    woke (k\<lparr>sleep_list := sleep_list k', sleep_count := sleep_count k', tcbs := make_ready (set es) (tcbs k)\<rparr>) k'"
proof -
  let ?n = "sleep_count k" and ?sl = "sleep_list k" and ?h = "tcbs k" and ?now = "current_tick k"
  obtain es n' sl' where s: "sleep_scan ?now 0 ?n ?sl ?h [] = ret (map (wake_entry ?h) es, n', sl', make_ready (set es) ?h)"
      "n' \<le> ?n" "length sl' = length ?sl" "mset (take n' sl') + mset (map Some es) = mset (take ?n ?sl)"
      "\<forall>t \<in> set es. due ?h ?now t" "\<forall>j < n'. \<forall>t. sl' ! j = Some t \<longrightarrow> \<not> due ?h ?now t"
    using sleep_scan_ok [OF sl(1), of 0 ?now "[]"] sl(2) by auto
  have "distinct (take n' sl' @ map Some es)"
    using s(4) sl(1) unfolding sleepers_def by (metis mset_append mset_eq_imp_distinct_iff)
  then have d: "distinct es" by (auto simp: distinct_map)
  have set: "set (take n' sl') \<union> Some ` set es = set (take ?n ?sl)" using arg_cong [OF s(4), of set_mset] by simp
  have nd: "\<not> due ?h ?now t" if "Some t \<in> set (take n' sl')" for t
    using that s(2,3,6) by (metis in_set_conv_nth length_take min.strict_boundedE nth_take)
  have es: "set es = {t. Some t \<in> set (take ?n ?sl) \<and> due ?h ?now t}" using set s(5) nd by auto
  let ?k = "k\<lparr>sleep_list := sl', sleep_count := n', tcbs := make_ready (set es) ?h\<rparr>"
  have r1: "run_queues ?k Q" by (rule run_queues_cong [OF r]) (auto simp: make_ready_def option.map_comp comp_def)
  have live: "\<exists>x. tcbs k t = Some x" if "t \<in> set es" for t using s(5) that by (auto simp: due_def)
  have ok: "\<forall>(t, c, p) \<in> set (map (wake_entry ?h) es). t \<notin> queued Q \<and> c < MAX_CPUS \<and>
      p < NUM_PRIORITY_LEVELS \<and> (\<exists>x. tcbs ?k t = Some x \<and> magic x = TCB_MAGIC)"
    using th live set by (fastforce simp: wake_entry_def make_ready_def)
  have "distinct (map fst (map (wake_entry ?h) es))" using d by (simp add: wake_entry_def comp_def)
  then obtain k' where k': "wake_all (map (wake_entry ?h) es) ?k = ret k'"
      "run_queues k' (foldl push_ready_thread Q (map (wake_entry ?h) es))" "woke ?k k'"
    using wake_all_ok [OF r1 _ ok] by blast
  have q: "queued (foldl push_ready_thread Q (map (wake_entry ?h) es)) = queued Q \<union> set es"
    unfolding queued_push by (simp add: image_image wake_entry_def)
  have f: "sleep_list k' = sl'" "sleep_count k' = n'" using woke_fields [OF k'(3)] by auto
  have w: "woke (k\<lparr>sleep_list := sleep_list k', sleep_count := sleep_count k', tcbs := make_ready (set es) ?h\<rparr>) k'"
    using k'(3) f by simp
  have ret: "sleep_check_wakeups k = ret k'" using s(1) k'(1) by (simp add: sleep_check_wakeups_def)
  have "Some ` set es \<union> set (take (sleep_count k') (sleep_list k')) = set (take ?n ?sl)" using set f by auto
  moreover have "\<forall>t. Some t \<in> set (take (sleep_count k') (sleep_list k')) \<longrightarrow> t \<notin> set es" using nd s(5) f by auto
  ultimately show ?thesis using ret k'(2) q d es w by blast
qed

section \<open>A running CPU\<close>

text \<open>CPU 0 runs its idle thread 3 while thread 7 is queued at priority 5 and thread 8 sleeps until tick 4.\<close>

definition demo_kernel :: kernel where
  "demo_kernel = blank_kernel\<lparr>
     scheds := (scheds blank_kernel)(0 := (scheds blank_kernel 0)\<lparr>current := Some 3, idle := Some 3\<rparr>),
     tcbs := (tcbs blank_kernel)(8 \<mapsto> blank_tcb\<lparr>state := Blocked, sleep_deadline := 4\<rparr>),
     current_tick := 6, sleep_list := (replicate MAX_SLEEPING None)[0 := Some 8], sleep_count := 1\<rparr>"

lemma demo_kernel_queues: "run_queues demo_kernel (\<lambda>c p. [])"
  by (simp add: run_queues_def demo_kernel_def blank_kernel_def PerCpuScheduler_new_def RunQueue_new_def rq_rep_def)

lemma demo_kernel_tcb: "p < 8 \<Longrightarrow> tcbs demo_kernel p = Some blank_tcb"
  "tcbs demo_kernel 8 = Some (blank_tcb\<lparr>state := Blocked, sleep_deadline := 4\<rparr>)"
  by (simp_all add: demo_kernel_def blank_kernel_tcb)

lemma demo_kernel_current:
  "current (scheds demo_kernel c) = (if c = 0 then Some 3 else None)" "idle (scheds demo_kernel c) = (if c = 0 then Some 3 else None)"
  by (simp_all add: demo_kernel_def blank_kernel_def PerCpuScheduler_new_def)

lemma demo_thread_ok: "thread_ok demo_kernel 3" "thread_ok demo_kernel 7" "saved demo_kernel 7"
  by (simp_all add: thread_ok_def saved_def demo_kernel_tcb blank_tcb_def NUM_PRIORITY_LEVELS_def PRIORITY_DEFAULT_def)

lemma demo_running:
  "\<exists>k. sched_enqueue 0 7 5 demo_kernel = ret k \<and> sched_ok k ((\<lambda>c p. [])(0 := (\<lambda>p. [])(5 := [7]))) \<and> space_ok k \<and>
     this_cpu k = 0 \<and> current (scheds k 0) = Some 3 \<and> idle (scheds k 0) = Some 3 \<and> \<not> stopped_tcb k 7"
proof -
  let ?Q = "(\<lambda>c p. [])(0 := (\<lambda>p. [])(5 := [7 :: ptr]))"
  obtain k where k: "sched_enqueue 0 7 5 demo_kernel = ret k" "run_queues k ?Q" "queues_only demo_kernel k"
    using sched_enqueue_ok [OF demo_kernel_queues, of 0 5 7 blank_tcb] blank_kernel_tcb(2)
    by (auto simp: MAX_CPUS_def NUM_PRIORITY_LEVELS_def queued_def demo_kernel_tcb)
  note f = queues_only_fields [OF k(3)] queues_onlyD(2,3) [OF k(3)] demo_kernel_current
  have cpu: "this_cpu k = 0" using f(4) by (simp add: demo_kernel_def blank_kernel_def)
  have q: "queued ?Q = {7}" by (auto simp: queued_def split: if_splits)
  have t: "thread_ok k 3" "thread_ok k 7" "saved k 7" "\<not> stopped_tcb k 7"
    using queues_only_tcb [OF k(3), of 3 blank_tcb] queues_only_tcb [OF k(3), of 7 blank_tcb]
    by (auto simp: thread_ok_def saved_def stopped_tcb_def demo_kernel_tcb blank_tcb_def NUM_PRIORITY_LEVELS_def PRIORITY_DEFAULT_def)
  have "sched_ok k ?Q"
    by (rule sched_okI) (use k(2) t q in \<open>auto simp: cpu f MAX_CPUS_def split: if_splits\<close>)
  moreover have "space_ok k"
    using f(17-19) queues_only_tcb [OF k(3), of 3 blank_tcb]
    by (auto simp: space_ok_def space_inv_def space_of_def f demo_kernel_tcb blank_tcb_def demo_kernel_def blank_kernel_def PerCpuScheduler_new_def split: option.splits)
  ultimately show ?thesis using k(1) cpu t f by auto
qed

section \<open>Properties\<close>

text \<open>(C10) Rescheduling. From every state that satisfies the scheduler invariant, \<open>schedule\<close> returns (the wait for the
  saved context of the chosen thread ends), and the CPU then runs the thread that the selection order
  gives: the first one, by decreasing priority and then by age, that has not been stopped, the
  preempted thread being queued last at its priority, or the idle thread. The thread is Running, the
  invariant holds again, and so does the agreement between the installed page tables, the running
  threads and the activity masks of the address spaces.\<close>

theorem schedule_selects:
  assumes "sched_ok k Q" "space_ok k" "c = this_cpu k" "current (scheds k c) = Some t" "idle (scheds k c) = Some i"
  shows "\<exists>k' Q'. schedule b k = ret k' \<and> sched_ok k' Q' \<and> space_ok k' \<and> this_cpu k' = c \<and>
    current (scheds k' c) = Some (choice b k Q c t i) \<and>
    (\<exists>x. tcbs k' (choice b k Q c t i) = Some x \<and> state x = Running) \<and>
    queued Q' \<subseteq> queued (after_requeue b k c t Q)"
  using schedule_ok [OF assms] by blast

theorem schedule_selects_witness:
  "\<exists>k k'. sched_enqueue 0 7 5 demo_kernel = ret k \<and> schedule False k = ret k' \<and> current (scheds k' 0) = Some 7"
proof -
  let ?Q = "(\<lambda>c p. [])(0 := (\<lambda>p. [])(5 := [7 :: ptr]))"
  obtain k where k: "sched_enqueue 0 7 5 demo_kernel = ret k" "sched_ok k ?Q" "space_ok k" "this_cpu k = 0"
      "current (scheds k 0) = Some 3" "idle (scheds k 0) = Some 3" "\<not> stopped_tcb k 7"
    using demo_running by blast
  have "run_order ?Q 0 = [7]" by (simp add: run_order_def NUM_PRIORITY_LEVELS_def upt_rec)
  then have "choice False k ?Q 0 3 3 = 7" using k(7) by (simp add: choice_def after_requeue_def requeues_def)
  then show ?thesis using schedule_selects [OF k(2,3) k(4) [symmetric] k(5,6), of False] k(1) by auto
qed

text \<open>(C15) Placement. A thread without a fixed affinity is placed on an online CPU, and no online CPU has a
  smaller load.\<close>

theorem select_target_cpu_least:
  assumes "tcbs k t = Some x" "cpu_affinity x = AFFINITY_ANY" "0 < cpu_count k" "cpu_count k \<le> MAX_CPUS"
  shows "\<exists>c. select_target_cpu t k = ret c \<and> c < cpu_count k \<and> (\<forall>d < cpu_count k. current_load c k \<le> current_load d k)"
  using select_target_cpu_ok [OF assms] .

theorem select_target_cpu_least_witness:
  "\<exists>c. select_target_cpu 7 blank_kernel = ret c \<and> c < 2 \<and> current_load c blank_kernel = 0"
  using select_target_cpu_least [of blank_kernel 7 blank_tcb]
  by (simp add: blank_kernel_def blank_tcb_def MAX_CPUS_def current_load_def AFFINITY_ANY_def)

text \<open>(C11) Timed wake-ups. One pass over the sleep list removes exactly the threads whose deadline has come, makes each of them
  Ready with its deadline cleared and appends it to a run queue; the others keep sleeping, none is
  lost or woken twice although entries are moved while the list is scanned.\<close>

theorem sleep_wakeups_exact:
  assumes "run_queues k Q" "sleepers (sleep_count k) (sleep_list k) (tcbs k)" "sleep_count k \<le> MAX_SLEEPING"
    and "\<forall>t x. Some t \<in> set (take (sleep_count k) (sleep_list k)) \<longrightarrow> tcbs k t = Some x \<longrightarrow>
      t \<notin> queued Q \<and> magic x = TCB_MAGIC \<and> preferred_cpu x < MAX_CPUS \<and> priority x < NUM_PRIORITY_LEVELS"
  shows "\<exists>k' es Q'. sleep_check_wakeups k = ret k' \<and> run_queues k' Q' \<and> queued Q' = queued Q \<union> set es \<and>
    distinct es \<and> set es = {t. Some t \<in> set (take (sleep_count k) (sleep_list k)) \<and> due (tcbs k) (current_tick k) t} \<and>
    Some ` set es \<union> set (take (sleep_count k') (sleep_list k')) = set (take (sleep_count k) (sleep_list k)) \<and>
    (\<forall>t. Some t \<in> set (take (sleep_count k') (sleep_list k')) \<longrightarrow> t \<notin> set es) \<and>
    woke (k\<lparr>sleep_list := sleep_list k', sleep_count := sleep_count k', tcbs := make_ready (set es) (tcbs k)\<rparr>) k'"
  using sleep_check_ok [OF assms] .

theorem sleep_wakeups_exact_witness:
  "\<exists>k' Q'. sleep_check_wakeups demo_kernel = ret k' \<and> run_queues k' Q' \<and> queued Q' = {8}"
proof -
  have sl: "take (sleep_count demo_kernel) (sleep_list demo_kernel) = [Some 8]" "sleep_count demo_kernel = 1"
    "sleep_list demo_kernel = Some 8 # replicate 15 None"
    by (simp_all add: demo_kernel_def MAX_SLEEPING_def numeral_eq_Suc)
  have q: "queued (\<lambda>c p. []) = {}" by (simp add: queued_def)
  have "due (tcbs demo_kernel) (current_tick demo_kernel) 8"
    by (simp add: due_def demo_kernel_tcb) (simp add: demo_kernel_def)
  then show ?thesis
    using sleep_wakeups_exact [OF demo_kernel_queues]
    by (auto simp: sl q sleepers_def demo_kernel_tcb blank_tcb_def MAX_SLEEPING_def MAX_CPUS_def NUM_PRIORITY_LEVELS_def
        PRIORITY_DEFAULT_def)
qed

end
