(* ===== verification/Ring_Buffer.thy ===== *)
theory Ring_Buffer
  imports Kernel_Prelude
begin

text \<open>
  Bounded queues in a circular array. \<open>ring_list r i n\<close> lists the \<open>n\<close> entries of the array \<open>r\<close> that
  start at index \<open>i\<close>, wrapping around its end. The locale \<open>bounded_fifo\<close> is the contract of such a
  queue; the event queues (\<open>kernel/src/ipc/event_queue.rs\<close>) and the ready rings of the wait sets
  (\<open>kernel/src/ipc/wait_set.rs\<close>) are its two implementations.
\<close>

section \<open>Contents of a ring\<close>

definition ring_list :: "'a list \<Rightarrow> nat \<Rightarrow> nat \<Rightarrow> 'a list" where
  "ring_list r i n = map (\<lambda>j. r ! ((i + j) mod length r)) [0..<n]"

lemma ring_list_simps [simp]: "ring_list r i 0 = []" "length (ring_list r i n) = n"
  by (simp_all add: ring_list_def)

lemma ring_list_nth: "j < n \<Longrightarrow> ring_list r i n ! j = r ! ((i + j) mod length r)"
  by (simp add: ring_list_def)

lemma mod_add_left_cancel:
  fixes i j n m :: nat
  assumes "(i + j) mod m = (i + n) mod m" "j < m" "n < m"
  shows "j = n"
proof -
  obtain p q where "i + j + m * p = i + n + m * q" using assms(1) unfolding nat_mod_eq_iff by blast
  then have "j + m * p = n + m * q" by simp
  then have "j mod m = n mod m" unfolding nat_mod_eq_iff by blast
  then show ?thesis using assms(2,3) by simp
qed

lemma ring_put:
  assumes "n < length r"
  shows "ring_list (r[(i + n) mod length r := x]) i (Suc n) = ring_list r i n @ [x]"
proof (rule nth_equalityI)
  have pos: "0 < length r" using assms by linarith
  fix j assume "j < length (ring_list (r[(i + n) mod length r := x]) i (Suc n))"
  then consider "j < n" | "j = n" by fastforce
  then show "ring_list (r[(i + n) mod length r := x]) i (Suc n) ! j = (ring_list r i n @ [x]) ! j"
  proof cases
    case 1
    then have "(i + j) mod length r \<noteq> (i + n) mod length r" using assms mod_add_left_cancel [of i j "length r" n] by auto
    then show ?thesis using 1 by (simp add: ring_list_nth nth_append del: upt_Suc)
  next
    case 2
    then show ?thesis using pos by (simp add: ring_list_nth nth_append del: upt_Suc)
  qed
qed simp

lemma ring_get:
  assumes "0 < n"
  shows "ring_list r i n = r ! (i mod length r) # ring_list r ((i + 1) mod length r) (n - 1)"
proof -
  have "[0..<n] = 0 # map Suc [0..<n - 1]" using assms upt_conv_Cons [of 0 n] map_Suc_upt [of 0 "n - 1"] by simp
  then show ?thesis by (simp add: ring_list_def comp_def mod_add_left_eq)
qed

lemma ring_update_out:
  assumes "n < length r"
  shows "ring_list (r[(i + n) mod length r := x]) i n = ring_list r i n"
  using ring_put [OF assms, of i x] by (simp add: ring_list_def)

section \<open>The contract\<close>

locale bounded_fifo =
  fixes put :: "'a \<Rightarrow> 's \<Rightarrow> 's run"
    and get :: "'s \<Rightarrow> ('a \<times> 's) run"
    and contents :: "'s \<Rightarrow> 'a list"
    and cap :: "'s \<Rightarrow> nat"
    and ok :: "'s \<Rightarrow> bool"
    and elem :: "'a \<Rightarrow> bool"
  assumes put_law: "ok s \<Longrightarrow> elem x \<Longrightarrow> length (contents s) < cap s \<Longrightarrow>
      \<exists>s'. put x s = ret s' \<and> ok s' \<and> contents s' = contents s @ [x] \<and> cap s' = cap s"
    and get_law: "ok s \<Longrightarrow> contents s = x # xs \<Longrightarrow>
      \<exists>s'. get s = ret (x, s') \<and> ok s' \<and> contents s' = xs \<and> cap s' = cap s"
    and contents_bound: "ok s \<Longrightarrow> length (contents s) \<le> cap s"
begin

fun put_all :: "'a list \<Rightarrow> 's \<Rightarrow> 's run" where
  "put_all [] s = ret s"
| "put_all (x # xs) s = Option.bind (put x s) (put_all xs)"

fun get_n :: "nat \<Rightarrow> 's \<Rightarrow> ('a list \<times> 's) run" where
  "get_n 0 s = ret ([], s)"
| "get_n (Suc n) s = do { (x, s) \<leftarrow> get s; (xs, s) \<leftarrow> get_n n s; ret (x # xs, s) }"

lemma put_all_ok:
  "ok s \<Longrightarrow> \<forall>x \<in> set xs. elem x \<Longrightarrow> length (contents s) + length xs \<le> cap s \<Longrightarrow>
    \<exists>s'. put_all xs s = ret s' \<and> ok s' \<and> contents s' = contents s @ xs \<and> cap s' = cap s"
proof (induction xs arbitrary: s)
  case (Cons x xs)
  then obtain s1 where s1: "put x s = ret s1" "ok s1" "contents s1 = contents s @ [x]" "cap s1 = cap s"
    using put_law [of s x] by auto
  then show ?case using Cons.IH [of s1] Cons.prems by auto
qed simp

lemma get_n_ok:
  "ok s \<Longrightarrow> n \<le> length (contents s) \<Longrightarrow>
    \<exists>s'. get_n n s = ret (take n (contents s), s') \<and> ok s' \<and> contents s' = drop n (contents s) \<and> cap s' = cap s"
proof (induction n arbitrary: s)
  case (Suc n)
  then obtain x xs where c: "contents s = x # xs" by (cases "contents s") auto
  then obtain s1 where "get s = ret (x, s1)" "ok s1" "contents s1 = xs" "cap s1 = cap s" using get_law Suc.prems by blast
  then show ?case using Suc.IH [of s1] Suc.prems c by auto
qed simp

text \<open>Entries come out in the order they went in, after those already queued, and none is lost.\<close>

lemma put_get_order:
  assumes "ok s" "\<forall>x \<in> set xs. elem x" "length (contents s) + length xs \<le> cap s"
  shows "\<exists>s' s''. put_all xs s = ret s' \<and> get_n (length (contents s) + length xs) s' = ret (contents s @ xs, s'') \<and>
    contents s'' = []"
proof -
  obtain s' where s': "put_all xs s = ret s'" "ok s'" "contents s' = contents s @ xs" using put_all_ok [OF assms] by blast
  then obtain s'' where "get_n (length (contents s) + length xs) s' = ret (contents s @ xs, s'')" "contents s'' = []"
    using get_n_ok [OF s'(2), of "length (contents s) + length xs"] by auto
  then show ?thesis using s'(1) by blast
qed

end

end
