(* ===== verification/Wait_Set.thy ===== *)
theory Wait_Set
  imports Scheduler Ring_Buffer
begin

text \<open>
  Wait sets: \<open>kernel/src/ipc/wait_set.rs\<close>. A wait set has up to 16 registered sources and a ring of
  the member numbers that became ready; one thread may be blocked on it. The ready ring is an
  instance of \<open>bounded_fifo\<close>. \<open>pending w\<close>, the tokens of the live ready members in order, is the
  abstract state that notifying and waiting act on.
\<close>

section \<open>The ready ring\<close>

definition WAIT_SET_MAX_MEMBERS :: nat where "WAIT_SET_MAX_MEMBERS = 16"

definition WaitSetState_new :: wait_set_state where
  "WaitSetState_new = \<lparr>members = replicate WAIT_SET_MAX_MEMBERS None, member_count = 0,
     ready_ring = replicate WAIT_SET_MAX_MEMBERS 0, ready_head = 0, ready_tail = 0, ws_waiter = None\<rparr>"

definition has_ready :: "wait_set_state \<Rightarrow> bool" where
  "has_ready w \<longleftrightarrow> ready_head w \<noteq> ready_tail w"

definition push_ready :: "nat \<Rightarrow> wait_set_state \<Rightarrow> wait_set_state run" where
  "push_ready member_idx w =
     (let next = (ready_tail w + 1) mod WAIT_SET_MAX_MEMBERS
      in if next \<noteq> ready_head w
         then (if ready_tail w < length (ready_ring w)
               then ret (w\<lparr>ready_ring := (ready_ring w)[ready_tail w := member_idx], ready_tail := next\<rparr>)
               else panic)
         else ret w)"

definition take_ready :: "wait_set_state \<Rightarrow> (nat \<times> wait_set_state) run" where
  "take_ready w =
     (if ready_head w < length (ready_ring w)
      then ret (ready_ring w ! ready_head w, w\<lparr>ready_head := (ready_head w + 1) mod WAIT_SET_MAX_MEMBERS\<rparr>)
      else panic)"

partial_function (option) pop_ready :: "wait_set_state \<Rightarrow> (u64 option \<times> wait_set_state) run" where
  "pop_ready w =
     (if has_ready w
      then (case take_ready w of
              None \<Rightarrow> None
            | Some (idx, w') \<Rightarrow>
                (if idx < length (members w')
                 then (case members w' ! idx of
                         Some m \<Rightarrow> Some (Some (member_token m), w')
                       | None \<Rightarrow> pop_ready w')
                 else None))
      else Some (None, w))"

section \<open>Operations\<close>

text \<open>Writing the wake-up fields of a blocked thread and handing it to the scheduler.\<close>

definition ready_waiter :: "(tcb \<Rightarrow> tcb) \<Rightarrow> ptr \<Rightarrow> kernel \<Rightarrow> kernel run" where
  "ready_waiter f t k = do {
     k \<leftarrow> upd_tcb t f k;
     x \<leftarrow> tcbs k t;
     target_cpu \<leftarrow> select_target_cpu t k;
     enqueue_and_wake t target_cpu (priority x) k
   }"

definition waitset_notify :: "ptr \<Rightarrow> nat \<Rightarrow> kernel \<Rightarrow> kernel run" where
  "waitset_notify ws member_idx k = do {
     w \<leftarrow> wait_sets k ws;
     (case ws_waiter w of
        None \<Rightarrow> do { w \<leftarrow> push_ready member_idx w; ret (put_wait_set ws w k) }
      | Some t \<Rightarrow>
          if member_idx < length (members w)
          then (let tok = (case members w ! member_idx of None \<Rightarrow> 0 | Some m \<Rightarrow> member_token m)
                in ready_waiter
                  (\<lambda>x. x\<lparr>wakeup_value := tok, state := Ready, ipc_state := IpcNone, blocked_on_object := None\<rparr>) t
                  (put_wait_set ws (w\<lparr>ws_waiter := None\<rparr>) k))
          else panic)
   }"

definition waitset_wait :: "ptr \<Rightarrow> ptr \<Rightarrow> kernel \<Rightarrow> ((unit, u64) result \<times> kernel) run" where
  "waitset_wait ws caller k = do {
     w \<leftarrow> wait_sets k ws;
     (r, w) \<leftarrow> pop_ready w;
     (case r of
        Some tok \<Rightarrow> ret (Inr tok, put_wait_set ws w k)
      | None \<Rightarrow> do {
          k \<leftarrow> upd_tcb caller (\<lambda>x. x\<lparr>context_saved := False, state := Blocked, ipc_state := BlockedOnWaitSet,
                 blocked_on_object := Some ws\<rparr>) (put_wait_set ws (w\<lparr>ws_waiter := Some caller\<rparr>) k);
          ret (Inl (), k)
        })
   }"

definition source_is_ready :: "ptr \<Rightarrow> wait_set_source_tag \<Rightarrow> kernel \<Rightarrow> bool run" where
  "source_is_ready src stag k =
     (case stag of
        SrcEndpoint \<Rightarrow> map_option (\<lambda>e. send_head e \<noteq> None) (endpoints k src)
      | SrcSignal \<Rightarrow> map_option (\<lambda>s. bits s \<noteq> 0) (signals k src)
      | SrcEventQueue \<Rightarrow> map_option (\<lambda>q. eq_count q > 0) (event_queues k src))"

definition waitset_add :: "ptr \<Rightarrow> ptr \<Rightarrow> wait_set_source_tag \<Rightarrow> u64 \<Rightarrow> kernel \<Rightarrow> ((unit, nat) result \<times> kernel) run" where
  "waitset_add ws src stag tok k = do {
     w \<leftarrow> wait_sets k ws;
     (case position (\<lambda>m. m = None) (members w) of
        None \<Rightarrow> ret (Inl (), k)
      | Some idx \<Rightarrow> do {
          let w = w\<lparr>members := (members w)[idx := Some \<lparr>source_ptr = src, source_tag = stag, member_token = tok\<rparr>],
                    member_count := member_count w + 1\<rparr>;
          already_ready \<leftarrow> source_is_ready src stag k;
          if already_ready
          then do {
            w \<leftarrow> push_ready idx w;
            (case ws_waiter w of
               None \<Rightarrow> ret (Inr idx, put_wait_set ws w k)
             | Some t \<Rightarrow> do {
                 k \<leftarrow> ready_waiter (\<lambda>x. x\<lparr>wakeup_value := tok, state := Ready, ipc_state := IpcNone\<rparr>) t
                        (put_wait_set ws (w\<lparr>ws_waiter := None\<rparr>) k);
                 ret (Inr idx, k)
               })
          }
          else ret (Inr idx, put_wait_set ws w k)
        })
   }"

definition waitset_remove :: "ptr \<Rightarrow> ptr \<Rightarrow> kernel \<Rightarrow> ((unit, unit) result \<times> kernel) run" where
  "waitset_remove ws src k = do {
     w \<leftarrow> wait_sets k ws;
     (case position (\<lambda>m. case m of None \<Rightarrow> False | Some m \<Rightarrow> source_ptr m = src) (members w) of
        None \<Rightarrow> ret (Inl (), k)
      | Some idx \<Rightarrow> do {
          n \<leftarrow> usub (member_count w) 1;
          ret (Inr (), put_wait_set ws (w\<lparr>members := (members w)[idx := None], member_count := n\<rparr>) k)
        })
   }"

definition clear_source_backpointer :: "ptr \<Rightarrow> wait_set_source_tag \<Rightarrow> kernel \<Rightarrow> kernel run" where
  "clear_source_backpointer src stag k =
     (case stag of
        SrcEndpoint \<Rightarrow> do { e \<leftarrow> endpoints k src; ret (put_endpoint src (e\<lparr>ep_wait_set := None, ep_member_idx := 0\<rparr>) k) }
      | SrcSignal \<Rightarrow> do {
          s \<leftarrow> signals k src;
          ret (put_signal src (s\<lparr>sig_wait_set := None, sig_member_idx := 0, has_observer := sig_waiter s \<noteq> None\<rparr>) k)
        }
      | SrcEventQueue \<Rightarrow> do { q \<leftarrow> event_queues k src; ret (put_event_queue src (q\<lparr>eq_wait_set := None, eq_member_idx := 0\<rparr>) k) })"

fun clear_members :: "wait_set_member option list \<Rightarrow> kernel \<Rightarrow> kernel run" where
  "clear_members [] k = ret k"
| "clear_members (None # ms) k = clear_members ms k"
| "clear_members (Some m # ms) k = do {
     k \<leftarrow> clear_source_backpointer (source_ptr m) (source_tag m) k;
     clear_members ms k
   }"

definition wait_set_drop :: "ptr \<Rightarrow> kernel \<Rightarrow> kernel run" where
  "wait_set_drop ws k = do {
     w \<leftarrow> wait_sets k ws;
     k \<leftarrow> (case ws_waiter w of
             None \<Rightarrow> ret k
           | Some t \<Rightarrow> ready_waiter (\<lambda>x. x\<lparr>wakeup_value := 0, state := Ready, ipc_state := IpcNone\<rparr>) t
                        (put_wait_set ws (w\<lparr>ws_waiter := None\<rparr>) k));
     k \<leftarrow> clear_members (members w) k;
     w \<leftarrow> wait_sets k ws;
     ret (put_wait_set ws (w\<lparr>members := map (\<lambda>_. None) (members w), member_count := 0\<rparr>) k)
   }"

section \<open>The ready ring is a bounded queue\<close>

definition ready_list :: "wait_set_state \<Rightarrow> nat list" where
  "ready_list w = ring_list (ready_ring w) (ready_head w)
     ((ready_tail w + WAIT_SET_MAX_MEMBERS - ready_head w) mod WAIT_SET_MAX_MEMBERS)"

definition ws_ok :: "wait_set_state \<Rightarrow> bool" where
  "ws_ok w \<longleftrightarrow> length (members w) = WAIT_SET_MAX_MEMBERS \<and> length (ready_ring w) = WAIT_SET_MAX_MEMBERS \<and>
     ready_head w < WAIT_SET_MAX_MEMBERS \<and> ready_tail w < WAIT_SET_MAX_MEMBERS \<and>
     member_count w = length (filter (\<lambda>m. m \<noteq> None) (members w)) \<and>
     (\<forall>i \<in> set (ready_list w). i < WAIT_SET_MAX_MEMBERS)"

lemma ready_len:
  assumes "a < (16 :: nat)" "b < 16"
  shows "(if (b + 1) mod 16 = a then (b + 16 - a) mod 16 = 15
      else (b + 16 - a) mod 16 < 15 \<and> ((b + 1) mod 16 + 16 - a) mod 16 = Suc ((b + 16 - a) mod 16)) \<and>
    (a + (b + 16 - a) mod 16) mod 16 = b \<and>
    (a \<noteq> b \<longrightarrow> 0 < (b + 16 - a) mod 16 \<and> (b + 16 - (a + 1) mod 16) mod 16 = (b + 16 - a) mod 16 - 1)"
proof -
  have m: "(x + 16 - y) mod 16 = (if y \<le> x then x - y else x + 16 - y)" if "x < 16" "y < 16" for x y :: nat
    using that by (auto simp: mod_if)
  have s: "Suc x mod 16 = (if x = 15 then 0 else Suc x)" if "x < 16" for x :: nat using that by auto
  have "(a + (b + 16 - a) mod 16) mod 16 = b" using assms by (simp add: m mod_if)
  then show ?thesis using assms by (auto simp: m s)
qed

lemma ws_okD:
  assumes "ws_ok w"
  shows "length (members w) = 16" "length (ready_ring w) = 16" "ready_head w < 16" "ready_tail w < 16"
    "i \<in> set (ready_list w) \<Longrightarrow> i < 16"
  using assms by (auto simp: ws_ok_def WAIT_SET_MAX_MEMBERS_def)

lemma ready_list_16: "ready_list w = ring_list (ready_ring w) (ready_head w) ((ready_tail w + 16 - ready_head w) mod 16)"
  by (simp add: ready_list_def WAIT_SET_MAX_MEMBERS_def)

lemma push_ready_law:
  assumes ok: "ws_ok w" and i: "i < 16" and len: "length (ready_list w) < 15"
  shows "\<exists>r t. push_ready i w = ret (w\<lparr>ready_ring := r, ready_tail := t\<rparr>) \<and> ws_ok (w\<lparr>ready_ring := r, ready_tail := t\<rparr>) \<and>
    ready_list (w\<lparr>ready_ring := r, ready_tail := t\<rparr>) = ready_list w @ [i]"
proof -
  note D = ws_okD [OF ok]
  note R = ready_len [OF D(3,4)]
  let ?n = "(ready_tail w + 16 - ready_head w) mod 16" and ?t = "(ready_tail w + 1) mod 16"
  let ?w = "w\<lparr>ready_ring := (ready_ring w)[ready_tail w := i], ready_tail := ?t\<rparr>"
  have ne: "?t \<noteq> ready_head w" using R len by (auto simp: ready_list_16)
  then have "push_ready i w = ret ?w" using D by (simp add: push_ready_def WAIT_SET_MAX_MEMBERS_def)
  moreover have n: "(?t + 16 - ready_head w) mod 16 = Suc ?n" "(ready_head w + ?n) mod 16 = ready_tail w" "?n < 16"
    using R ne unfolding if_not_P [OF ne] by simp_all
  have l: "ready_list ?w = ready_list w @ [i]"
    using ring_put [of ?n "ready_ring w" "ready_head w" i] n(1) unfolding ready_list_16 D(2) n(2) by simp
  moreover have "ws_ok ?w" using ok i l by (auto simp: ws_ok_def WAIT_SET_MAX_MEMBERS_def)
  ultimately show ?thesis by blast
qed

lemma push_ready_full:
  assumes "ws_ok w" "\<not> length (ready_list w) < 15"
  shows "push_ready i w = ret w"
proof -
  have "(ready_tail w + 1) mod 16 = ready_head w"
    using ready_len [OF ws_okD(3,4) [OF assms(1)]] assms(2) by (auto simp: ready_list_16 split: if_splits)
  then show ?thesis by (simp add: push_ready_def WAIT_SET_MAX_MEMBERS_def)
qed

lemma ready_list_bound: "ws_ok w \<Longrightarrow> length (ready_list w) \<le> 15"
  by (simp add: ready_list_16)

lemma take_ready_law:
  assumes ok: "ws_ok w" and l: "ready_list w = i # is"
  shows "has_ready w" "\<exists>a. take_ready w = ret (i, w\<lparr>ready_head := a\<rparr>) \<and> ws_ok (w\<lparr>ready_head := a\<rparr>) \<and>
    ready_list (w\<lparr>ready_head := a\<rparr>) = is"
proof -
  note D = ws_okD [OF ok]
  note R = ready_len [OF D(3,4)]
  let ?n = "(ready_tail w + 16 - ready_head w) mod 16" and ?w = "w\<lparr>ready_head := (ready_head w + 1) mod 16\<rparr>"
  have n: "0 < ?n" using l by (auto simp: ready_list_16 intro: gr0I)
  then show h: "has_ready w" using D by (auto simp: has_ready_def)
  have "(ready_tail w + 16 - (ready_head w + 1) mod 16) mod 16 = ?n - 1" using R h unfolding has_ready_def by blast
  then have "ready_list w = ready_ring w ! ready_head w # ready_list ?w"
    using ring_get [OF n, of "ready_ring w" "ready_head w"] D(2,3) by (simp add: ready_list_16)
  then have "ready_ring w ! ready_head w = i" "ready_list ?w = is" using l by auto
  moreover have "ws_ok ?w" using ok l \<open>ready_list ?w = is\<close> by (auto simp: ws_ok_def WAIT_SET_MAX_MEMBERS_def)
  ultimately show "\<exists>a. take_ready w = ret (i, w\<lparr>ready_head := a\<rparr>) \<and> ws_ok (w\<lparr>ready_head := a\<rparr>) \<and> ready_list (w\<lparr>ready_head := a\<rparr>) = is"
    using D(2,3) by (intro exI [of _ "(ready_head w + 1) mod 16"]) (simp add: take_ready_def WAIT_SET_MAX_MEMBERS_def)
qed

lemma no_ready: "ws_ok w \<Longrightarrow> ready_list w = [] \<Longrightarrow> \<not> has_ready w"
  using ready_len [OF ws_okD(3) ws_okD(4), of w w] by (auto simp: has_ready_def ready_list_16 ring_list_def)

interpretation ready: bounded_fifo push_ready take_ready ready_list "\<lambda>_. 15" ws_ok "\<lambda>i. i < 16"
proof unfold_locales
  show "\<exists>w'. push_ready i w = ret w' \<and> ws_ok w' \<and> ready_list w' = ready_list w @ [i] \<and> 15 = (15 :: nat)"
    if "ws_ok w" "i < 16" "length (ready_list w) < 15" for w i using push_ready_law [OF that] by blast
  show "\<exists>w'. take_ready w = ret (i, w') \<and> ws_ok w' \<and> ready_list w' = is \<and> 15 = (15 :: nat)"
    if "ws_ok w" "ready_list w = i # is" for w i "is" using take_ready_law [OF that] by blast
qed (rule ready_list_bound)

section \<open>Pending tokens\<close>

definition member_tokens :: "wait_set_member option list \<Rightarrow> nat list \<Rightarrow> u64 list" where
  "member_tokens ms is = concat (map (\<lambda>i. case ms ! i of None \<Rightarrow> [] | Some m \<Rightarrow> [member_token m]) is)"

definition pending :: "wait_set_state \<Rightarrow> u64 list" where
  "pending w = member_tokens (members w) (ready_list w)"

lemma member_tokens_simps [simp]:
  "member_tokens ms [] = []" "member_tokens ms (is @ js) = member_tokens ms is @ member_tokens ms js"
  "member_tokens ms (i # is) = (case ms ! i of None \<Rightarrow> [] | Some m \<Rightarrow> [member_token m]) @ member_tokens ms is"
  by (simp_all add: member_tokens_def)

lemma pop_ready_spec:
  "ws_ok w \<Longrightarrow> \<exists>a. pop_ready w = ret (case pending w of [] \<Rightarrow> None | t # _ \<Rightarrow> Some t, w\<lparr>ready_head := a\<rparr>) \<and>
    ws_ok (w\<lparr>ready_head := a\<rparr>) \<and> pending (w\<lparr>ready_head := a\<rparr>) = tl (pending w)"
proof (induction "ready_list w" arbitrary: w)
  case Nil
  then have "pop_ready w = ret (None, w)" using no_ready [of w] by (simp add: pop_ready.simps [of w])
  then show ?case using Nil by (auto simp: pending_def intro!: exI [of _ "ready_head w"])
next
  case (Cons i "is")
  obtain a where a: "take_ready w = ret (i, w\<lparr>ready_head := a\<rparr>)" "ws_ok (w\<lparr>ready_head := a\<rparr>)" "ready_list (w\<lparr>ready_head := a\<rparr>) = is"
    using take_ready_law(2) [OF Cons.prems] Cons.hyps(2) by metis
  have i: "i < length (members w)" using ws_okD(1,5) [OF Cons.prems] Cons.hyps(2) by (metis list.set_intros(1))
  note h = take_ready_law(1) [OF Cons.prems Cons.hyps(2) [symmetric]]
  show ?case
  proof (cases "members w ! i")
    case None
    have "pop_ready w = pop_ready (w\<lparr>ready_head := a\<rparr>)" using h a(1) i None by (simp add: pop_ready.simps [of w])
    moreover have "pending (w\<lparr>ready_head := a\<rparr>) = pending w" using a(3) None Cons.hyps(2) [symmetric] by (simp add: pending_def)
    ultimately show ?thesis using Cons.hyps(1) [OF a(3) [symmetric] a(2)] by auto
  next
    case (Some m)
    have "pop_ready w = ret (Some (member_token m), w\<lparr>ready_head := a\<rparr>)" using h a(1) i Some by (simp add: pop_ready.simps [of w])
    moreover have "pending w = member_token m # pending (w\<lparr>ready_head := a\<rparr>)" using a(3) Some Cons.hyps(2) [symmetric] by (simp add: pending_def)
    ultimately show ?thesis using a(2) by auto
  qed
qed

lemma filter_update_count:
  "i < length xs \<Longrightarrow> \<not> P (xs ! i) \<Longrightarrow> P x \<Longrightarrow> length (filter P (xs[i := x])) = Suc (length (filter P xs))"
  by (induction xs arbitrary: i) (auto split: nat.splits)

section \<open>Waking the waiter\<close>

text \<open>A thread whose affinity names a CPU, or that may run on any of the online CPUs.\<close>

definition places :: "kernel \<Rightarrow> tcb \<Rightarrow> bool" where
  "places k x \<longleftrightarrow> (if cpu_affinity x = AFFINITY_ANY then 0 < cpu_count k \<and> cpu_count k \<le> MAX_CPUS
     else cpu_affinity x < MAX_CPUS)"

lemma select_target_cpu_places:
  assumes "tcbs k t = Some x" "places k x"
  shows "\<exists>c < MAX_CPUS. select_target_cpu t k = ret c"
proof (cases "cpu_affinity x = AFFINITY_ANY")
  case True
  then show ?thesis using select_target_cpu_ok [OF assms(1) True] assms(2) by (auto simp: places_def)
next
  case False
  then show ?thesis using assms by (simp add: select_target_cpu_def places_def)
qed

text \<open>A live thread that is in no run queue and that the scheduler can accept.\<close>

definition wakeable :: "kernel \<Rightarrow> (nat \<Rightarrow> nat \<Rightarrow> ptr list) \<Rightarrow> ptr \<Rightarrow> tcb \<Rightarrow> bool" where
  "wakeable k Q t x \<longleftrightarrow> tcbs k t = Some x \<and> t \<notin> queued Q \<and> magic x = TCB_MAGIC \<and>
     priority x < NUM_PRIORITY_LEVELS \<and> places k x"

definition keeps_links :: "(tcb \<Rightarrow> tcb) \<Rightarrow> bool" where
  "keeps_links f \<longleftrightarrow> (\<forall>x. run_queue_next (f x) = run_queue_next x \<and> magic (f x) = magic x \<and> priority (f x) = priority x \<and>
     cpu_affinity (f x) = cpu_affinity x)"

lemma keeps_linksD:
  assumes "keeps_links f"
  shows "run_queue_next (f x) = run_queue_next x" "magic (f x) = magic x" "priority (f x) = priority x"
    "cpu_affinity (f x) = cpu_affinity x"
  using assms by (auto simp: keeps_links_def)

lemma ready_waiter_ok:
  assumes r: "run_queues k Q" and w: "wakeable k Q t x" and f: "keeps_links f"
  shows "\<exists>k' c. ready_waiter f t k = ret k' \<and> c < MAX_CPUS \<and> run_queues k' (Q(c := (Q c)(priority x := Q c (priority x) @ [t]))) \<and>
    woke (k\<lparr>tcbs := (tcbs k)(t \<mapsto> f x)\<rparr>) k'"
proof -
  note x = w [unfolded wakeable_def] and F = keeps_linksD [OF f, of x]
  let ?k = "k\<lparr>tcbs := (tcbs k)(t \<mapsto> f x)\<rparr>"
  have r1: "run_queues ?k Q" by (rule run_queues_tcb [OF r, of t x]) (use x F in auto)
  obtain c where c: "c < MAX_CPUS" "select_target_cpu t ?k = ret c"
    using select_target_cpu_places [of ?k t "f x"] x F(4) by (auto simp: places_def split: if_splits)
  obtain k' where "enqueue_and_wake t c (priority (f x)) ?k = ret k'"
      "run_queues k' (Q(c := (Q c)(priority (f x) := Q c (priority (f x)) @ [t])))" "woke ?k k'"
    using enqueue_and_wake_ok [OF r1 c(1), of "priority (f x)" t "f x"] x F by auto
  then show ?thesis using x c F(3) by (auto simp: ready_waiter_def upd_tcb_def)
qed

section \<open>Notifying and waiting\<close>

lemma run_queues_put [simp]:
  "run_queues (put_wait_set p w k) Q = run_queues k Q" "run_queues (put_endpoint p e k) Q = run_queues k Q"
  "run_queues (put_signal p s k) Q = run_queues k Q" "run_queues (put_event_queue p q k) Q = run_queues k Q"
  by (simp_all add: run_queues_def put_defs)

lemma put_reads [simp]:
  "tcbs (put_wait_set p w k) = tcbs k" "tcbs (put_endpoint p e k) = tcbs k" "tcbs (put_signal p s k) = tcbs k"
  "tcbs (put_event_queue p q k) = tcbs k" "wait_sets (put_wait_set p w k) = (wait_sets k)(p \<mapsto> w)"
  "wait_sets (put_endpoint p e k) = wait_sets k" "wait_sets (put_signal p s k) = wait_sets k"
  "wait_sets (put_event_queue p q k) = wait_sets k" "endpoints (put_endpoint p e k) = (endpoints k)(p \<mapsto> e)"
  "signals (put_signal p s k) = (signals k)(p \<mapsto> s)" "event_queues (put_event_queue p q k) = (event_queues k)(p \<mapsto> q)"
  by (simp_all add: put_defs)

lemma wakeable_put [simp]:
  "wakeable (put_wait_set p w k) Q t x = wakeable k Q t x" "wakeable (put_endpoint p e k) Q t x = wakeable k Q t x"
  "wakeable (put_signal p s k) Q t x = wakeable k Q t x" "wakeable (put_event_queue p q k) Q t x = wakeable k Q t x"
  by (simp_all add: wakeable_def places_def put_defs)

lemma notify_pending:
  assumes "wait_sets k ws = Some w" "ws_ok w" "ws_waiter w = None" "i < 16" "members w ! i = Some m"
  shows "\<exists>w'. waitset_notify ws i k = ret (put_wait_set ws w' k) \<and> ws_ok w' \<and> members w' = members w \<and>
    ws_waiter w' = None \<and>
    pending w' = (if length (ready_list w) < 15 then pending w @ [member_token m] else pending w)"
proof (cases "length (ready_list w) < 15")
  case True
  then show ?thesis using push_ready_law [OF assms(2,4)] assms by (auto simp: waitset_notify_def pending_def)
next
  case False
  then show ?thesis using push_ready_full [OF assms(2)] assms by (intro exI [of _ w]) (simp add: waitset_notify_def)
qed

definition notified :: "u64 \<Rightarrow> tcb \<Rightarrow> tcb" where
  "notified v x = x\<lparr>wakeup_value := v, state := Ready, ipc_state := IpcNone, blocked_on_object := None\<rparr>"

lemma notified_links [simp]: "keeps_links (notified v)"
  by (simp add: keeps_links_def notified_def)

lemma notify_waiter:
  assumes "wait_sets k ws = Some w" "ws_ok w" "ws_waiter w = Some t" "i < 16" "members w ! i = Some m"
    and "run_queues k Q" "wakeable k Q t x"
  shows "\<exists>k' c. waitset_notify ws i k = ret k' \<and> c < MAX_CPUS \<and>
    run_queues k' (Q(c := (Q c)(priority x := Q c (priority x) @ [t]))) \<and>
    woke ((put_wait_set ws (w\<lparr>ws_waiter := None\<rparr>) k)\<lparr>tcbs := (tcbs k)(t \<mapsto> notified (member_token m) x)\<rparr>) k'"
proof -
  have "waitset_notify ws i k = ready_waiter (notified (member_token m)) t (put_wait_set ws (w\<lparr>ws_waiter := None\<rparr>) k)"
    using assms(1,3-5) ws_okD(1) [OF assms(2)] by (simp add: waitset_notify_def notified_def [abs_def])
  then show ?thesis
    using ready_waiter_ok [of "put_wait_set ws (w\<lparr>ws_waiter := None\<rparr>) k" Q t x "notified (member_token m)"] assms(6,7)
    by simp
qed

definition ws_blocked :: "ptr \<Rightarrow> tcb \<Rightarrow> tcb" where
  "ws_blocked ws x = x\<lparr>context_saved := False, state := Blocked, ipc_state := BlockedOnWaitSet, blocked_on_object := Some ws\<rparr>"

lemma wait_takes:
  assumes "wait_sets k ws = Some w" "ws_ok w" "tcbs k t = Some x"
  shows "\<exists>w'. ws_ok w' \<and> members w' = members w \<and> pending w' = tl (pending w) \<and>
    waitset_wait ws t k = ret (if pending w = []
      then (Inl (), (put_wait_set ws (w'\<lparr>ws_waiter := Some t\<rparr>) k)\<lparr>tcbs := (tcbs k)(t \<mapsto> ws_blocked ws x)\<rparr>)
      else (Inr (hd (pending w)), put_wait_set ws w' k)) \<and> ws_waiter w' = ws_waiter w"
proof -
  obtain a where a: "pop_ready w = ret (case pending w of [] \<Rightarrow> None | t # _ \<Rightarrow> Some t, w\<lparr>ready_head := a\<rparr>)"
      "ws_ok (w\<lparr>ready_head := a\<rparr>)" "pending (w\<lparr>ready_head := a\<rparr>) = tl (pending w)"
    using pop_ready_spec [OF assms(2)] by blast
  then show ?thesis
    using assms by (intro exI [of _ "w\<lparr>ready_head := a\<rparr>"])
      (auto simp: waitset_wait_def upd_tcb_def put_wait_set_def ws_blocked_def split: list.splits)
qed

section \<open>An example\<close>

text \<open>Wait set 40 has one member, signal 30, registered with token 77.\<close>

definition demo_wait_set :: wait_set_state where
  "demo_wait_set = WaitSetState_new\<lparr>members := Some \<lparr>source_ptr = 30, source_tag = SrcSignal, member_token = 77\<rparr> #
     replicate 15 None, member_count := 1\<rparr>"

definition demo_ws_kernel :: kernel where
  "demo_ws_kernel = demo_kernel\<lparr>wait_sets := [40 \<mapsto> demo_wait_set],
     signals := [30 \<mapsto> \<lparr>bits = 5, sig_waiter = None, sig_wait_set = Some 40, sig_member_idx = 0, has_observer = True\<rparr>]\<rparr>"

lemma demo_wait_set_ok: "ws_ok demo_wait_set" "pending demo_wait_set = []" "ready_list demo_wait_set = []"
  "ws_waiter demo_wait_set = None"
  "members demo_wait_set ! 0 = Some \<lparr>source_ptr = 30, source_tag = SrcSignal, member_token = 77\<rparr>"
  by (simp_all add: demo_wait_set_def WaitSetState_new_def ws_ok_def pending_def ready_list_def WAIT_SET_MAX_MEMBERS_def)

lemma demo_ws_kernel_queues: "run_queues demo_ws_kernel (\<lambda>c p. [])"
  by (rule run_queues_cong [OF demo_kernel_queues]) (simp_all add: demo_ws_kernel_def)

lemma demo_ws_kernel_reads: "wait_sets demo_ws_kernel 40 = Some demo_wait_set" "p < 8 \<Longrightarrow> tcbs demo_ws_kernel p = Some blank_tcb"
  "source_is_ready 30 SrcSignal demo_ws_kernel = ret True"
  by (simp_all add: demo_ws_kernel_def demo_kernel_tcb source_is_ready_def)

lemma demo_ws_kernel_wakeable: "p < 8 \<Longrightarrow> wakeable demo_ws_kernel (\<lambda>c p. []) p blank_tcb"
  by (simp add: wakeable_def demo_ws_kernel_reads queued_def places_def)
    (simp add: blank_tcb_def NUM_PRIORITY_LEVELS_def PRIORITY_DEFAULT_def demo_ws_kernel_def demo_kernel_def blank_kernel_def MAX_CPUS_def)

section \<open>Properties\<close>



text \<open>(C21) Adding a source that is already ready to a wait set with a blocked thread delivers its token
  twice: the thread is woken with it, and it also stays in the ready ring for the next wait.
  (\<open>waitset_notify\<close> on the same state delivers the token once.)\<close>

theorem waitset_add_delivers_twice:
  assumes "wait_sets k ws = Some w" "ws_ok w" "ws_waiter w = Some t" "length (ready_list w) < 15"
    and "position (\<lambda>m. m = None) (members w) = Some i" "source_is_ready src tg k = ret True"
    and "run_queues k Q" "wakeable k Q t x"
  shows "\<exists>k' w' y. waitset_add ws src tg v k = ret (Inr i, k') \<and> wait_sets k' ws = Some w' \<and>
    tcbs k' t = Some y \<and> state y = Ready \<and> wakeup_value y = v \<and> pending w' = member_tokens (members w') (ready_list w) @ [v]"
proof -
  let ?m = "\<lparr>source_ptr = src, source_tag = tg, member_token = v\<rparr>"
  let ?w = "w\<lparr>members := (members w)[i := Some ?m], member_count := member_count w + 1\<rparr>"
  have i: "i < 16" "members w ! i = None" using assms(5) ws_okD(1) [OF assms(2)] by (auto simp: position_Some)
  have "length (filter (\<lambda>m. m \<noteq> None) ((members w)[i := Some ?m])) = Suc (length (filter (\<lambda>m. m \<noteq> None) (members w)))"
    using i ws_okD(1) [OF assms(2)] by (intro filter_update_count) auto
  then have ok: "ws_ok ?w" using assms(2) by (auto simp: ws_ok_def ready_list_def)
  obtain r t' where p: "push_ready i ?w = ret (?w\<lparr>ready_ring := r, ready_tail := t'\<rparr>)"
      "ready_list (?w\<lparr>ready_ring := r, ready_tail := t'\<rparr>) = ready_list ?w @ [i]"
    using push_ready_law [OF ok i(1)] assms(4) by (auto simp: ready_list_def)
  let ?w' = "?w\<lparr>ready_ring := r, ready_tail := t'\<rparr>\<lparr>ws_waiter := None\<rparr>"
  let ?f = "\<lambda>x. x\<lparr>wakeup_value := v, state := Ready, ipc_state := IpcNone\<rparr>"
  obtain k' where k': "ready_waiter ?f t (put_wait_set ws ?w' k) = ret k'" "woke ((put_wait_set ws ?w' k)\<lparr>tcbs := (tcbs k)(t \<mapsto> ?f x)\<rparr>) k'"
    using ready_waiter_ok [of "put_wait_set ws ?w' k" Q t x ?f] assms(7,8) by (auto simp: keeps_links_def)
  obtain n d where "tcbs k' t = Some (?f x\<lparr>run_queue_next := n, preferred_cpu := d\<rparr>)" using woke_tcb [OF k'(2), of t] by auto
  moreover have "wait_sets k' ws = Some ?w'" using woke_fields [OF k'(2)] by simp
  moreover have "pending ?w' = member_tokens (members ?w') (ready_list w) @ [v]"
    using p(2) i ws_okD(1) [OF assms(2)] by (simp add: pending_def ready_list_def)
  moreover have "waitset_add ws src tg v k = ret (Inr i, k')"
    using assms(1,3,5,6) p(1) k'(1) by (simp add: waitset_add_def)
  ultimately show ?thesis by auto
qed

theorem waitset_add_delivers_twice_witness:
  "\<exists>k1 k' w' y. waitset_wait 40 7 demo_ws_kernel = ret (Inl (), k1) \<and> waitset_add 40 30 SrcSignal 88 k1 = ret (Inr 1, k') \<and>
     wait_sets k' 40 = Some w' \<and> tcbs k' 7 = Some y \<and> wakeup_value y = 88 \<and> pending w' = [88]"
proof -
  let ?w = "demo_wait_set\<lparr>ws_waiter := Some 7\<rparr>"
  let ?k = "(put_wait_set 40 ?w demo_ws_kernel)\<lparr>tcbs := (tcbs demo_ws_kernel)(7 \<mapsto> ws_blocked 40 blank_tcb)\<rparr>"
  have "pop_ready demo_wait_set = ret (None, demo_wait_set)"
    by (simp add: pop_ready.simps [of demo_wait_set] has_ready_def) (simp add: demo_wait_set_def WaitSetState_new_def)
  then have wait: "waitset_wait 40 7 demo_ws_kernel = ret (Inl (), ?k)"
    by (simp add: waitset_wait_def demo_ws_kernel_reads upd_tcb_def ws_blocked_def)
  have l: "ready_list ?w = []" using demo_wait_set_ok(3) by (simp add: ready_list_def)
  have ok: "ws_ok ?w" using demo_wait_set_ok(1) l by (simp add: ws_ok_def)
  have "position (\<lambda>m. m = None) (members ?w) = Some 1" by (simp add: demo_wait_set_def numeral_eq_Suc)
  moreover have "source_is_ready 30 SrcSignal ?k = ret True" using demo_ws_kernel_reads(3) by (simp add: source_is_ready_def put_wait_set_def)
  moreover have "run_queues ?k (\<lambda>c p. [])"
    using run_queues_tcb [of "put_wait_set 40 ?w demo_ws_kernel" _ 7 blank_tcb "ws_blocked 40 blank_tcb"] demo_ws_kernel_queues
    by (simp add: ws_blocked_def demo_ws_kernel_reads)
  moreover have "wakeable ?k (\<lambda>c p. []) 7 (ws_blocked 40 blank_tcb)"
    using demo_ws_kernel_wakeable [of 7] by (simp add: wakeable_def places_def ws_blocked_def put_wait_set_def)
  ultimately show ?thesis
    using waitset_add_delivers_twice [of ?k 40 ?w 7 1 30 SrcSignal "\<lambda>c p. []" "ws_blocked 40 blank_tcb" 88] ok l wait by auto
qed

end
