(* ===== verification/Signal.thy ===== *)
theory Signal
  imports Wait_Set
begin

unbundle bit_operations_syntax

text \<open>
  Signals: \<open>kernel/src/ipc/signal.rs\<close>. The first part models \<open>signal_send\<close> and \<open>signal_wait\<close> as calls
  that run undisturbed. The second part splits them into the atomic steps of any number of senders
  and one waiter, because \<open>signal_send\<close> skips the lock when \<open>has_observer\<close> is clear: the relation
  \<open>sig_step\<close> interleaves the steps in every order. The values that the waits return are those of an atomic
  signal, and a waiter cannot stay asleep while bits are pending; but it can be wake_value with no bits.
  \<open>send_is_run\<close> and \<open>wait_is_run\<close> tie the two parts together.
\<close>

section \<open>Operations\<close>

definition SignalState_new :: signal_state where
  "SignalState_new = \<lparr>bits = 0, sig_waiter = None, sig_wait_set = None, sig_member_idx = 0, has_observer = False\<rparr>"

definition signal_send :: "ptr \<Rightarrow> u64 \<Rightarrow> kernel \<Rightarrow> (ptr option \<times> kernel) run" where
  "signal_send sig b k = do {
     s \<leftarrow> signals k sig;
     let s = s\<lparr>bits := bits s OR b\<rparr>;
     if \<not> has_observer s then ret (None, put_signal sig s k)
     else (case sig_waiter s of
        Some t \<Rightarrow> do {
          x \<leftarrow> tcbs k t;
          if magic x \<noteq> TCB_MAGIC \<or> state x \<noteq> Blocked then panic
          else ret (Some t,
            (put_signal sig (s\<lparr>bits := 0, sig_waiter := None, has_observer := sig_wait_set s \<noteq> None\<rparr>) k)
              \<lparr>tcbs := (tcbs k)(t \<mapsto> x\<lparr>wakeup_value := bits s, state := Ready, ipc_state := IpcNone,
                                        blocked_on_object := None\<rparr>)\<rparr>)
        }
      | None \<Rightarrow> (case sig_wait_set s of
          Some ws \<Rightarrow> do { k \<leftarrow> waitset_notify ws (sig_member_idx s) (put_signal sig s k); ret (None, k) }
        | None \<Rightarrow> ret (None, put_signal sig s k)))
   }"

definition signal_wait :: "ptr \<Rightarrow> ptr \<Rightarrow> kernel \<Rightarrow> ((unit, u64) result \<times> kernel) run" where
  "signal_wait sig caller k = do {
     s \<leftarrow> signals k sig;
     k \<leftarrow> upd_tcb caller (\<lambda>x. x\<lparr>context_saved := False\<rparr>) k;
     let s = s\<lparr>sig_waiter := Some caller, has_observer := True\<rparr>;
     let b = bits s;
     let s = s\<lparr>bits := 0\<rparr>;
     if b \<noteq> 0
     then do {
       k \<leftarrow> upd_tcb caller (\<lambda>x. x\<lparr>context_saved := True\<rparr>)
              (put_signal sig (s\<lparr>sig_waiter := None, has_observer := sig_wait_set s \<noteq> None\<rparr>) k);
       ret (Inr b, k)
     }
     else do {
       k \<leftarrow> upd_tcb caller (\<lambda>x. x\<lparr>state := Blocked, ipc_state := BlockedOnSignal, blocked_on_object := Some sig\<rparr>)
              (put_signal sig s k);
       ret (Inl (), k)
     }
   }"

section \<open>Invariant and behaviour\<close>

text \<open>The flag that \<open>signal_send\<close> reads without the lock says whether anybody observes the signal; a
  blocked waiter has no pending bits.\<close>

definition sig_ok :: "signal_state \<Rightarrow> bool" where
  "sig_ok s \<longleftrightarrow> (has_observer s \<longleftrightarrow> sig_waiter s \<noteq> None \<or> sig_wait_set s \<noteq> None) \<and> (sig_waiter s \<noteq> None \<longrightarrow> bits s = 0)"

lemma SignalState_new_ok: "sig_ok SignalState_new" "bits SignalState_new = 0" "sig_waiter SignalState_new = None"
  "sig_wait_set SignalState_new = None"
  by (simp_all add: sig_ok_def SignalState_new_def)

lemma send_plain:
  assumes "signals k sig = Some s" "sig_ok s" "sig_waiter s = None" "sig_wait_set s = None"
  shows "signal_send sig b k = ret (None, put_signal sig (s\<lparr>bits := bits s OR b\<rparr>) k)" "sig_ok (s\<lparr>bits := bits s OR b\<rparr>)"
  using assms by (simp_all add: signal_send_def sig_ok_def)

lemma send_waiter:
  assumes "signals k sig = Some s" "sig_ok s" "sig_waiter s = Some t" "tcbs k t = Some x" "magic x = TCB_MAGIC" "state x = Blocked"
  shows "signal_send sig b k = ret (Some t,
      (put_signal sig (s\<lparr>bits := 0, sig_waiter := None, has_observer := sig_wait_set s \<noteq> None\<rparr>) k)
        \<lparr>tcbs := (tcbs k)(t \<mapsto> notified b x)\<rparr>)"
    and "sig_ok (s\<lparr>bits := 0, sig_waiter := None, has_observer := sig_wait_set s \<noteq> None\<rparr>)"
  using assms by (simp_all add: signal_send_def sig_ok_def notified_def)

definition sig_blocked :: "ptr \<Rightarrow> tcb \<Rightarrow> tcb" where
  "sig_blocked sig x = x\<lparr>context_saved := False, state := Blocked, ipc_state := BlockedOnSignal, blocked_on_object := Some sig\<rparr>"

lemma wait_blocks:
  assumes "signals k sig = Some s" "bits s = 0" "tcbs k t = Some x"
  shows "signal_wait sig t k = ret (Inl (),
    (put_signal sig (s\<lparr>sig_waiter := Some t, has_observer := True\<rparr>) k)\<lparr>tcbs := (tcbs k)(t \<mapsto> sig_blocked sig x)\<rparr>)"
  using assms by (cases s) (simp add: signal_wait_def upd_tcb_def put_signal_def sig_blocked_def)

lemma wait_takes_bits:
  assumes "signals k sig = Some s" "bits s \<noteq> 0" "tcbs k t = Some x"
  shows "signal_wait sig t k = ret (Inr (bits s),
    (put_signal sig (s\<lparr>bits := 0, sig_waiter := None, has_observer := sig_wait_set s \<noteq> None\<rparr>) k)
      \<lparr>tcbs := (tcbs k)(t \<mapsto> x\<lparr>context_saved := True\<rparr>)\<rparr>)"
  using assms by (cases s) (simp add: signal_wait_def upd_tcb_def put_signal_def)

text \<open>Several sends in a row.\<close>

fun send_all :: "ptr \<Rightarrow> u64 list \<Rightarrow> kernel \<Rightarrow> kernel run" where
  "send_all sig [] k = ret k"
| "send_all sig (b # bs) k = do { (r, k) \<leftarrow> signal_send sig b k; if r = None then send_all sig bs k else panic }"

lemma send_all_ok:
  "signals k sig = Some s \<Longrightarrow> sig_ok s \<Longrightarrow> sig_waiter s = None \<Longrightarrow> sig_wait_set s = None \<Longrightarrow>
    send_all sig bs k = ret (put_signal sig (s\<lparr>bits := foldl (OR) (bits s) bs\<rparr>) k)"
proof (induction bs arbitrary: k s)
  case Nil
  then show ?case by (cases k) (auto simp: put_signal_def)
next
  case (Cons b bs)
  show ?case
    using send_plain [OF Cons.prems, of b] Cons.IH [of "put_signal sig (s\<lparr>bits := bits s OR b\<rparr>) k" "s\<lparr>bits := bits s OR b\<rparr>"] Cons.prems
    by (simp add: put_signal_def)
qed

section \<open>Interleaving of senders and a waiter\<close>

text \<open>The atomic steps of the two functions. A sender has stored its bits (\<open>Sent\<close>), has seen
  \<open>has_observer\<close> set and is about to take the lock (\<open>Slow\<close>), holds it (\<open>Holds\<close>), or has swapped the
  bits out for the waiter (\<open>Swapped\<close>). The waiter holds the lock (\<open>WHolds\<close>), has registered
  (\<open>Registered\<close>), has harvested bits (\<open>Harvested\<close>) or found none (\<open>Empty\<close>), is \<open>Asleep\<close>, or runs
  again (\<open>Awake\<close>, with the bits it was given). The fences of the two functions order each
  access of the flag against the access of the bits, so the steps are those of an interleaving.
  The machine has any number of senders and one waiting thread; it has no step for the notification of a
  wait set (a sender that finds no waiter just unlocks), and none that cancels a wait or frees the signal.\<close>

datatype sender_pc = SIdle | Sent | Slow | Holds | Swapped u64

datatype waiter_pc = Awake u64 | WHolds | Registered | Harvested u64 | Empty | Asleep

datatype lock_owner = Free | ByWaiter | BySender nat

record sig_conc =
  c_bits :: u64
  c_observer :: bool
  c_waiter :: bool
  c_wait_set :: bool
  c_lock :: lock_owner
  senders :: "nat \<Rightarrow> sender_pc"
  waiter :: waiter_pc

text \<open>What a step shows: bits are stored, the pending bits are taken, or a wait ends with a value.\<close>

datatype sig_event = Sends u64 | Takes | Wakes u64 | Tau

inductive sig_step :: "sig_conc \<Rightarrow> sig_event \<Rightarrow> sig_conc \<Rightarrow> bool" where
  send_or: "senders c i = SIdle \<Longrightarrow>
    sig_step c (Sends b) (c\<lparr>c_bits := c_bits c OR b, senders := (senders c)(i := Sent)\<rparr>)"
| send_fast: "senders c i = Sent \<Longrightarrow> \<not> c_observer c \<Longrightarrow> sig_step c Tau (c\<lparr>senders := (senders c)(i := SIdle)\<rparr>)"
| send_slow: "senders c i = Sent \<Longrightarrow> c_observer c \<Longrightarrow> sig_step c Tau (c\<lparr>senders := (senders c)(i := Slow)\<rparr>)"
| send_lock: "senders c i = Slow \<Longrightarrow> c_lock c = Free \<Longrightarrow>
    sig_step c Tau (c\<lparr>c_lock := BySender i, senders := (senders c)(i := Holds)\<rparr>)"
| send_swap: "senders c i = Holds \<Longrightarrow> c_waiter c \<Longrightarrow>
    sig_step c Takes (c\<lparr>c_bits := 0, senders := (senders c)(i := Swapped (c_bits c))\<rparr>)"
| send_wake: "senders c i = Swapped d \<Longrightarrow>
    sig_step c (Wakes d) (c\<lparr>c_waiter := False, c_observer := c_wait_set c, c_lock := Free, waiter := Awake d,
                  senders := (senders c)(i := SIdle)\<rparr>)"
| send_nobody: "senders c i = Holds \<Longrightarrow> \<not> c_waiter c \<Longrightarrow>
    sig_step c Tau (c\<lparr>c_lock := Free, senders := (senders c)(i := SIdle)\<rparr>)"
| wait_lock: "waiter c = Awake d \<Longrightarrow> c_lock c = Free \<Longrightarrow> sig_step c Tau (c\<lparr>c_lock := ByWaiter, waiter := WHolds\<rparr>)"
| wait_register: "waiter c = WHolds \<Longrightarrow>
    sig_step c Tau (c\<lparr>c_waiter := True, c_observer := True, waiter := Registered\<rparr>)"
| wait_harvest: "waiter c = Registered \<Longrightarrow> c_bits c \<noteq> 0 \<Longrightarrow>
    sig_step c Takes (c\<lparr>c_bits := 0, waiter := Harvested (c_bits c)\<rparr>)"
| wait_undo: "waiter c = Harvested d \<Longrightarrow>
    sig_step c (Wakes d) (c\<lparr>c_waiter := False, c_observer := c_wait_set c, c_lock := Free, waiter := Awake d\<rparr>)"
| wait_none: "waiter c = Registered \<Longrightarrow> c_bits c = 0 \<Longrightarrow> sig_step c Tau (c\<lparr>waiter := Empty\<rparr>)"
| wait_block: "waiter c = Empty \<Longrightarrow> sig_step c Tau (c\<lparr>c_lock := Free, waiter := Asleep\<rparr>)"

inductive sig_run :: "sig_conc \<Rightarrow> sig_event list \<Rightarrow> sig_conc \<Rightarrow> bool" where
  run_nil: "sig_run c [] c"
| run_snoc: "sig_run c es c1 \<Longrightarrow> sig_step c1 e c2 \<Longrightarrow> sig_run c (es @ [e]) c2"

definition sig_start :: "bool \<Rightarrow> sig_conc" where
  "sig_start ws = \<lparr>c_bits = 0, c_observer = ws, c_waiter = False, c_wait_set = ws, c_lock = Free,
     senders = (\<lambda>_. SIdle), waiter = Awake 0\<rparr>"

fun holding :: "sender_pc \<Rightarrow> bool" where
  "holding Holds = True" | "holding (Swapped d) = True" | "holding p = False"

fun owns_lock :: "waiter_pc \<Rightarrow> bool" where
  "owns_lock (Awake d) = False" | "owns_lock Asleep = False" | "owns_lock p = True"

fun registered_pc :: "waiter_pc \<Rightarrow> bool" where
  "registered_pc (Awake d) = False" | "registered_pc WHolds = False" | "registered_pc p = True"

fun parked :: "waiter_pc \<Rightarrow> bool" where
  "parked Empty = True" | "parked Asleep = True" | "parked p = False"

lemma parked_registered: "parked p \<Longrightarrow> registered_pc p"
  by (cases p) simp_all

lemma asleep_iff: "registered_pc p \<Longrightarrow> \<not> owns_lock p \<Longrightarrow> p = Asleep"
  by (cases p) simp_all

text \<open>The lock has one owner; the registered waiter is the one that is registering or asleep; and while
  it is parked the flag is set and pending bits have a sender that is still active.\<close>

definition sig_inv :: "sig_conc \<Rightarrow> bool" where
  "sig_inv c \<longleftrightarrow>
     (\<forall>i. holding (senders c i) \<longleftrightarrow> c_lock c = BySender i) \<and>
     (c_lock c = ByWaiter \<longleftrightarrow> owns_lock (waiter c)) \<and>
     (c_waiter c \<longleftrightarrow> registered_pc (waiter c)) \<and> (c_waiter c \<longrightarrow> c_observer c) \<and>
     (\<forall>i d. senders c i = Swapped d \<longrightarrow> waiter c = Asleep) \<and>
     (parked (waiter c) \<longrightarrow> c_bits c \<noteq> 0 \<longrightarrow> (\<exists>i. senders c i \<noteq> SIdle))"

lemma sig_inv_start: "sig_inv (sig_start ws)"
  by (simp add: sig_inv_def sig_start_def)

lemma sig_invD:
  assumes "sig_inv c"
  shows "holding (senders c i) \<longleftrightarrow> c_lock c = BySender i" "c_lock c = ByWaiter \<longleftrightarrow> owns_lock (waiter c)"
    "c_waiter c \<longleftrightarrow> registered_pc (waiter c)" "c_waiter c \<Longrightarrow> c_observer c" "senders c i = Swapped d \<Longrightarrow> waiter c = Asleep"
    "parked (waiter c) \<Longrightarrow> c_bits c \<noteq> 0 \<Longrightarrow> \<exists>i. senders c i \<noteq> SIdle"
  using assms unfolding sig_inv_def by blast+

text \<open>What a step of sender \<open>i\<close> that does not touch the waiter must establish.\<close>

lemma sig_inv_sender:
  assumes inv: "sig_inv c" and l: "\<And>j. j \<noteq> i \<Longrightarrow> (l = BySender j \<longleftrightarrow> c_lock c = BySender j)"
    and "l = ByWaiter \<longleftrightarrow> c_lock c = ByWaiter" "holding p \<longleftrightarrow> l = BySender i"
    and "\<And>d. p = Swapped d \<Longrightarrow> waiter c = Asleep" "parked (waiter c) \<Longrightarrow> p \<noteq> SIdle"
  shows "sig_inv (c\<lparr>c_bits := b, c_lock := l, senders := (senders c)(i := p)\<rparr>)"
proof -
  note D = sig_invD [OF inv]
  have "\<forall>j. holding (((senders c)(i := p)) j) \<longleftrightarrow> l = BySender j" using assms(2,4) D(1) by simp
  moreover have "\<forall>j d. ((senders c)(i := p)) j = Swapped d \<longrightarrow> waiter c = Asleep" using assms(5) D(5) by (metis fun_upd_apply)
  moreover have "parked (waiter c) \<longrightarrow> (\<exists>j. ((senders c)(i := p)) j \<noteq> SIdle)" using assms(6) by (metis fun_upd_same)
  ultimately show ?thesis using assms(3) D(2,3,4) unfolding sig_inv_def by simp
qed

text \<open>What a state without a lock-holding sender must satisfy.\<close>

lemma sig_inv_no_holder:
  assumes no: "\<forall>j. \<not> holding (senders c j)" and l: "c_lock c = (if owns_lock (waiter c) then ByWaiter else Free)"
    and w: "c_waiter c \<longleftrightarrow> registered_pc (waiter c)" "c_waiter c \<longrightarrow> c_observer c" 
    and b: "parked (waiter c) \<longrightarrow> c_bits c \<noteq> 0 \<longrightarrow> (\<exists>i. senders c i \<noteq> SIdle)"
  shows "sig_inv c"
proof -
  have "senders c j \<noteq> Swapped d" for j d using no by (metis holding.simps(2))
  moreover have "c_lock c \<noteq> BySender j" for j using l by simp
  ultimately show ?thesis using no l w b unfolding sig_inv_def by simp
qed

lemma sig_inv_step:
  assumes st: "sig_step c e c'" and inv: "sig_inv c"
  shows "sig_inv c'"
proof -
  note D = sig_invD [OF inv]
  have owner: "c_lock c = BySender i" if "holding (senders c i)" for i using D(1) that by blast
  have free: "\<not> holding (senders c j)" if "c_lock c = ByWaiter \<or> c_lock c = Free" for j using that D(1) [of j] by auto
  from st show ?thesis
  proof (cases rule: sig_step.cases)
    case (send_or i b)
    then show ?thesis using sig_inv_sender [OF inv, of i "c_lock c" Sent "c_bits c OR b"] D(1) [of i] by simp
  next
    case (send_fast i)
    have "\<not> parked (waiter c)" using D(3,4) send_fast(4) parked_registered by blast
    then show ?thesis using sig_inv_sender [OF inv, of i "c_lock c" SIdle "c_bits c"] D(1) [of i] send_fast by simp
  next
    case (send_slow i)
    then show ?thesis using sig_inv_sender [OF inv, of i "c_lock c" Slow "c_bits c"] D(1) [of i] by simp
  next
    case (send_lock i)
    then show ?thesis using sig_inv_sender [OF inv, of i "BySender i" Holds "c_bits c"] by simp
  next
    case (send_swap i)
    then have l: "c_lock c = BySender i" using owner [of i] by simp
    have "waiter c = Asleep" by (rule asleep_iff) (use D(2,3) l send_swap in simp_all)
    then have "sig_inv (c\<lparr>c_bits := 0, c_lock := c_lock c, senders := (senders c)(i := Swapped (c_bits c))\<rparr>)"
      by (intro sig_inv_sender [OF inv]) (simp_all add: l)
    then show ?thesis using send_swap(2) by simp
  next
    case (send_wake i d)
    then have l: "c_lock c = BySender i" using owner [of i] by simp
    then have "\<forall>j. \<not> holding (((senders c)(i := SIdle)) j)" using D(1) by simp
    then show ?thesis unfolding send_wake(2) by (intro sig_inv_no_holder) simp_all
  next
    case (send_nobody i)
    then have l: "c_lock c = BySender i" using owner [of i] by simp
    have "\<not> parked (waiter c)" using D(3) send_nobody(4) parked_registered by blast
    then show ?thesis using sig_inv_sender [OF inv, of i Free SIdle "c_bits c"] send_nobody l by simp
  next
    case (wait_lock d)
    then show ?thesis using free D(3) by (intro sig_inv_no_holder) simp_all
  next
    case wait_register
    then show ?thesis using free D(2) by (intro sig_inv_no_holder) simp_all
  next
    case wait_harvest
    then show ?thesis using free D(2,3,4) by (intro sig_inv_no_holder) simp_all
  next
    case (wait_undo d)
    then show ?thesis using free D(2) by (intro sig_inv_no_holder) simp_all
  next
    case wait_none
    then show ?thesis using free D(2,3,4) by (intro sig_inv_no_holder) simp_all
  next
    case wait_block
    then show ?thesis using free D(2,3,4,6) by (intro sig_inv_no_holder) simp_all
  qed
qed

lemma sig_inv_run: "sig_run c es c' \<Longrightarrow> sig_inv c \<Longrightarrow> sig_inv c'"
  by (induction rule: sig_run.induct) (assumption, blast intro: sig_inv_step)

subsection \<open>The values that waits return\<close>

text \<open>The atomic signal: sends accumulate, a take clears the accumulated bits and yields them.\<close>

fun atomic_signal :: "u64 \<times> u64 list \<Rightarrow> sig_event \<Rightarrow> u64 \<times> u64 list" where
  "atomic_signal (p, ds) (Sends b) = (p OR b, ds)"
| "atomic_signal (p, ds) Takes = (0, ds @ [p])"
| "atomic_signal (p, ds) e = (p, ds)"

fun wake_value :: "sig_event \<Rightarrow> u64 list" where
  "wake_value (Wakes d) = [d]" | "wake_value e = []"

fun swapped :: "sender_pc \<Rightarrow> u64 list" where
  "swapped (Swapped d) = [d]" | "swapped p = []"

fun harvested :: "waiter_pc \<Rightarrow> u64 list" where
  "harvested (Harvested d) = [d]" | "harvested p = []"

text \<open>The value that has been taken and not yet handed to the waiter: only the owner of the lock has one.\<close>

definition in_flight :: "sig_conc \<Rightarrow> u64 list" where
  "in_flight c = (case c_lock c of Free \<Rightarrow> [] | ByWaiter \<Rightarrow> harvested (waiter c) | BySender i \<Rightarrow> swapped (senders c i))"

definition sig_accounts :: "sig_event list \<Rightarrow> sig_conc \<Rightarrow> bool" where
  "sig_accounts es c \<longleftrightarrow> foldl atomic_signal (0, []) es = (c_bits c, concat (map wake_value es) @ in_flight c)"

lemma sig_accounts_step:
  assumes st: "sig_step c e c'" and inv: "sig_inv c" and acc: "sig_accounts es c"
  shows "sig_accounts (es @ [e]) c'"
proof -
  note D = sig_invD [OF inv]
  have f: "foldl atomic_signal (0, []) es = (c_bits c, concat (map wake_value es) @ in_flight c)"
    using acc by (simp add: sig_accounts_def)
  have owner: "c_lock c = BySender i" if "holding (senders c i)" for i using D(1) that by blast
  have other: "c_lock c \<noteq> BySender i" if "\<not> holding (senders c i)" for i using D(1) that by blast
  have mine: "c_lock c = ByWaiter" if "owns_lock (waiter c)" using D(2) that by blast
  from st show ?thesis
  proof (cases rule: sig_step.cases)
    case (send_or i b)
    then show ?thesis using f other [of i] by (auto simp: sig_accounts_def in_flight_def split: lock_owner.splits)
  next
    case (send_fast i)
    then show ?thesis using f other [of i] by (auto simp: sig_accounts_def in_flight_def split: lock_owner.splits)
  next
    case (send_slow i)
    then show ?thesis using f other [of i] by (auto simp: sig_accounts_def in_flight_def split: lock_owner.splits)
  next
    case (send_swap i)
    then show ?thesis using f owner [of i] by (simp add: sig_accounts_def in_flight_def)
  next
    case (send_wake i d)
    then show ?thesis using f owner [of i] by (simp add: sig_accounts_def in_flight_def)
  next
    case (send_nobody i)
    then show ?thesis using f owner [of i] by (simp add: sig_accounts_def in_flight_def)
  qed (use f mine in \<open>simp_all add: sig_accounts_def in_flight_def\<close>)
qed

lemma sig_accounts_run: "sig_run (sig_start ws) es c \<Longrightarrow> sig_inv c \<and> sig_accounts es c"
proof (induction "sig_start ws" es c rule: sig_run.induct)
  case run_nil
  have "sig_accounts [] (sig_start ws)" by (simp add: sig_accounts_def in_flight_def sig_start_def)
  then show ?case using sig_inv_start by blast
next
  case (run_snoc es c1 e c2)
  then show ?case using sig_inv_step sig_accounts_step by blast
qed

subsection \<open>Every maximal run wakes the waiter\<close>

text \<open>How many steps an active sender has left at most; while the waiter sleeps, every step that is not
  a new send brings some sender closer to its end.\<close>

fun steps_left :: "sender_pc \<Rightarrow> nat" where
  "steps_left SIdle = 0" | "steps_left Sent = 4" | "steps_left Slow = 3"
| "steps_left Holds = 2" | "steps_left (Swapped d) = 1"

definition busy :: "sig_conc \<Rightarrow> nat set" where
  "busy c = {i. senders c i \<noteq> SIdle}"

definition work_left :: "sig_conc \<Rightarrow> nat" where
  "work_left c = (\<Sum>i\<in>busy c. steps_left (senders c i))"

fun is_send :: "sig_event \<Rightarrow> bool" where
  "is_send (Sends b) = True" | "is_send e = False"

fun is_wake :: "sig_event \<Rightarrow> bool" where
  "is_wake (Wakes d) = True" | "is_wake e = False"

lemma one_sender_moves: "sig_step c e c' \<Longrightarrow> \<exists>i p. senders c' = (senders c)(i := p)"
proof (cases "senders c' = senders c")
  case True
  then show ?thesis by (metis fun_upd_triv)
next
  case False
  assume "sig_step c e c'"
  then show ?thesis by (rule sig_step.cases) (use False in auto)
qed

lemma busy_step: "sig_step c e c' \<Longrightarrow> finite (busy c) \<Longrightarrow> finite (busy c')"
proof (drule one_sender_moves, elim exE)
  fix i p assume "finite (busy c)" "senders c' = (senders c)(i := p)"
  then show "finite (busy c')" by (intro finite_subset [of "busy c'" "insert i (busy c)"]) (auto simp: busy_def)
qed

lemma busy_run: "sig_run c es c' \<Longrightarrow> finite (busy c) \<Longrightarrow> finite (busy c')"
  by (induction rule: sig_run.induct) (assumption, blast intro: busy_step)

lemma work_less:
  assumes fin: "finite (busy c)" and s: "senders c' = (senders c)(i := p)" and less: "steps_left p < steps_left (senders c i)"
  shows "work_left c' < work_left c"
proof -
  let ?w = "\<lambda>c. \<Sum>j\<in>busy c. steps_left (senders c j)"
  have i: "i \<in> busy c" using less by (cases "senders c i") (simp_all add: busy_def)
  have "busy c' \<subseteq> busy c" using s i by (auto simp: busy_def)
  then have "?w c' = (\<Sum>j\<in>busy c. steps_left (senders c' j))"
    by (intro sum.mono_neutral_left fin) (auto simp: busy_def)
  also have "\<dots> < ?w c" by (rule sum_strict_mono_ex1 [OF fin]) (use i s less in auto)
  finally show ?thesis by (simp add: work_left_def)
qed

lemma asleep_step:
  assumes "sig_step c e c'" "waiter c = Asleep" "\<not> is_send e" "finite (busy c)"
  shows "work_left c' < work_left c \<and> (is_wake e \<or> waiter c' = Asleep)"
  using assms(1)
proof (cases rule: sig_step.cases)
  case (send_fast i)
  then show ?thesis using work_less [OF assms(4), of c' i SIdle] assms(2) by simp
next
  case (send_slow i)
  then show ?thesis using work_less [OF assms(4), of c' i Slow] assms(2) by simp
next
  case (send_lock i)
  then show ?thesis using work_less [OF assms(4), of c' i Holds] assms(2) by simp
next
  case (send_swap i)
  then show ?thesis using work_less [OF assms(4), of c' i "Swapped (c_bits c)"] assms(2) by simp
next
  case (send_wake i d)
  then show ?thesis using work_less [OF assms(4), of c' i SIdle] by simp
next
  case (send_nobody i)
  then show ?thesis using work_less [OF assms(4), of c' i SIdle] assms(2) by simp
qed (use assms in simp_all)

text \<open>A sleeping waiter does not hold the lock, so some busy sender can always take a step.\<close>

lemma movesI: "sig_step c e c' \<Longrightarrow> \<not> is_send e \<Longrightarrow> \<exists>e c'. sig_step c e c' \<and> \<not> is_send e"
  by blast

lemma holder_moves:
  assumes "c_waiter c" "holding (senders c i)"
  shows "\<exists>e c'. sig_step c e c' \<and> \<not> is_send e"
proof (cases "senders c i")
  case Holds
  then show ?thesis using movesI [OF send_swap [OF Holds assms(1)]] by simp
next
  case (Swapped d)
  then show ?thesis using movesI [OF send_wake [OF Swapped]] by simp
qed (use assms in simp_all)

lemma busy_moves:
  assumes inv: "sig_inv c" and a: "waiter c = Asleep" and b: "senders c i \<noteq> SIdle"
  shows "\<exists>e c'. sig_step c e c' \<and> \<not> is_send e"
proof -
  note D = sig_invD [OF inv]
  have w: "c_waiter c" "c_observer c" using D(3,4) a by simp_all
  show ?thesis
  proof (cases "senders c i")
    case Sent
    then show ?thesis using movesI [OF send_slow [OF Sent w(2)]] by simp
  next
    case Slow
    show ?thesis
    proof (cases "c_lock c")
      case Free
      then show ?thesis using movesI [OF send_lock [OF Slow]] by simp
    next
      case (BySender j)
      then show ?thesis using holder_moves [OF w(1)] D(1) by blast
    qed (use D(2) a in simp)
  qed (use b holder_moves [OF w(1), of i] in simp_all)
qed

text \<open>As long as the waiter sleeps after a state with pending bits, there is a busy sender.\<close>

definition will_wake :: "sig_conc \<Rightarrow> bool" where
  "will_wake c \<longleftrightarrow> sig_inv c \<and> waiter c = Asleep \<and> finite (busy c) \<and> busy c \<noteq> {}"

lemma will_wake_moves: "will_wake c \<Longrightarrow> \<exists>e c'. sig_step c e c' \<and> \<not> is_send e"
  unfolding will_wake_def busy_def using busy_moves by blast

lemma will_wake_step:
  assumes "sig_step c e c'" "will_wake c" "\<not> is_send e" "\<not> is_wake e"
  shows "will_wake c' \<and> work_left c' < work_left c"
proof -
  have inv: "sig_inv c" and a: "waiter c = Asleep" and f: "finite (busy c)" using assms(2) by (simp_all add: will_wake_def)
  have "busy c' \<noteq> {}" using assms(1)
  proof (cases rule: sig_step.cases)
    case (send_fast i)
    then show ?thesis using sig_invD(3,4) [OF inv] a by simp
  next
    case (send_nobody i)
    then show ?thesis using sig_invD(3) [OF inv] a by simp
  qed (use assms(3,4) a in \<open>auto simp: busy_def\<close>)
  then show ?thesis
    using asleep_step [OF assms(1) a assms(3) f] assms(4) sig_inv_step [OF assms(1) inv] busy_step [OF assms(1) f]
    by (simp add: will_wake_def)
qed

lemma will_wake_run:
  assumes "sig_run c es c'" "will_wake c" "\<forall>e\<in>set es. \<not> is_send e \<and> \<not> is_wake e"
  shows "will_wake c' \<and> length es + work_left c' \<le> work_left c"
  using assms
proof (induction rule: sig_run.induct)
  case (run_snoc c es c1 e c2)
  then have "will_wake c1" "length es + work_left c1 \<le> work_left c" by simp_all
  then show ?case using will_wake_step [OF run_snoc(2)] run_snoc(5) by fastforce
qed simp

subsection \<open>Undisturbed calls are uninterrupted runs\<close>

definition conc_of :: "signal_state \<Rightarrow> waiter_pc \<Rightarrow> sig_conc" where
  "conc_of s p = \<lparr>c_bits = bits s, c_observer = has_observer s, c_waiter = sig_waiter s \<noteq> None,
     c_wait_set = sig_wait_set s \<noteq> None, c_lock = Free, senders = (\<lambda>_. SIdle), waiter = p\<rparr>"

lemma run_step: "sig_run c es c1 \<Longrightarrow> sig_step c1 e c2 \<Longrightarrow> c2 = c3 \<Longrightarrow> es @ [e] = fs \<Longrightarrow> sig_run c fs c3"
  using run_snoc by blast

text \<open>A call of the sequential model takes the interleaving machine through the steps of that call, without
  a step of anybody else, to the state the call leaves; the value a wake_value or returning waiter gets is the same.\<close>

lemma send_is_run:
  assumes s: "signals k sig = Some s" "sig_wait_set s = None" and p: "p = Asleep \<longleftrightarrow> sig_waiter s \<noteq> None"
    and send: "signal_send sig b k = ret (r, k')"
  shows "\<exists>es s' p'. signals k' sig = Some s' \<and> sig_run (conc_of s p) (Sends b # es) (conc_of s' p') \<and>
    (case r of None \<Rightarrow> p' = p | Some t \<Rightarrow> p' = Awake (wakeup_value (the (tcbs k' t))))"
proof -
  let ?c = "conc_of s p"
  let ?c1 = "?c\<lparr>c_bits := bits s OR b, senders := (senders ?c)(0 := Sent)\<rparr>"
  let ?c2 = "?c1\<lparr>senders := (senders ?c)(0 := Slow)\<rparr>"
  let ?c3 = "?c2\<lparr>c_lock := BySender 0, senders := (senders ?c)(0 := Holds)\<rparr>"
  have r1: "sig_run ?c [Sends b] ?c1"
    by (rule run_step [OF run_nil send_or [of _ 0]]) (simp_all add: conc_of_def)
  have r3: "sig_run ?c [Sends b, Tau, Tau] ?c3" if "has_observer s"
    using r1 that by (intro run_step [OF run_snoc [OF r1 send_slow [of _ 0]] send_lock [of _ 0]]) (simp_all add: conc_of_def)
  consider "\<not> has_observer s" | "has_observer s" "sig_waiter s = None" | t where "has_observer s" "sig_waiter s = Some t" by blast
  then show ?thesis
  proof cases
    case 1
    have "sig_run ?c [Sends b, Tau] (conc_of (s\<lparr>bits := bits s OR b\<rparr>) p)"
      by (rule run_step [OF r1 send_fast [of _ 0]]) (use 1 in \<open>simp_all add: conc_of_def fun_eq_iff\<close>)
    moreover have "r = None" "signals k' sig = Some (s\<lparr>bits := bits s OR b\<rparr>)" using send s 1 by (auto simp: signal_send_def put_signal_def)
    ultimately show ?thesis by auto
  next
    case 2
    have "sig_run ?c [Sends b, Tau, Tau, Tau] (conc_of (s\<lparr>bits := bits s OR b\<rparr>) p)"
      by (rule run_step [OF r3 send_nobody [of _ 0]]) (use 2 in \<open>simp_all add: conc_of_def fun_eq_iff\<close>)
    moreover have "r = None" "signals k' sig = Some (s\<lparr>bits := bits s OR b\<rparr>)" using send s 2 by (auto simp: signal_send_def put_signal_def)
    ultimately show ?thesis by auto
  next
    case (3 t)
    let ?s = "s\<lparr>bits := 0, sig_waiter := None, has_observer := False\<rparr>"
    have "sig_run ?c [Sends b, Tau, Tau, Takes, Wakes (bits s OR b)] (conc_of ?s (Awake (bits s OR b)))"
      by (rule run_step [OF run_snoc [OF r3 send_swap [of _ 0]] send_wake [of _ 0]])
        (use 3 s in \<open>simp_all add: conc_of_def fun_eq_iff\<close>)
    moreover have "r = Some t" "signals k' sig = Some ?s" "wakeup_value (the (tcbs k' t)) = bits s OR b"
      using send s 3 by (cases "tcbs k t"; auto simp: signal_send_def put_signal_def Let_def split: if_split_asm)+
    ultimately show ?thesis by auto
  qed
qed

lemma sleeps_run:
  assumes "bits s = 0"
  shows "sig_run (conc_of s (Awake d)) [Tau, Tau, Tau, Tau] (conc_of (s\<lparr>sig_waiter := Some t, has_observer := True\<rparr>) Asleep)"
  by (rule run_step [OF run_snoc [OF run_snoc [OF run_snoc [OF run_nil wait_lock [of _ d]] wait_register] wait_none] wait_block])
    (use assms in \<open>simp_all add: conc_of_def\<close>)

lemma wait_is_run:
  assumes s: "signals k sig = Some s" "sig_waiter s = None" and wait: "signal_wait sig t k = ret (r, k')"
  shows "\<exists>es s'. signals k' sig = Some s' \<and>
    sig_run (conc_of s (Awake d)) es (conc_of s' (case r of Inl _ \<Rightarrow> Asleep | Inr v \<Rightarrow> Awake v))"
proof -
  let ?c = "conc_of s (Awake d)"
  let ?c1 = "?c\<lparr>c_lock := ByWaiter, waiter := WHolds\<rparr>"
  let ?c2 = "?c1\<lparr>c_waiter := True, c_observer := True, waiter := Registered\<rparr>"
  obtain x where x: "tcbs k t = Some x" using wait s by (cases "tcbs k t") (auto simp: signal_wait_def upd_tcb_def)
  have r2: "sig_run ?c [Tau, Tau] ?c2"
    by (rule run_step [OF run_snoc [OF run_nil wait_lock [of _ d]] wait_register]) (simp_all add: conc_of_def)
  show ?thesis
  proof (cases "bits s = 0")
    case True
    show ?thesis using sleeps_run [OF True, of d t] wait_blocks [OF s(1) True x] wait by (auto simp: put_signal_def)
  next
    case False
    have "sig_run ?c [Tau, Tau, Takes, Wakes (bits s)]
        (conc_of (s\<lparr>bits := 0, sig_waiter := None, has_observer := sig_wait_set s \<noteq> None\<rparr>) (Awake (bits s)))"
      by (rule run_step [OF run_snoc [OF r2 wait_harvest] wait_undo]) (use False in \<open>simp_all add: conc_of_def\<close>)
    then show ?thesis using wait_takes_bits [OF s(1) False x] wait by (auto simp: put_signal_def)
  qed
qed

section \<open>Properties\<close>

text \<open>(C16) No lost bits and no lost wake-up. In every run that interleaves any number of lock-free senders
  with a waiting thread, the values that the waits have returned so far, followed by the one that is being
  handed over, are exactly those of the atomic signal that ORs every sent value into its bits and
  yields and clears all of them at each take, and the bits pending in the signal are exactly those sent since
  the last take. And whenever the thread sleeps while bits are pending, it cannot sleep on: every run
  that goes on from there without new sends either wakes it, or is shorter than a bound and
  can be continued by a step of the senders already under way.\<close>

theorem signal_no_lost_wakeup:
  assumes run: "sig_run (sig_start ws) es c"
  shows "foldl atomic_signal (0, []) es = (c_bits c, concat (map wake_value es) @ in_flight c) \<and>
    (waiter c = Asleep \<and> c_bits c \<noteq> 0 \<longrightarrow>
      (\<exists>n. \<forall>es' c'. sig_run c es' c' \<and> (\<forall>e\<in>set es'. \<not> is_send e) \<longrightarrow>
        (\<exists>e\<in>set es'. is_wake e) \<or> length es' \<le> n \<and> waiter c' = Asleep \<and> (\<exists>e c''. sig_step c' e c'' \<and> \<not> is_send e)))"
proof (intro conjI impI exI [of _ "work_left c"] allI)
  have inv: "sig_inv c" and acc: "sig_accounts es c" using sig_accounts_run [OF run] by simp_all
  show "foldl atomic_signal (0, []) es = (c_bits c, concat (map wake_value es) @ in_flight c)"
    using acc by (simp add: sig_accounts_def)
  fix es' c'
  assume a: "waiter c = Asleep \<and> c_bits c \<noteq> 0" and r: "sig_run c es' c' \<and> (\<forall>e\<in>set es'. \<not> is_send e)"
  have "finite (busy c)" by (rule busy_run [OF run]) (simp add: busy_def sig_start_def)
  then have w: "will_wake c" using inv a sig_invD(6) [OF inv] by (auto simp: will_wake_def busy_def)
  show "(\<exists>e\<in>set es'. is_wake e) \<or> length es' \<le> work_left c \<and> waiter c' = Asleep \<and> (\<exists>e c''. sig_step c' e c'' \<and> \<not> is_send e)"
  proof (rule disjCI)
    assume "\<not> (length es' \<le> work_left c \<and> waiter c' = Asleep \<and> (\<exists>e c''. sig_step c' e c'' \<and> \<not> is_send e))"
    then have "\<not> (will_wake c' \<and> length es' + work_left c' \<le> work_left c)"
      using will_wake_moves by (auto simp: will_wake_def)
    then show "\<exists>e\<in>set es'. is_wake e" using will_wake_run [OF _ w, of es' c'] r by blast
  qed
qed

theorem signal_no_lost_wakeup_witness:
  "\<exists>c. sig_run (sig_start False) [Tau, Tau, Tau, Tau, Sends 5] c \<and> waiter c = Asleep \<and> c_bits c = 5 \<and>
     (\<exists>n. \<forall>es' c'. sig_run c es' c' \<and> (\<forall>e\<in>set es'. \<not> is_send e) \<longrightarrow>
        (\<exists>e\<in>set es'. is_wake e) \<or> length es' \<le> n \<and> waiter c' = Asleep \<and> (\<exists>e c''. sig_step c' e c'' \<and> \<not> is_send e))"
proof -
  let ?s = "SignalState_new\<lparr>sig_waiter := Some 7, has_observer := True\<rparr>"
  let ?c = "(conc_of ?s Asleep)\<lparr>c_bits := 5, senders := (senders (conc_of ?s Asleep))(0 := Sent)\<rparr>"
  have s: "sig_start False = conc_of SignalState_new (Awake 0)"
    by (simp add: sig_start_def conc_of_def SignalState_new_def)
  have "sig_run (sig_start False) [Tau, Tau, Tau, Tau] (conc_of ?s Asleep)"
    unfolding s by (rule sleeps_run) (simp_all add: SignalState_new_def)
  then have r: "sig_run (sig_start False) [Tau, Tau, Tau, Tau, Sends 5] ?c"
    by (rule run_step [OF _ send_or [of _ 0]]) (simp_all add: conc_of_def SignalState_new_def)
  show ?thesis
    by (intro exI [of _ ?c] conjI r signal_no_lost_wakeup [OF r, THEN conjunct2, THEN mp]) (simp_all add: conc_of_def)
qed

text \<open>(C40) Spurious wake-up. A wait can end with the value 0, although the system call promises a non-zero
  mask: two senders see a sleeping waiter and head for the lock; the first takes the bits of both and wakes
  the thread, the thread waits again and falls asleep on an empty signal, and the second sender then takes
  nothing and wakes it with it.\<close>

theorem signal_spurious_wakeup:
  "\<exists>c. sig_run (sig_start False)
     [Tau, Tau, Tau, Tau, Sends 1, Sends 2, Tau, Tau, Tau, Takes, Wakes 3, Tau, Tau, Tau, Tau, Tau, Takes, Wakes 0] c \<and>
     waiter c = Awake 0"
proof -
  let ?s = "SignalState_new\<lparr>sig_waiter := Some 7, has_observer := True\<rparr>"
  let ?b = "conc_of ?s Asleep"
  let ?c = "\<lambda>c b l p q. c\<lparr>c_bits := b, c_lock := l, senders := (senders c)(0 := p, 1 := q)\<rparr>"
  have s: "sig_start False = conc_of SignalState_new (Awake 0)"
    by (simp add: sig_start_def conc_of_def SignalState_new_def)
  have r1: "sig_run (sig_start False) [Tau, Tau, Tau, Tau] ?b"
    unfolding s by (rule sleeps_run) (simp_all add: SignalState_new_def)
  note defs = conc_of_def SignalState_new_def fun_eq_iff
  have r2: "sig_run (sig_start False) [Tau, Tau, Tau, Tau, Sends 1, Sends 2] (?c ?b 3 Free Sent Sent)"
    by (rule run_step [OF run_snoc [OF r1 send_or [of _ 0]] send_or [of _ 1]]) (simp_all add: defs)
  have r3: "sig_run (sig_start False) [Tau, Tau, Tau, Tau, Sends 1, Sends 2, Tau, Tau] (?c ?b 3 Free Slow Slow)"
    by (rule run_step [OF run_snoc [OF r2 send_slow [of _ 0]] send_slow [of _ 1]]) (simp_all add: defs)
  let ?w = "conc_of SignalState_new (Awake 3)"
  have r4: "sig_run (sig_start False) [Tau, Tau, Tau, Tau, Sends 1, Sends 2, Tau, Tau, Tau, Takes, Wakes 3] (?c ?w 0 Free SIdle Slow)"
    by (rule run_step [OF run_snoc [OF run_snoc [OF r3 send_lock [of _ 0]] send_swap [of _ 0]] send_wake [of _ 0]])
      (simp_all add: defs)
  let ?f = "conc_of SignalState_new (Awake 0)"
  have "sig_run (sig_start False)
     [Tau, Tau, Tau, Tau, Sends 1, Sends 2, Tau, Tau, Tau, Takes, Wakes 3, Tau, Tau, Tau, Tau, Tau, Takes, Wakes 0] ?f"
    by (rule run_step [OF run_snoc [OF run_snoc [OF run_snoc [OF run_snoc [OF run_snoc [OF run_snoc [OF r4
          wait_lock [of _ 3]] wait_register] wait_none] wait_block] send_lock [of _ 1]] send_swap [of _ 1]] send_wake [of _ 1]])
      (simp_all add: defs)
  then show ?thesis by (intro exI [of _ ?f]) (simp add: conc_of_def)
qed

text \<open>(C19) Accumulation. Bits sent to a signal that nobody observes accumulate, and the next wait returns all
  of them at once and clears the signal; a wait without pending bits blocks, and the next send
  delivers its bits to the blocked thread.\<close>

theorem signal_accumulates:
  assumes "signals k sig = Some s" "sig_ok s" "sig_waiter s = None" "sig_wait_set s = None"
    and "tcbs k t = Some x" "magic x = TCB_MAGIC"
  shows "(foldl (OR) (bits s) bs \<noteq> 0 \<longrightarrow> (\<exists>k1 k2 s2. send_all sig bs k = ret k1 \<and>
      signal_wait sig t k1 = ret (Inr (foldl (OR) (bits s) bs), k2) \<and> signals k2 sig = Some s2 \<and> sig_ok s2 \<and> bits s2 = 0)) \<and>
    (bits s = 0 \<longrightarrow> (\<exists>k1 k2 s2 y. signal_wait sig t k = ret (Inl (), k1) \<and> signal_send sig b k1 = ret (Some t, k2) \<and>
      signals k2 sig = Some s2 \<and> sig_ok s2 \<and> bits s2 = 0 \<and> tcbs k2 t = Some y \<and> state y = Ready \<and> wakeup_value y = b))"
proof (intro conjI impI)
  let ?b = "foldl (OR) (bits s) bs"
  let ?k = "put_signal sig (s\<lparr>bits := ?b\<rparr>) k"
  assume "?b \<noteq> 0"
  then show "\<exists>k1 k2 s2. send_all sig bs k = ret k1 \<and> signal_wait sig t k1 = ret (Inr ?b, k2) \<and>
      signals k2 sig = Some s2 \<and> sig_ok s2 \<and> bits s2 = 0"
    using send_all_ok [OF assms(1-4), of bs] wait_takes_bits [of ?k sig "s\<lparr>bits := ?b\<rparr>" t x] assms(4,5)
    by (simp add: sig_ok_def)
next
  assume z: "bits s = 0"
  let ?s = "s\<lparr>sig_waiter := Some t, has_observer := True\<rparr>"
  let ?k = "(put_signal sig ?s k)\<lparr>tcbs := (tcbs k)(t \<mapsto> sig_blocked sig x)\<rparr>"
  have "signal_wait sig t k = ret (Inl (), ?k)" by (rule wait_blocks [OF assms(1) z assms(5)])
  moreover have "sig_ok ?s" using z by (simp add: sig_ok_def)
  ultimately show "\<exists>k1 k2 s2 y. signal_wait sig t k = ret (Inl (), k1) \<and> signal_send sig b k1 = ret (Some t, k2) \<and>
      signals k2 sig = Some s2 \<and> sig_ok s2 \<and> bits s2 = 0 \<and> tcbs k2 t = Some y \<and> state y = Ready \<and> wakeup_value y = b"
    using send_waiter(1) [of ?k sig ?s t "sig_blocked sig x" b] send_waiter(2) [of ?k sig ?s t "sig_blocked sig x"] assms(6) by (simp add: sig_blocked_def notified_def)
qed

theorem signal_accumulates_witness:
  "\<exists>k1 k2. send_all 30 [1, 4] (put_signal 30 SignalState_new demo_kernel) = ret k1 \<and> signal_wait 30 7 k1 = ret (Inr 5, k2)"
  using signal_accumulates [of "put_signal 30 SignalState_new demo_kernel" 30 SignalState_new 7 blank_tcb "[1, 4]" 1]
    SignalState_new_ok
  by (auto simp: demo_kernel_tcb blank_kernel_tcb simp del: send_all.simps)

end
