(* ===== verification/Irq.thy ===== *)
theory Irq
  imports Signal
begin

text \<open>
  The interrupt routing table of \<open>kernel/src/irq.rs\<close>: which signal a device interrupt is delivered
  to. The interrupt controller is the pair of fields \<open>irq_masked\<close> and \<open>irq_acked\<close> of the state.
\<close>

unbundle bit_operations_syntax

section \<open>The table\<close>

definition MAX_IRQ :: nat where "MAX_IRQ = 256"

definition mask_line :: "nat \<Rightarrow> kernel \<Rightarrow> kernel" where
  "mask_line irq k = k\<lparr>irq_masked := (irq_masked k)(irq := True)\<rparr>"

definition unmask_line :: "nat \<Rightarrow> kernel \<Rightarrow> kernel" where
  "unmask_line irq k = k\<lparr>irq_masked := (irq_masked k)(irq := False)\<rparr>"

definition acknowledge :: "nat \<Rightarrow> kernel \<Rightarrow> kernel" where
  "acknowledge irq k = k\<lparr>irq_acked := irq_acked k @ [irq]\<rparr>"

definition irq_register :: "nat \<Rightarrow> ptr option \<Rightarrow> kernel \<Rightarrow> kernel run" where
  "irq_register irq sig k =
     (if irq < MAX_IRQ then ret (k\<lparr>irq_table := (irq_table k)(irq := sig)\<rparr>) else panic)"

definition irq_unregister :: "nat \<Rightarrow> kernel \<Rightarrow> kernel run" where
  "irq_unregister irq k =
     (if irq < MAX_IRQ then ret (k\<lparr>irq_table := (irq_table k)(irq := None)\<rparr>) else panic)"

fun unregister_lines :: "ptr \<Rightarrow> nat list \<Rightarrow> kernel \<Rightarrow> kernel" where
  "unregister_lines sig [] k = k"
| "unregister_lines sig (i # is) k =
     unregister_lines sig is
       (if irq_table k i = Some sig then mask_line i (k\<lparr>irq_table := (irq_table k)(i := None)\<rparr>) else k)"

definition unregister_signal :: "ptr \<Rightarrow> kernel \<Rightarrow> kernel" where
  "unregister_signal sig k = unregister_lines sig [0..<MAX_IRQ] k"

text \<open>Handing a thread that has been made ready to the scheduler.\<close>

definition wake_thread :: "ptr \<Rightarrow> kernel \<Rightarrow> kernel run" where
  "wake_thread t k = do {
     x \<leftarrow> tcbs k t;
     target_cpu \<leftarrow> select_target_cpu t k;
     enqueue_and_wake t target_cpu (priority x) k
   }"

definition dispatch_device_irq :: "nat \<Rightarrow> kernel \<Rightarrow> kernel run" where
  "dispatch_device_irq irq k =
     (if irq \<ge> MAX_IRQ then ret k
      else case irq_table k irq of
        None \<Rightarrow> ret (acknowledge irq (mask_line irq k))
      | Some sig \<Rightarrow> do {
          (woken, k) \<leftarrow> signal_send sig 1 (mask_line irq k);
          let k = acknowledge irq k;
          (case woken of
             None \<Rightarrow> ret k
           | Some t \<Rightarrow> wake_thread t k)
        })"

section \<open>Unregistering\<close>

lemma unregister_lines_table:
  "irq_table (unregister_lines sig is k) =
     (\<lambda>i. if i \<in> set is \<and> irq_table k i = Some sig then None else irq_table k i)"
  "irq_masked (unregister_lines sig is k) =
     (\<lambda>i. irq_masked k i \<or> i \<in> set is \<and> irq_table k i = Some sig)"
proof (induction "is" arbitrary: k)
  case Nil
  {
    case 1
    show ?case by simp
  next
    case 2
    show ?case by simp
  }
next
  case (Cons j "is")
  {
    case 1
    show ?case by (auto simp: Cons.IH mask_line_def)
  next
    case 2
    show ?case by (auto simp: Cons.IH mask_line_def)
  }
qed

lemma unregister_lines_frame:
  "unregister_lines sig is k =
     k\<lparr>irq_table := irq_table (unregister_lines sig is k), irq_masked := irq_masked (unregister_lines sig is k)\<rparr>"
proof (induction "is" arbitrary: k)
  case Nil
  show ?case by simp
next
  case (Cons i "is")
  show ?case
    using Cons [of "mask_line i (k\<lparr>irq_table := (irq_table k)(i := None)\<rparr>)"] Cons [of k]
    by (auto simp: mask_line_def)
qed

lemma unregister_signal_frame:
  "unregister_signal sig k =
     k\<lparr>irq_table := (\<lambda>i. if i < MAX_IRQ \<and> irq_table k i = Some sig then None else irq_table k i),
       irq_masked := (\<lambda>i. irq_masked k i \<or> i < MAX_IRQ \<and> irq_table k i = Some sig)\<rparr>"
  unfolding unregister_signal_def
  by (subst unregister_lines_frame) (simp add: unregister_lines_table)

section \<open>Delivery\<close>

lemma irq_reads [simp]:
  "tcbs (mask_line i k) = tcbs k" "signals (mask_line i k) = signals k" "tcbs (acknowledge i k) = tcbs k"
  "signals (acknowledge i k) = signals k" "irq_table (mask_line i k) = irq_table k"
  "irq_masked (acknowledge i k) = irq_masked k" "wait_sets (mask_line i k) = wait_sets k"
  by (simp_all add: mask_line_def acknowledge_def)

lemma run_queues_irq [simp]:
  "run_queues (mask_line i k) Q = run_queues k Q" "run_queues (acknowledge i k) Q = run_queues k Q"
  by (simp_all add: run_queues_def mask_line_def acknowledge_def)

lemma wake_thread_ok:
  assumes r: "run_queues k Q" and w: "wakeable k Q t x"
  shows "\<exists>k' c. wake_thread t k = ret k' \<and> c < MAX_CPUS \<and>
    run_queues k' (Q(c := (Q c)(priority x := Q c (priority x) @ [t]))) \<and> woke k k'"
proof -
  have "ready_waiter (\<lambda>x. x) t k = wake_thread t k"
    using w by (auto simp: ready_waiter_def wake_thread_def upd_tcb_def wakeable_def map_upd_triv)
  moreover have "k\<lparr>tcbs := (tcbs k)(t \<mapsto> x)\<rparr> = k" using w by (simp add: wakeable_def map_upd_triv)
  moreover have "keeps_links (\<lambda>x. x)" by (simp add: keeps_links_def)
  ultimately show ?thesis using ready_waiter_ok [OF r w, of "\<lambda>x. x"] by simp
qed


lemma wakeable_upd:
  assumes "wakeable k Q t x" "tcbs k' t = Some y" "magic y = magic x" "priority y = priority x"
    "cpu_affinity y = cpu_affinity x" "cpu_count k' = cpu_count k"
  shows "wakeable k' Q t y"
  using assms by (auto simp: wakeable_def places_def)

text \<open>(C28) Interrupt delivery. When a device interrupt fires on a line that is routed to a signal
  on which a thread is blocked, the handler returns with the line masked and acknowledged, the
  thread ready with bit 0 as the value its wait returns, appended to the run queue of an existing
  CPU at its priority, and the signal empty again.\<close>

theorem irq_delivers:
  assumes "irq < MAX_IRQ" "irq_table k irq = Some sig" "signals k sig = Some s" "sig_ok s"
    "sig_waiter s = Some t" "wakeable k Q t x" "state x = Blocked" "run_queues k Q"
  shows "\<exists>k' c y. dispatch_device_irq irq k = ret k' \<and> c < MAX_CPUS \<and>
    run_queues k' (Q(c := (Q c)(priority x := Q c (priority x) @ [t]))) \<and>
    tcbs k' t = Some y \<and> state y = Ready \<and> wakeup_value y = 1 \<and> blocked_on_object y = None \<and>
    irq_masked k' irq \<and> irq_acked k' = irq_acked k @ [irq] \<and>
    (\<exists>s'. signals k' sig = Some s' \<and> sig_ok s' \<and> bits s' = 0 \<and> sig_waiter s' = None)"
proof -
  let ?s = "s\<lparr>bits := 0, sig_waiter := None, has_observer := sig_wait_set s \<noteq> None\<rparr>"
  let ?k = "(put_signal sig ?s (mask_line irq k))\<lparr>tcbs := (tcbs k)(t \<mapsto> notified 1 x)\<rparr>"
  have x: "tcbs k t = Some x" "magic x = TCB_MAGIC" using assms(6) by (auto simp: wakeable_def)
  have send: "signal_send sig 1 (mask_line irq k) = ret (Some t, ?k)" "sig_ok ?s"
    using send_waiter(1) [of "mask_line irq k" sig s t x 1] send_waiter(2) [of k sig s t x] assms(3-5,7) x
    by simp_all
  have rq: "run_queues (put_signal sig ?s (mask_line irq k)) Q"
    using assms(8) by simp
  have rq: "run_queues (acknowledge irq ?k) Q"
    using run_queues_tcb [OF rq, of t x "notified 1 x"] x(1) by (simp add: notified_def)
  have "wakeable (acknowledge irq ?k) Q t (notified 1 x)"
    by (rule wakeable_upd [OF assms(6)]) (simp_all add: notified_def acknowledge_def put_signal_def mask_line_def)
  from wake_thread_ok [OF rq this] obtain k' c where k': "wake_thread t (acknowledge irq ?k) = ret k'"
    "c < MAX_CPUS" "run_queues k' (Q(c := (Q c)(priority x := Q c (priority x) @ [t])))"
    "woke (acknowledge irq ?k) k'"
    by (auto simp: notified_def)
  have "tcbs (acknowledge irq ?k) t = Some (notified 1 x)" by (simp add: acknowledge_def)
  from woke_tcb [OF k'(4) this] obtain n d where "tcbs k' t = Some ((notified 1 x)\<lparr>run_queue_next := n, preferred_cpu := d\<rparr>)"
    by auto
  moreover have "dispatch_device_irq irq k = ret k'"
    using assms(1,2) send(1) k'(1) by (simp add: dispatch_device_irq_def)
  moreover have "signals k' sig = Some ?s" "irq_masked k' irq" "irq_acked k' = irq_acked k @ [irq]"
    using woke_fields [OF k'(4)] by (simp_all add: acknowledge_def mask_line_def put_signal_def)
  ultimately show ?thesis
    using k'(2,3) send(2) by (auto simp: notified_def)
qed


text \<open>A state in which thread 7 waits for interrupt line 5.\<close>

definition demo_irq_kernel :: kernel where
  "demo_irq_kernel =
     (put_signal 60 (SignalState_new\<lparr>sig_waiter := Some 7, has_observer := True\<rparr>)
        (demo_kernel\<lparr>irq_table := [5 \<mapsto> 60]\<rparr>))
       \<lparr>tcbs := (tcbs demo_kernel)(7 \<mapsto> sig_blocked 60 blank_tcb)\<rparr>"

lemma demo_irq_kernel_ok:
  "run_queues demo_irq_kernel (\<lambda>c p. [])" "wakeable demo_irq_kernel (\<lambda>c p. []) 7 (sig_blocked 60 blank_tcb)"
proof -
  let ?s = "SignalState_new\<lparr>sig_waiter := Some 7, has_observer := True\<rparr>"
  have "run_queues (put_signal 60 ?s (demo_kernel\<lparr>irq_table := [5 \<mapsto> 60]\<rparr>)) (\<lambda>c p. [])"
    using demo_kernel_queues by (simp add: run_queues_def put_signal_def)
  from run_queues_tcb [OF this, of 7 blank_tcb "sig_blocked 60 blank_tcb"]
  show "run_queues demo_irq_kernel (\<lambda>c p. [])"
    using demo_kernel_tcb(1) [of 7] by (simp add: demo_irq_kernel_def sig_blocked_def)
  show "wakeable demo_irq_kernel (\<lambda>c p. []) 7 (sig_blocked 60 blank_tcb)"
    by (simp add: wakeable_def demo_irq_kernel_def sig_blocked_def blank_tcb_def queued_def places_def
        PRIORITY_DEFAULT_def NUM_PRIORITY_LEVELS_def demo_kernel_def blank_kernel_def put_signal_def MAX_CPUS_def)
qed

theorem irq_delivers_witness:
  "irq_table demo_irq_kernel 5 = Some 60 \<and>
   (\<exists>k' c y. dispatch_device_irq 5 demo_irq_kernel = ret k' \<and> c < MAX_CPUS \<and>
    run_queues k' ((\<lambda>c p. [])(c := (\<lambda>p. [])(PRIORITY_DEFAULT := [7]))) \<and>
    tcbs k' 7 = Some y \<and> state y = Ready \<and> wakeup_value y = 1 \<and> blocked_on_object y = None \<and>
    irq_masked k' 5 \<and> irq_acked k' = irq_acked demo_irq_kernel @ [5] \<and>
    (\<exists>s'. signals k' 60 = Some s' \<and> sig_ok s' \<and> bits s' = 0 \<and> sig_waiter s' = None))"
proof -
  let ?s = "SignalState_new\<lparr>sig_waiter := Some 7, has_observer := True\<rparr>"
  have "irq_table demo_irq_kernel 5 = Some 60" "signals demo_irq_kernel 60 = Some ?s"
    by (simp_all add: demo_irq_kernel_def put_signal_def)
  moreover have "sig_ok ?s" by (simp add: sig_ok_def SignalState_new_def)
  ultimately show ?thesis
    using irq_delivers [of 5 demo_irq_kernel 60 ?s 7 "\<lambda>c p. []" "sig_blocked 60 blank_tcb"] demo_irq_kernel_ok
    by (simp add: MAX_IRQ_def sig_blocked_def blank_tcb_def)
qed

end
