(* ===== verification/Event_Queue.thy ===== *)
theory Event_Queue
  imports Wait_Set
begin

text \<open>
  Event queues: \<open>kernel/src/ipc/event_queue.rs\<close>, and the death notification that the scheduler posts
  to one (\<open>kernel/src/sched/mod.rs\<close>). The ring of \<open>capacity + 1\<close> entries is an instance of
  \<open>bounded_fifo\<close>; posting and receiving act on the list \<open>eq_list q\<close> of queued payloads.
\<close>

section \<open>The ring\<close>

text \<open>\<open>capacity + 1\<close> in 32 bits.\<close>

definition ring_len :: "event_queue_state \<Rightarrow> nat run" where
  "ring_len q = (if eq_capacity q + 1 < 2 ^ 32 then ret (eq_capacity q + 1) else panic)"

definition EventQueueState_new :: "nat \<Rightarrow> event_queue_state run" where
  "EventQueueState_new cap =
     (if cap + 1 < 2 ^ 32
      then ret \<lparr>ring = replicate (cap + 1) 0, eq_capacity = cap, eq_count = 0, write_idx = 0,
             read_idx = 0, eq_waiter = None, eq_wait_set = None, eq_member_idx = 0\<rparr>
      else panic)"

definition eq_store :: "u64 \<Rightarrow> event_queue_state \<Rightarrow> event_queue_state run" where
  "eq_store payload q = do {
     n \<leftarrow> ring_len q;
     if write_idx q < length (ring q)
     then ret (q\<lparr>ring := (ring q)[write_idx q := payload], write_idx := (write_idx q + 1) mod n,
                 eq_count := eq_count q + 1\<rparr>)
     else panic
   }"

definition eq_load :: "event_queue_state \<Rightarrow> (u64 \<times> event_queue_state) run" where
  "eq_load q = do {
     n \<leftarrow> ring_len q;
     if read_idx q < length (ring q)
     then ret (ring q ! read_idx q, q\<lparr>read_idx := (read_idx q + 1) mod n, eq_count := eq_count q - 1\<rparr>)
     else panic
   }"

section \<open>Operations\<close>

definition event_queue_post :: "ptr \<Rightarrow> u64 \<Rightarrow> kernel \<Rightarrow> ((unit, ptr option) result \<times> kernel) run" where
  "event_queue_post eq payload k = do {
     q \<leftarrow> event_queues k eq;
     (case eq_waiter q of
        Some t \<Rightarrow> do {
          k \<leftarrow> upd_tcb t (\<lambda>x. x\<lparr>wakeup_value := payload, state := Ready, ipc_state := IpcNone, blocked_on_object := None\<rparr>)
                 (put_event_queue eq (q\<lparr>eq_waiter := None\<rparr>) k);
          ret (Inr (Some t), k)
        }
      | None \<Rightarrow>
          if eq_count q \<ge> eq_capacity q then ret (Inl (), k)
          else do {
            q \<leftarrow> eq_store payload q;
            let k = put_event_queue eq q k;
            k \<leftarrow> (case eq_wait_set q of
                    Some ws \<Rightarrow> if eq_count q = 1 then waitset_notify ws (eq_member_idx q) k else ret k
                  | None \<Rightarrow> ret k);
            ret (Inr None, k)
          })
   }"

definition event_queue_recv :: "ptr \<Rightarrow> ptr \<Rightarrow> kernel \<Rightarrow> ((unit, u64) result \<times> kernel) run" where
  "event_queue_recv eq caller k = do {
     q \<leftarrow> event_queues k eq;
     if eq_count q > 0
     then do {
       (payload, q) \<leftarrow> eq_load q;
       ret (Inr payload, put_event_queue eq q k)
     }
     else do {
       k \<leftarrow> upd_tcb caller (\<lambda>x. x\<lparr>context_saved := False, state := Blocked, ipc_state := BlockedOnEventQueue,
              blocked_on_object := Some eq\<rparr>) (put_event_queue eq (q\<lparr>eq_waiter := Some caller\<rparr>) k);
       ret (Inl (), k)
     }
   }"

definition event_queue_drop :: "ptr \<Rightarrow> kernel \<Rightarrow> kernel run" where
  "event_queue_drop eq k = do {
     q \<leftarrow> event_queues k eq;
     k \<leftarrow> (case eq_waiter q of
             None \<Rightarrow> ret k
           | Some t \<Rightarrow> ready_waiter (\<lambda>x. x\<lparr>wakeup_value := 0, state := Ready, ipc_state := IpcNone\<rparr>) t
                        (put_event_queue eq (q\<lparr>eq_waiter := None\<rparr>) k));
     q \<leftarrow> event_queues k eq;
     ret (put_event_queue eq (q\<lparr>ring := []\<rparr>) k)
   }"

definition post_death_notification :: "ptr \<Rightarrow> u64 \<Rightarrow> kernel \<Rightarrow> kernel run" where
  "post_death_notification t exit_reason k = do {
     x \<leftarrow> tcbs k t;
     (case death_notification x of
        None \<Rightarrow> ret k
      | Some eq \<Rightarrow> do {
          (r, k) \<leftarrow> event_queue_post eq exit_reason k;
          (case r of
             Inr (Some woken) \<Rightarrow> do {
               y \<leftarrow> tcbs k woken;
               enqueue_and_wake woken (this_cpu k) (priority y) k
             }
           | _ \<Rightarrow> ret k)
        })
   }"

section \<open>The ring is a bounded queue\<close>

definition eq_list :: "event_queue_state \<Rightarrow> u64 list" where
  "eq_list q = ring_list (ring q) (read_idx q) (eq_count q)"

definition eq_ok :: "event_queue_state \<Rightarrow> bool" where
  "eq_ok q \<longleftrightarrow> eq_capacity q + 1 < 2 ^ 32 \<and> length (ring q) = eq_capacity q + 1 \<and> eq_count q \<le> eq_capacity q \<and>
     read_idx q < length (ring q) \<and> write_idx q = (read_idx q + eq_count q) mod length (ring q)"

lemma eq_new_ok: "c + 1 < 2 ^ 32 \<Longrightarrow> \<exists>q. EventQueueState_new c = ret q \<and> eq_ok q \<and> eq_list q = [] \<and> eq_capacity q = c"
  by (simp add: EventQueueState_new_def eq_ok_def eq_list_def)

lemma eq_store_law:
  assumes ok: "eq_ok q" and room: "eq_count q < eq_capacity q"
  shows "\<exists>r i. eq_store v q = ret (q\<lparr>ring := r, write_idx := i, eq_count := eq_count q + 1\<rparr>) \<and>
    eq_ok (q\<lparr>ring := r, write_idx := i, eq_count := eq_count q + 1\<rparr>) \<and>
    eq_list (q\<lparr>ring := r, write_idx := i, eq_count := eq_count q + 1\<rparr>) = eq_list q @ [v]"
proof -
  note D = ok [unfolded eq_ok_def]
  let ?n = "length (ring q)"
  let ?q = "q\<lparr>ring := (ring q)[write_idx q := v], write_idx := (write_idx q + 1) mod ?n, eq_count := eq_count q + 1\<rparr>"
  have w: "write_idx q < ?n" using D by (metis add_gr_0 less_one mod_less_divisor)
  then have "eq_store v q = ret ?q" using D by (simp add: eq_store_def ring_len_def)
  moreover have "eq_list ?q = eq_list q @ [v]"
    using ring_put [of "eq_count q" "ring q" "read_idx q" v] D room by (simp add: eq_list_def)
  moreover have "eq_ok ?q" using D room by (simp add: eq_ok_def mod_Suc_eq)
  ultimately show ?thesis by blast
qed

lemma eq_load_law:
  assumes ok: "eq_ok q" and l: "eq_list q = v # vs"
  shows "\<exists>i. eq_load q = ret (v, q\<lparr>read_idx := i, eq_count := eq_count q - 1\<rparr>) \<and>
    eq_ok (q\<lparr>read_idx := i, eq_count := eq_count q - 1\<rparr>) \<and> eq_list (q\<lparr>read_idx := i, eq_count := eq_count q - 1\<rparr>) = vs"
proof -
  note D = ok [unfolded eq_ok_def]
  let ?n = "length (ring q)" and ?q = "q\<lparr>read_idx := (read_idx q + 1) mod length (ring q), eq_count := eq_count q - 1\<rparr>"
  have c: "0 < eq_count q" using l by (auto simp: eq_list_def intro: gr0I)
  have "eq_list q = ring q ! read_idx q # eq_list ?q"
    using ring_get [OF c, of "ring q" "read_idx q"] D by (simp add: eq_list_def)
  then have "ring q ! read_idx q = v" "eq_list ?q = vs" using l by auto
  moreover have "eq_ok ?q"
  proof -
    obtain n where "eq_count q = Suc n" using c by (cases "eq_count q") auto
    then show ?thesis using D by (auto simp: eq_ok_def mod_add_left_eq)
  qed
  moreover have "eq_load q = ret (ring q ! read_idx q, ?q)" using D by (simp add: eq_load_def ring_len_def)
  ultimately show ?thesis by blast
qed

lemma eq_list_length [simp]: "length (eq_list q) = eq_count q"
  by (simp add: eq_list_def)

interpretation evq: bounded_fifo eq_store eq_load eq_list eq_capacity eq_ok "\<lambda>_. True"
proof unfold_locales
  show "\<exists>q'. eq_store v q = ret q' \<and> eq_ok q' \<and> eq_list q' = eq_list q @ [v] \<and> eq_capacity q' = eq_capacity q"
    if "eq_ok q" "length (eq_list q) < eq_capacity q" for q v
    using eq_store_law [OF that(1), of v] that(2) by auto
  show "\<exists>q'. eq_load q = ret (v, q') \<and> eq_ok q' \<and> eq_list q' = vs \<and> eq_capacity q' = eq_capacity q"
    if "eq_ok q" "eq_list q = v # vs" for q v vs using eq_load_law [OF that] by auto
  show "length (eq_list q) \<le> eq_capacity q" if "eq_ok q" for q using that by (simp add: eq_ok_def)
qed

section \<open>Posting and receiving\<close>

definition eq_blocked :: "ptr \<Rightarrow> tcb \<Rightarrow> tcb" where
  "eq_blocked eq x = x\<lparr>context_saved := False, state := Blocked, ipc_state := BlockedOnEventQueue, blocked_on_object := Some eq\<rparr>"

text \<open>A queue without waiter and wait set: posting appends or reports that the queue is full.\<close>

lemma post_plain:
  assumes "event_queues k eq = Some q" "eq_ok q" "eq_waiter q = None" "eq_wait_set q = None"
  shows "\<exists>q'. event_queue_post eq v k = ret (if eq_count q < eq_capacity q then (Inr None, put_event_queue eq q' k) else (Inl (), k)) \<and>
    (eq_count q < eq_capacity q \<longrightarrow> eq_ok q' \<and> eq_list q' = eq_list q @ [v] \<and> eq_capacity q' = eq_capacity q \<and>
      eq_waiter q' = None \<and> eq_wait_set q' = None)"
proof (cases "eq_count q < eq_capacity q")
  case True
  then show ?thesis using eq_store_law [OF assms(2) True, of v] assms by (auto simp: event_queue_post_def)
next
  case False
  then show ?thesis using assms by (simp add: event_queue_post_def)
qed

lemma post_waiter:
  assumes "event_queues k eq = Some q" "eq_waiter q = Some t" "tcbs k t = Some x"
  shows "event_queue_post eq v k = ret (Inr (Some t),
    (put_event_queue eq (q\<lparr>eq_waiter := None\<rparr>) k)\<lparr>tcbs := (tcbs k)(t \<mapsto> notified v x)\<rparr>)"
  using assms by (simp add: event_queue_post_def upd_tcb_def notified_def)

lemma recv_takes:
  assumes "event_queues k eq = Some q" "eq_ok q" "eq_list q = v # vs"
  shows "\<exists>q'. event_queue_recv eq t k = ret (Inr v, put_event_queue eq q' k) \<and> eq_ok q' \<and> eq_list q' = vs \<and>
    eq_capacity q' = eq_capacity q \<and> eq_waiter q' = eq_waiter q \<and> eq_wait_set q' = eq_wait_set q"
proof -
  have "0 < eq_count q" using assms(3) eq_list_length [of q] by (metis length_Cons zero_less_Suc)
  then show ?thesis using eq_load_law [OF assms(2,3)] assms(1) by (auto simp: event_queue_recv_def)
qed

lemma recv_blocks:
  assumes "event_queues k eq = Some q" "eq_list q = []" "tcbs k t = Some x"
  shows "event_queue_recv eq t k = ret (Inl (),
    (put_event_queue eq (q\<lparr>eq_waiter := Some t\<rparr>) k)\<lparr>tcbs := (tcbs k)(t \<mapsto> eq_blocked eq x)\<rparr>)"
proof -
  have "eq_count q = 0" using assms(2) eq_list_length [of q] by simp
  then show ?thesis using assms by (simp add: event_queue_recv_def upd_tcb_def eq_blocked_def)
qed

text \<open>Posting and receiving several payloads.\<close>

fun post_all :: "ptr \<Rightarrow> u64 list \<Rightarrow> kernel \<Rightarrow> kernel run" where
  "post_all eq [] k = ret k"
| "post_all eq (v # vs) k = do { (r, k) \<leftarrow> event_queue_post eq v k; if r = Inr None then post_all eq vs k else panic }"

fun recv_all :: "ptr \<Rightarrow> ptr \<Rightarrow> nat \<Rightarrow> kernel \<Rightarrow> u64 list run" where
  "recv_all eq t 0 k = ret []"
| "recv_all eq t (Suc n) k = do {
     (r, k) \<leftarrow> event_queue_recv eq t k;
     (case r of Inl _ \<Rightarrow> panic | Inr v \<Rightarrow> map_option (Cons v) (recv_all eq t n k))
   }"

lemma post_all_ok:
  "event_queues k eq = Some q \<Longrightarrow> eq_ok q \<Longrightarrow> eq_waiter q = None \<Longrightarrow> eq_wait_set q = None \<Longrightarrow>
    eq_count q + length vs \<le> eq_capacity q \<Longrightarrow>
    \<exists>k' q'. post_all eq vs k = ret k' \<and> event_queues k' eq = Some q' \<and> eq_ok q' \<and> eq_list q' = eq_list q @ vs"
proof (induction vs arbitrary: k q)
  case (Cons v vs)
  have "eq_count q < eq_capacity q" using Cons.prems(5) by simp
  then obtain q1 where q1: "event_queue_post eq v k = ret (Inr None, put_event_queue eq q1 k)" "eq_ok q1" "eq_list q1 = eq_list q @ [v]"
      "eq_capacity q1 = eq_capacity q" "eq_waiter q1 = None" "eq_wait_set q1 = None"
    using post_plain [OF Cons.prems(1-4), of v] by auto
  have "eq_count q1 = Suc (eq_count q)" using arg_cong [OF q1(3), of length] by simp
  then show ?case using Cons.IH [of "put_event_queue eq q1 k" q1] Cons.prems(5) q1 by auto
qed simp

lemma recv_all_ok:
  "event_queues k eq = Some q \<Longrightarrow> eq_ok q \<Longrightarrow> n \<le> eq_count q \<Longrightarrow> recv_all eq t n k = ret (take n (eq_list q))"
proof (induction n arbitrary: k q)
  case (Suc n)
  obtain v vs where l: "eq_list q = v # vs" using Suc.prems(3) eq_list_length [of q] by (cases "eq_list q") auto
  obtain q1 where q1: "event_queue_recv eq t k = ret (Inr v, put_event_queue eq q1 k)" "eq_ok q1" "eq_list q1 = vs"
    using recv_takes [OF Suc.prems(1,2) l] by blast
  have "n \<le> eq_count q1" using Suc.prems(3) l q1(3) eq_list_length [of q] eq_list_length [of q1] by auto
  then show ?case using Suc.IH [of "put_event_queue eq q1 k" q1] q1 l by simp
qed simp

section \<open>Properties\<close>

definition demo_eq_kernel :: "nat \<Rightarrow> kernel" where
  "demo_eq_kernel c = demo_kernel\<lparr>event_queues := [50 \<mapsto> the (EventQueueState_new c)]\<rparr>"

text \<open>(C18) Order of event queues. Payloads posted to a queue that has room for them are received in the order
  they were posted, after those already queued; the ring may wrap around in between.\<close>

theorem event_queue_roundtrip:
  assumes "event_queues k eq = Some q" "eq_ok q" "eq_waiter q = None" "eq_wait_set q = None"
    and "eq_count q + length vs \<le> eq_capacity q"
  shows "\<exists>k'. post_all eq vs k = ret k' \<and> recv_all eq t (eq_count q + length vs) k' = ret (eq_list q @ vs)"
proof -
  obtain k' q' where k': "post_all eq vs k = ret k'" "event_queues k' eq = Some q'" "eq_ok q'" "eq_list q' = eq_list q @ vs"
    using post_all_ok [OF assms] by blast
  have "eq_count q' = eq_count q + length vs" using arg_cong [OF k'(4), of length] by simp
  then show ?thesis using recv_all_ok [OF k'(2,3), of "eq_count q + length vs" t] k'(1,4) by simp
qed

theorem event_queue_roundtrip_witness:
  "\<exists>k'. post_all 50 [11, 12] (demo_eq_kernel 2) = ret k' \<and> recv_all 50 7 2 k' = ret [11, 12]"
proof -
  obtain q where q: "EventQueueState_new 2 = ret q" "eq_ok q" "eq_list q = []" "eq_capacity q = 2" using eq_new_ok [of 2] by auto
  then have "eq_waiter q = None" "eq_wait_set q = None" "eq_count q = 0" by (auto simp: EventQueueState_new_def)
  then show ?thesis
    using event_queue_roundtrip [of "demo_eq_kernel 2" 50 q "[11, 12]" 7] q by (simp add: demo_eq_kernel_def numeral_2_eq_2)
qed

text \<open>(C20) Full and waiting. A post to a full queue fails and changes nothing; a post to a queue with a blocked
  receiver bypasses the ring and hands the payload to that thread, which becomes Ready. (The post path of
  \<open>kernel/docs/ipc-internals.md\<close> stores the payload in the ring first.)\<close>

theorem event_queue_post_result:
  assumes "event_queues k eq = Some q" "eq_waiter q = None"
  shows "(eq_capacity q \<le> eq_count q \<longrightarrow> event_queue_post eq v k = ret (Inl (), k)) \<and>
    (eq_list q = [] \<longrightarrow> tcbs k t = Some x \<longrightarrow>
      (\<exists>k1 k2 y. event_queue_recv eq t k = ret (Inl (), k1) \<and> event_queue_post eq v k1 = ret (Inr (Some t), k2) \<and>
        event_queues k2 eq = Some q \<and> tcbs k2 t = Some y \<and> state y = Ready \<and> ipc_state y = IpcNone \<and> wakeup_value y = v))"
proof (intro conjI impI)
  show "event_queue_post eq v k = ret (Inl (), k)" if "eq_capacity q \<le> eq_count q"
    using assms that by (simp add: event_queue_post_def)
  assume l: "eq_list q = []" and x: "tcbs k t = Some x"
  let ?q = "q\<lparr>eq_waiter := Some t\<rparr>"
  let ?k = "(put_event_queue eq ?q k)\<lparr>tcbs := (tcbs k)(t \<mapsto> eq_blocked eq x)\<rparr>"
  have "?q\<lparr>eq_waiter := None\<rparr> = q" using assms(2) by simp
  then show "\<exists>k1 k2 y. event_queue_recv eq t k = ret (Inl (), k1) \<and> event_queue_post eq v k1 = ret (Inr (Some t), k2) \<and>
        event_queues k2 eq = Some q \<and> tcbs k2 t = Some y \<and> state y = Ready \<and> ipc_state y = IpcNone \<and> wakeup_value y = v"
    using recv_blocks [OF assms(1) l x] post_waiter [of ?k eq ?q t "eq_blocked eq x" v] by (auto simp: notified_def)
qed

theorem event_queue_post_result_witness:
  "(\<exists>k'. post_all 50 [11] (demo_eq_kernel 1) = ret k' \<and> event_queue_post 50 9 k' = ret (Inl (), k')) \<and>
   (\<exists>k1 k2 y. event_queue_recv 50 7 (demo_eq_kernel 1) = ret (Inl (), k1) \<and> event_queue_post 50 9 k1 = ret (Inr (Some 7), k2) \<and>
      event_queues k2 50 = event_queues (demo_eq_kernel 1) 50 \<and> tcbs k2 7 = Some y \<and> state y = Ready \<and> wakeup_value y = 9)"
proof
  obtain q where q: "EventQueueState_new 1 = ret q" "eq_ok q" "eq_list q = []" "eq_capacity q = 1" using eq_new_ok [of 1] by auto
  then have n: "eq_waiter q = None" "eq_wait_set q = None" "eq_count q = 0" by (auto simp: EventQueueState_new_def)
  have k: "event_queues (demo_eq_kernel 1) 50 = Some q" "tcbs (demo_eq_kernel 1) 7 = Some blank_tcb"
    using q(1) by (simp_all add: demo_eq_kernel_def demo_kernel_tcb)
  obtain q1 where q1: "event_queue_post 50 11 (demo_eq_kernel 1) = ret (Inr None, put_event_queue 50 q1 (demo_eq_kernel 1))"
      "eq_list q1 = [11]" "eq_capacity q1 = 1" "eq_waiter q1 = None"
    using post_plain [OF k(1) q(2) n(1,2), of 11] q(3,4) n(3) by auto
  have "eq_count q1 = 1" using arg_cong [OF q1(2), of length] by simp
  then show "\<exists>k'. post_all 50 [11] (demo_eq_kernel 1) = ret k' \<and> event_queue_post 50 9 k' = ret (Inl (), k')"
    using event_queue_post_result [of "put_event_queue 50 q1 (demo_eq_kernel 1)" 50 q1 9] q1 by simp
  show "\<exists>k1 k2 y. event_queue_recv 50 7 (demo_eq_kernel 1) = ret (Inl (), k1) \<and> event_queue_post 50 9 k1 = ret (Inr (Some 7), k2) \<and>
      event_queues k2 50 = event_queues (demo_eq_kernel 1) 50 \<and> tcbs k2 7 = Some y \<and> state y = Ready \<and> wakeup_value y = 9"
    using event_queue_post_result [OF k(1) n(1), of 9 7 blank_tcb] q(3) k by auto
qed

end
