(* ===== verification/Endpoint.thy ===== *)
theory Endpoint
  imports Wait_Set
begin

text \<open>
  Endpoints: \<open>kernel/src/ipc/endpoint.rs\<close>. Callers wait in the send queue, servers in the receive
  queue, both threaded through the field \<open>ipc_wait_next\<close> of the thread control blocks; the queue
  functions are the second instance of \<open>fifo_queue\<close>. The invariant \<open>ep_queues k S R\<close> gives the two lists
  of every endpoint and says that each listed thread is blocked on that endpoint in the matching
  way; since a thread's control block names one object and one way of waiting, the lists of all
  endpoints are disjoint.
\<close>

section \<open>Wait queues\<close>

definition ep_enqueue :: "ptr option \<times> ptr option \<Rightarrow> ptr \<Rightarrow> tcb_heap \<Rightarrow> ((ptr option \<times> ptr option) \<times> tcb_heap) run" where
  "ep_enqueue q t h = (case q of (head, tail) \<Rightarrow> do {
     x \<leftarrow> h t;
     let h = h(t \<mapsto> x\<lparr>ipc_wait_next := None\<rparr>);
     (case tail of
        None \<Rightarrow> ret ((Some t, Some t), h)
      | Some z \<Rightarrow> do { y \<leftarrow> h z; ret ((head, Some t), h(z \<mapsto> y\<lparr>ipc_wait_next := Some t\<rparr>)) })
   })"

definition ep_dequeue :: "ptr option \<times> ptr option \<Rightarrow> tcb_heap \<Rightarrow> (ptr option \<times> (ptr option \<times> ptr option) \<times> tcb_heap) run" where
  "ep_dequeue q h = (case q of (head, tail) \<Rightarrow>
     (case head of
        None \<Rightarrow> ret (None, (None, tail), h)
      | Some t \<Rightarrow> do {
          x \<leftarrow> h t;
          let next = ipc_wait_next x;
          ret (Some t, (next, if next = None then None else tail), h(t \<mapsto> x\<lparr>ipc_wait_next := None\<rparr>))
        }))"

definition ep_unlink :: "ptr option \<Rightarrow> ptr \<Rightarrow> ptr option \<times> ptr option \<Rightarrow> tcb_heap \<Rightarrow> ((ptr option \<times> ptr option) \<times> tcb_heap) run" where
  "ep_unlink prev cur q h = (case q of (head, tail) \<Rightarrow> do {
     x \<leftarrow> h cur;
     (head, h) \<leftarrow> (case prev of
        None \<Rightarrow> ret (ipc_wait_next x, h)
      | Some p \<Rightarrow> do { y \<leftarrow> h p; ret (head, h(p \<mapsto> y\<lparr>ipc_wait_next := ipc_wait_next x\<rparr>)) });
     let tail = (if tail = Some cur then prev else tail);
     x \<leftarrow> h cur;
     ret ((head, tail), h(cur \<mapsto> x\<lparr>ipc_wait_next := None\<rparr>))
   })"

partial_function (option) unlink_loop ::
  "ptr \<Rightarrow> ptr option \<Rightarrow> ptr option \<Rightarrow> ptr option \<times> ptr option \<Rightarrow> tcb_heap \<Rightarrow> (bool \<times> (ptr option \<times> ptr option) \<times> tcb_heap) run"
where
  "unlink_loop t prev cur q h =
     (case cur of
        None \<Rightarrow> Some (False, q, h)
      | Some c \<Rightarrow>
          (if c = t
           then (case ep_unlink prev c q h of None \<Rightarrow> None | Some (q', h') \<Rightarrow> Some (True, q', h'))
           else (case h c of
                   None \<Rightarrow> None
                 | Some x \<Rightarrow> unlink_loop t cur (ipc_wait_next x) q h)))"

definition unlink_from_wait_queue ::
  "ptr \<Rightarrow> ptr option \<times> ptr option \<Rightarrow> tcb_heap \<Rightarrow> (bool \<times> (ptr option \<times> ptr option) \<times> tcb_heap) run" where
  "unlink_from_wait_queue t q h = unlink_loop t None (fst q) q h"

section \<open>Operations\<close>

definition EndpointState_new :: endpoint_state where
  "EndpointState_new = \<lparr>send_head = None, send_tail = None, recv_head = None, recv_tail = None,
     ep_wait_set = None, ep_member_idx = 0\<rparr>"

definition endpoint_call :: "ptr \<Rightarrow> ptr \<Rightarrow> message \<Rightarrow> kernel \<Rightarrow> ((unit, ptr) result \<times> kernel) run" where
  "endpoint_call e caller msg k = do {
     ep \<leftarrow> endpoints k e;
     (server, (a, z), h) \<leftarrow> ep_dequeue (recv_head ep, recv_tail ep) (tcbs k);
     (case server of
        Some s \<Rightarrow> do {
          x \<leftarrow> h s;
          if magic x \<noteq> TCB_MAGIC \<or> state x \<noteq> Blocked then panic
          else do {
            let k = (put_endpoint e (ep\<lparr>recv_head := a, recv_tail := z\<rparr>) k)\<lparr>tcbs := h(s \<mapsto>
              x\<lparr>ipc_msg := msg, reply_tcb := Some caller, state := Ready, ipc_state := IpcNone, blocked_on_object := None\<rparr>)\<rparr>;
            k \<leftarrow> upd_tcb caller (\<lambda>y. y\<lparr>context_saved := False, state := Blocked, ipc_state := BlockedOnReply,
                   blocked_on_object := Some s\<rparr>) k;
            ret (Inr s, k)
          }
        }
      | None \<Rightarrow> do {
          let was_empty = (send_head ep = None);
          y \<leftarrow> h caller;
          ((a', z'), h) \<leftarrow> ep_enqueue (send_head ep, send_tail ep) caller
             (h(caller \<mapsto> y\<lparr>context_saved := False, ipc_msg := msg, state := Blocked, ipc_state := BlockedOnSend,
                blocked_on_object := Some e\<rparr>));
          let k = (put_endpoint e (ep\<lparr>recv_head := a, recv_tail := z, send_head := a', send_tail := z'\<rparr>) k)\<lparr>tcbs := h\<rparr>;
          k \<leftarrow> (case ep_wait_set ep of
                  Some ws \<Rightarrow> if was_empty then waitset_notify ws (ep_member_idx ep) k else ret k
                | None \<Rightarrow> ret k);
          ret (Inl (), k)
        })
   }"

definition endpoint_recv :: "ptr \<Rightarrow> ptr \<Rightarrow> kernel \<Rightarrow> ((unit, ptr \<times> message) result \<times> kernel) run" where
  "endpoint_recv e server k = do {
     ep \<leftarrow> endpoints k e;
     (caller, (a, z), h) \<leftarrow> ep_dequeue (send_head ep, send_tail ep) (tcbs k);
     (case caller of
        Some c \<Rightarrow> do {
          x \<leftarrow> h c;
          let msg = ipc_msg x;
          let k = (put_endpoint e (ep\<lparr>send_head := a, send_tail := z\<rparr>) k)\<lparr>tcbs := h\<rparr>;
          k \<leftarrow> upd_tcb server (\<lambda>y. y\<lparr>reply_tcb := Some c\<rparr>) k;
          k \<leftarrow> upd_tcb c (\<lambda>y. y\<lparr>ipc_state := BlockedOnReply, blocked_on_object := Some server\<rparr>) k;
          ret (Inr (c, msg), k)
        }
      | None \<Rightarrow> do {
          y \<leftarrow> h server;
          ((a', z'), h) \<leftarrow> ep_enqueue (recv_head ep, recv_tail ep) server
             (h(server \<mapsto> y\<lparr>context_saved := False, state := Blocked, ipc_state := BlockedOnRecv, blocked_on_object := Some e\<rparr>));
          ret (Inl (), (put_endpoint e (ep\<lparr>send_head := a, send_tail := z, recv_head := a', recv_tail := z'\<rparr>) k)\<lparr>tcbs := h\<rparr>)
        })
   }"

definition endpoint_reply :: "ptr \<Rightarrow> message \<Rightarrow> kernel \<Rightarrow> (ptr option \<times> kernel) run" where
  "endpoint_reply server msg k = do {
     x \<leftarrow> tcbs k server;
     (case reply_tcb x of
        None \<Rightarrow> ret (None, k)
      | Some c \<Rightarrow> do {
          k \<leftarrow> upd_tcb server (\<lambda>x. x\<lparr>reply_tcb := None\<rparr>) k;
          k \<leftarrow> upd_tcb c (\<lambda>y. y\<lparr>ipc_msg := msg, state := Ready, ipc_state := IpcNone, blocked_on_object := None\<rparr>) k;
          ret (Some c, k)
        })
   }"

section \<open>A wait queue implements a list\<close>

interpretation wql: link_field ipc_wait_next "\<lambda>v. ipc_wait_next_update (\<lambda>_. v)"
  by unfold_locales simp_all

definition wq_rep :: "tcb_heap \<Rightarrow> ptr option \<times> ptr option \<Rightarrow> ptr list \<Rightarrow> bool" where
  "wq_rep h q xs \<longleftrightarrow> fifo (nxt ipc_wait_next h) (fst q) (snd q) xs \<and> (\<forall>x \<in> set xs. h x \<noteq> None)"

definition wq_keeps :: "ptr set \<Rightarrow> tcb_heap \<Rightarrow> tcb_heap \<Rightarrow> bool" where
  "wq_keeps = only_links (ipc_wait_next_update (\<lambda>_. None))"

lemma wql_rep: "wql.rep h (fst q) (snd q) xs = wq_rep h q xs"
  by (simp add: wql.rep_def wq_rep_def)

lemma wql_keeps: "wql.keeps = wq_keeps"
  by (simp add: wql.keeps_def wq_keeps_def fun_eq_iff)

lemma wq_enqueue_law:
  assumes r: "wq_rep h q xs" and x: "h x \<noteq> None" "x \<notin> set xs"
  shows "\<exists>q' h'. ep_enqueue q x h = ret (q', h') \<and> wq_rep h' q' (xs @ [x]) \<and> wq_keeps (insert x (set xs)) h h'"
proof -
  obtain t a z where t: "h x = Some t" "q = (a, z)" using x(1) by (cases q) auto
  show ?thesis
  proof (cases z)
    case None
    then show ?thesis
      using wql.append_first [of h a xs x t] r t by (auto simp: ep_enqueue_def wql_keeps simp flip: wql_rep)
  next
    case (Some w)
    then show ?thesis
      using wql.append_last [of h a w xs x t] r t x(2) by (auto simp: ep_enqueue_def wql_keeps simp flip: wql_rep)
  qed
qed

lemma wq_dequeue_law:
  assumes r: "wq_rep h q (x # xs)"
  shows "\<exists>q' h'. ep_dequeue q h = ret (Some x, q', h') \<and> wq_rep h' q' xs \<and> wq_keeps (set (x # xs)) h h'"
  using wql.remove_head [of h "fst q" "snd q" x xs] r
  by (cases q) (auto simp: ep_dequeue_def Let_def wql_keeps simp flip: wql_rep)

lemma wq_unlink_law:
  assumes r: "wq_rep h q (us @ c # vs)"
  shows "\<exists>q' h'. ep_unlink (last_opt us) c q h = ret (q', h') \<and> wq_rep h' q' (us @ vs) \<and> wq_keeps (set (us @ c # vs)) h h'"
proof (cases us rule: rev_cases)
  case Nil
  then show ?thesis
    using wql.unlink_head [of h "fst q" "snd q" c vs] r
    by (cases q) (auto simp: ep_unlink_def Let_def wql_keeps simp flip: wql_rep)
next
  case (snoc ws p)
  then show ?thesis
    using wql.unlink_inner [of h "fst q" "snd q" ws p c vs] r
    by (cases q) (auto simp: ep_unlink_def Let_def wql_keeps simp flip: wql_rep)
qed

lemma unlink_loop_law:
  assumes "wq_rep h q (us @ vs)" "x \<notin> set us" "lseg (nxt ipc_wait_next h) cur vs None"
  shows "\<exists>q' h'. unlink_loop x (last_opt us) cur q h = ret (x \<in> set vs, q', h') \<and>
    wq_rep h' q' (us @ remove1 x vs) \<and> wq_keeps (set (us @ vs)) h h'"
  using assms
proof (induction vs arbitrary: us cur)
  case Nil
  then show ?case by (simp add: unlink_loop.simps wq_keeps_def)
next
  case (Cons c vs)
  show ?case
  proof (cases "c = x")
    case True
    then show ?thesis using wq_unlink_law [OF Cons.prems(1)] Cons.prems(3) by (auto simp: unlink_loop.simps [of _ _ "Some _"])
  next
    case False
    obtain t where t: "h c = Some t" using Cons.prems(1) by (auto simp: wq_rep_def)
    show ?thesis
      using Cons.IH [of "us @ [c]" "ipc_wait_next t"] Cons.prems t False by (simp add: unlink_loop.simps [of _ _ "Some _"])
  qed
qed

lemma wq_remove_law:
  assumes "wq_rep h q xs"
  shows "\<exists>q' h'. unlink_from_wait_queue x q h = ret (x \<in> set xs, q', h') \<and> wq_rep h' q' (remove1 x xs) \<and> wq_keeps (set xs) h h'"
  using unlink_loop_law [of h q "[]" xs x "fst q"] assms by (simp add: unlink_from_wait_queue_def wq_rep_def fifo_def)

interpretation wq: fifo_queue ep_enqueue ep_dequeue unlink_from_wait_queue wq_rep wq_keeps "\<lambda>h p. h p \<noteq> None"
proof unfold_locales
  show "ep_dequeue q h = ret (None, q, h)" if "wq_rep h q []" for h q
    using that by (cases q) (simp add: wq_rep_def ep_dequeue_def fifo_def)
  show "wq_rep h' q xs" if "wq_keeps S h h'" "set xs \<inter> S = {}" "wq_rep h q xs" for S h h' xs q
    using wql.keeps_rep [of S h h' xs "fst q" "snd q"] that by (simp add: wql_keeps wql_rep)
  show "(h' p \<noteq> None) = (h p \<noteq> None)" if "wq_keeps S h h'" for S h h' p
    using wql.keeps_live [of S h h' p] that by (simp add: wql_keeps)
  show "distinct xs" if "wq_rep h q xs" for h q xs
    using wql.rep_distinct [of h "fst q" "snd q" xs] that by (simp add: wql_rep)
qed (fact wq_enqueue_law wq_dequeue_law wq_remove_law)+

section \<open>The queues of all endpoints\<close>

definition waiting :: "tcb_heap \<Rightarrow> ipc_thread_state \<Rightarrow> ptr \<Rightarrow> ptr \<Rightarrow> bool" where
  "waiting h s e t \<longleftrightarrow> (\<exists>x. h t = Some x \<and> magic x = TCB_MAGIC \<and> state x = Blocked \<and> ipc_state x = s \<and> blocked_on_object x = Some e)"

definition ep_rep :: "tcb_heap \<Rightarrow> ptr \<Rightarrow> endpoint_state \<Rightarrow> ptr list \<Rightarrow> ptr list \<Rightarrow> bool" where
  "ep_rep h e ep ss rs \<longleftrightarrow> wq_rep h (send_head ep, send_tail ep) ss \<and> wq_rep h (recv_head ep, recv_tail ep) rs \<and>
     (\<forall>t \<in> set ss. waiting h BlockedOnSend e t) \<and> (\<forall>t \<in> set rs. waiting h BlockedOnRecv e t)"

definition ep_queues :: "kernel \<Rightarrow> (ptr \<Rightarrow> ptr list) \<Rightarrow> (ptr \<Rightarrow> ptr list) \<Rightarrow> bool" where
  "ep_queues k S R \<longleftrightarrow> (\<forall>e ep. endpoints k e = Some ep \<longrightarrow> ep_rep (tcbs k) e ep (S e) (R e))"

text \<open>A thread that is in no wait queue.\<close>

definition unblocked :: "tcb_heap \<Rightarrow> ptr \<Rightarrow> tcb \<Rightarrow> bool" where
  "unblocked h t x \<longleftrightarrow> h t = Some x \<and> magic x = TCB_MAGIC \<and> ipc_state x = IpcNone"

lemma wq_rep_agree: "wq_rep h q xs \<Longrightarrow> \<forall>t \<in> set xs. h' t = h t \<Longrightarrow> wq_rep h' q xs"
  unfolding wq_rep_def using fifo_cong [of xs "nxt ipc_wait_next h'" "nxt ipc_wait_next h"] by (simp add: nxt_def)

lemma wq_keeps_tcb:
  assumes "wq_keeps T h h'" "h t = Some x"
  shows "\<exists>n. h' t = Some (x\<lparr>ipc_wait_next := n\<rparr>)"
proof -
  have "map_option (ipc_wait_next_update (\<lambda>_. None)) (h' t) = Some (x\<lparr>ipc_wait_next := None\<rparr>)"
    using assms by (simp add: wq_keeps_def only_links_def)
  then obtain y where y: "h' t = Some y" "y\<lparr>ipc_wait_next := None\<rparr> = x\<lparr>ipc_wait_next := None\<rparr>" by auto
  then have "x\<lparr>ipc_wait_next := ipc_wait_next y\<rparr> = y" by (cases x; cases y) simp
  then show ?thesis using y(1) by metis
qed

lemma wq_keeps_out: "wq_keeps T h h' \<Longrightarrow> t \<notin> T \<Longrightarrow> h' t = h t"
  by (simp add: wq_keeps_def only_links_def)

lemma wq_keeps_waiting: "wq_keeps T h h' \<Longrightarrow> waiting h s e t \<Longrightarrow> waiting h' s e t"
  unfolding waiting_def using wq_keeps_tcb by fastforce

lemma waiting_upd [simp]: "t \<noteq> c \<Longrightarrow> waiting (h(c \<mapsto> y)) s e t = waiting h s e t"
  by (simp add: waiting_def)

lemma waiting_unique: "waiting h s e t \<Longrightarrow> waiting h s' e' t \<Longrightarrow> s = s' \<and> e = e'"
  by (auto simp: waiting_def)

lemma waiting_blocked: "waiting h s e t \<Longrightarrow> unblocked h t x \<Longrightarrow> s = IpcNone"
  by (auto simp: waiting_def unblocked_def)

text \<open>A step that changes only threads of endpoint \<open>e\<close> and one other, unblocked, thread.\<close>

lemma ep_queues_step:
  assumes q: "ep_queues k S R" "endpoints k e = Some ep" and c: "unblocked (tcbs k) c x"
    and new: "ep_rep h' e ep' ss rs" and same: "\<And>t. t \<notin> insert c (set (S e) \<union> set (R e)) \<Longrightarrow> h' t = tcbs k t"
  shows "ep_queues ((put_endpoint e ep' k)\<lparr>tcbs := h'\<rparr>) (S(e := ss)) (R(e := rs))"
  unfolding ep_queues_def
proof (intro allI impI)
  have e: "ep_rep (tcbs k) e ep (S e) (R e)" using q by (simp add: ep_queues_def)
  fix d dp assume d: "endpoints ((put_endpoint e ep' k)\<lparr>tcbs := h'\<rparr>) d = Some dp"
  show "ep_rep (tcbs ((put_endpoint e ep' k)\<lparr>tcbs := h'\<rparr>)) d dp ((S(e := ss)) d) ((R(e := rs)) d)"
  proof (cases "d = e")
    case True
    then show ?thesis using d new by simp
  next
    case False
    then have r: "ep_rep (tcbs k) d dp (S d) (R d)" using d q(1) by (simp add: ep_queues_def)
    have "\<forall>t \<in> set (S d) \<union> set (R d). t \<notin> insert c (set (S e) \<union> set (R e))"
      using r e False waiting_unique waiting_blocked [OF _ c] unfolding ep_rep_def by (metis UnE insertE ipc_thread_state.distinct(1,3))
    then have "\<forall>t \<in> set (S d) \<union> set (R d). h' t = tcbs k t" using same by blast
    then show ?thesis
      using False r wq_rep_agree [of "tcbs k" _ "S d" h'] wq_rep_agree [of "tcbs k" _ "R d" h'] by (simp add: ep_rep_def waiting_def)
  qed
qed

lemma ep_rep_disjoint:
  assumes "ep_rep h e ep ss rs"
  shows "set ss \<inter> set rs = {}"
proof -
  have False if "t \<in> set ss" "t \<in> set rs" for t
    using that assms waiting_unique [of h BlockedOnSend e t BlockedOnRecv e] by (simp add: ep_rep_def)
  then show ?thesis by blast
qed

lemma ep_queuesD:
  assumes "ep_queues k S R" "endpoints k e = Some ep"
  shows "wq_rep (tcbs k) (send_head ep, send_tail ep) (S e)" "wq_rep (tcbs k) (recv_head ep, recv_tail ep) (R e)"
    "t \<in> set (S e) \<Longrightarrow> waiting (tcbs k) BlockedOnSend e t" "t \<in> set (R e) \<Longrightarrow> waiting (tcbs k) BlockedOnRecv e t"
    "set (S e) \<inter> set (R e) = {}"
proof -
  have r: "ep_rep (tcbs k) e ep (S e) (R e)" using assms by (simp add: ep_queues_def)
  then show "set (S e) \<inter> set (R e) = {}" by (rule ep_rep_disjoint)
  from r show "wq_rep (tcbs k) (send_head ep, send_tail ep) (S e)" "wq_rep (tcbs k) (recv_head ep, recv_tail ep) (R e)"
    "t \<in> set (S e) \<Longrightarrow> waiting (tcbs k) BlockedOnSend e t" "t \<in> set (R e) \<Longrightarrow> waiting (tcbs k) BlockedOnRecv e t"
    by (auto simp: ep_rep_def)
qed

lemma unblocked_out:
  assumes "ep_queues k S R" "endpoints k e = Some ep" "unblocked (tcbs k) c x"
  shows "c \<notin> set (S e)" "c \<notin> set (R e)"
  using ep_queuesD(3,4) [OF assms(1,2), of c] waiting_blocked [OF _ assms(3)] by blast+

section \<open>Calls\<close>

definition got_message :: "message \<Rightarrow> ptr \<Rightarrow> tcb \<Rightarrow> tcb" where
  "got_message m c x = x\<lparr>ipc_msg := m, reply_tcb := Some c, state := Ready, ipc_state := IpcNone, blocked_on_object := None\<rparr>"

definition awaits_reply :: "ptr \<Rightarrow> tcb \<Rightarrow> tcb" where
  "awaits_reply s x = x\<lparr>context_saved := False, state := Blocked, ipc_state := BlockedOnReply, blocked_on_object := Some s\<rparr>"

lemma call_server:
  assumes q: "ep_queues k S R" "endpoints k e = Some ep" and c: "unblocked (tcbs k) c x" and r: "R e = s # rs"
  shows "\<exists>k' y. tcbs k s = Some y \<and> endpoint_call e c m k = ret (Inr s, k') \<and> ep_queues k' S (R(e := rs)) \<and>
    tcbs k' s = Some (got_message m c (y\<lparr>ipc_wait_next := None\<rparr>)) \<and> tcbs k' c = Some (awaits_reply s x) \<and> s \<noteq> c"
proof -
  note D = ep_queuesD [OF q] and C = unblocked_out [OF q c]
  have f: "wq_rep (tcbs k) (recv_head ep, recv_tail ep) (s # rs)" using D(2) r by simp
  obtain t where t: "recv_head ep = Some s" "tcbs k s = Some t"
    using wql.remove_head [of "tcbs k" "recv_head ep" "recv_tail ep" s rs] f by (auto simp: wql_rep [of _ "(_, _)", simplified])
  obtain a z h where h: "ep_dequeue (recv_head ep, recv_tail ep) (tcbs k) = ret (Some s, (a, z), h)"
      "wq_rep h (a, z) rs" "wq_keeps (set (s # rs)) (tcbs k) h"
    using wq.deq_law [OF f] by auto
  have hs: "h s = Some (t\<lparr>ipc_wait_next := None\<rparr>)" using h(1) t by (auto simp: ep_dequeue_def Let_def)
  have w: "magic t = TCB_MAGIC" "state t = Blocked" using D(4) [of s] r t by (auto simp: waiting_def)
  have sc: "s \<noteq> c" using C(2) r by auto
  have hc: "h c = Some x" using wq_keeps_out [OF h(3)] C(2) r c by (auto simp: unblocked_def)
  let ?h = "h(s \<mapsto> got_message m c (t\<lparr>ipc_wait_next := None\<rparr>), c \<mapsto> awaits_reply s x)"
  let ?ep = "ep\<lparr>recv_head := a, recv_tail := z\<rparr>"
  let ?k = "(put_endpoint e ?ep k)\<lparr>tcbs := ?h\<rparr>"
  have res: "endpoint_call e c m k = ret (Inr s, ?k)"
    using q(2) h(1) hs hc w sc by (simp add: endpoint_call_def upd_tcb_def got_message_def awaits_reply_def)
  have dist: "distinct (s # rs)" by (rule wq.rep_distinct [OF f])
  have agree: "\<forall>u \<in> set rs. ?h u = h u" "\<forall>u \<in> set (S e). ?h u = tcbs k u"
    using dist C D(5) r wq_keeps_out [OF h(3)] by auto
  have "ep_rep ?h e ?ep (S e) rs"
    using wq_rep_agree [OF h(2), of ?h] wq_rep_agree [OF D(1), of ?h] agree D(3,4) r wq_keeps_waiting [OF h(3)]
    by (auto simp: ep_rep_def waiting_def [of ?h] waiting_def [of h] waiting_def [of "tcbs k"])
  moreover have "?h u = tcbs k u" if "u \<notin> insert c (set (S e) \<union> set (R e))" for u
    using that r wq_keeps_out [OF h(3), of u] by auto
  ultimately have "ep_queues ?k (S(e := S e)) (R(e := rs))" by (rule ep_queues_step [OF q c])
  then show ?thesis using res t(2) sc by auto
qed

definition sends :: "message \<Rightarrow> ptr \<Rightarrow> tcb \<Rightarrow> tcb" where
  "sends m e x = x\<lparr>context_saved := False, ipc_msg := m, state := Blocked, ipc_state := BlockedOnSend, blocked_on_object := Some e\<rparr>"

definition receives :: "ptr \<Rightarrow> tcb \<Rightarrow> tcb" where
  "receives e x = x\<lparr>context_saved := False, state := Blocked, ipc_state := BlockedOnRecv, blocked_on_object := Some e\<rparr>"

text \<open>Appending an unblocked thread, after rewriting its control block, to a wait queue.\<close>

lemma block_in_queue:
  assumes r: "wq_rep h q xs" and x: "h c = Some x" "c \<notin> set xs"
  shows "\<exists>q' h' n. ep_enqueue q c (h(c \<mapsto> y)) = ret (q', h') \<and> wq_rep h' q' (xs @ [c]) \<and>
    wq_keeps (insert c (set xs)) (h(c \<mapsto> y)) h' \<and> h' c = Some (y\<lparr>ipc_wait_next := n\<rparr>)"
proof -
  have r1: "wq_rep (h(c \<mapsto> y)) q xs" by (rule wq_rep_agree [OF r]) (use x(2) in auto)
  obtain q' h' where h': "ep_enqueue q c (h(c \<mapsto> y)) = ret (q', h')" "wq_rep h' q' (xs @ [c])"
      "wq_keeps (insert c (set xs)) (h(c \<mapsto> y)) h'"
    using wq.enq_law [OF r1, of c] x(2) by auto
  then show ?thesis using wq_keeps_tcb [OF h'(3), of c y] by auto
qed

lemma call_blocks:
  assumes q: "ep_queues k S R" "endpoints k e = Some ep" and c: "unblocked (tcbs k) c x" and r: "R e = []"
  shows "\<exists>k1 n. ep_queues k1 (S(e := S e @ [c])) R \<and> tcbs k1 c = Some (sends m e x\<lparr>ipc_wait_next := n\<rparr>) \<and>
    (\<forall>t. t \<noteq> c \<longrightarrow> t \<notin> set (S e) \<longrightarrow> tcbs k1 t = tcbs k t) \<and>
    (\<exists>a z. endpoints k1 e = Some (ep\<lparr>send_head := a, send_tail := z\<rparr>)) \<and>
    endpoint_call e c m k = (case ep_wait_set ep of
        Some ws \<Rightarrow> if S e = [] then map_option (Pair (Inl ())) (waitset_notify ws (ep_member_idx ep) k1) else ret (Inl (), k1)
      | None \<Rightarrow> ret (Inl (), k1))"
proof -
  note D = ep_queuesD [OF q] and C = unblocked_out [OF q c]
  have none: "recv_head ep = None" "recv_tail ep = None" using D(2) r by (auto simp: wq_rep_def fifo_def)
  have hx: "tcbs k c = Some x" using c by (simp add: unblocked_def)
  obtain a z h n where h: "ep_enqueue (send_head ep, send_tail ep) c ((tcbs k)(c \<mapsto> sends m e x)) = ret ((a, z), h)"
      "wq_rep h (a, z) (S e @ [c])" "wq_keeps (insert c (set (S e))) ((tcbs k)(c \<mapsto> sends m e x)) h"
      "h c = Some (sends m e x\<lparr>ipc_wait_next := n\<rparr>)"
    using block_in_queue [OF D(1) hx C(1), of "sends m e x"] by auto
  let ?ep = "ep\<lparr>send_head := a, send_tail := z\<rparr>"
  let ?k = "(put_endpoint e ?ep k)\<lparr>tcbs := h\<rparr>"
  have "waiting h BlockedOnSend e c" using h(4) c by (simp add: waiting_def sends_def unblocked_def)
  moreover have "waiting h BlockedOnSend e t" if "t \<in> set (S e)" for t
    using wq_keeps_waiting [OF h(3), of BlockedOnSend e t] D(3) [OF that] C(1) that by (cases "t = c") simp_all
  ultimately have "ep_rep h e ?ep (S e @ [c]) (R e)" using h(2) r none by (auto simp: ep_rep_def wq_rep_def)
  moreover have same: "h u = tcbs k u" if "u \<notin> insert c (set (S e) \<union> set (R e))" for u
    using wq_keeps_out [OF h(3), of u] that by simp
  ultimately have "ep_queues ?k (S(e := S e @ [c])) (R(e := R e))" by (rule ep_queues_step [OF q c])
  then have qs: "ep_queues ?k (S(e := S e @ [c])) R" by simp
  have empty: "send_head ep = None \<longleftrightarrow> S e = []" using fifo_head [of "nxt ipc_wait_next (tcbs k)" "send_head ep" "send_tail ep" "S e"] D(1) by (simp add: wq_rep_def)
  have eq: "ep\<lparr>recv_head := None, recv_tail := None, send_head := a, send_tail := z\<rparr> = ?ep" using none by (cases ep) simp
  have "endpoint_call e c m k = (case ep_wait_set ep of
        Some ws \<Rightarrow> if S e = [] then map_option (Pair (Inl ())) (waitset_notify ws (ep_member_idx ep) ?k) else ret (Inl (), ?k)
      | None \<Rightarrow> ret (Inl (), ?k))"
    using h(1) hx none q(2) empty
    by (cases "ep_wait_set ep") (auto simp: endpoint_call_def ep_dequeue_def sends_def eq map_conv_bind_option comp_def)
  moreover have "\<forall>t. t \<noteq> c \<longrightarrow> t \<notin> set (S e) \<longrightarrow> tcbs ?k t = tcbs k t" using same r by simp
  moreover have "\<exists>a z. endpoints ?k e = Some (ep\<lparr>send_head := a, send_tail := z\<rparr>)" by auto
  ultimately show ?thesis using qs h(4) by (intro exI [of _ ?k] exI [of _ n]) simp
qed

lemma recv_caller:
  assumes q: "ep_queues k S R" "endpoints k e = Some ep" and s: "unblocked (tcbs k) s x" and r: "S e = c # cs"
  shows "\<exists>k' y. tcbs k c = Some y \<and> endpoint_recv e s k = ret (Inr (c, ipc_msg y), k') \<and> ep_queues k' (S(e := cs)) R \<and>
    tcbs k' c = Some (y\<lparr>ipc_wait_next := None, ipc_state := BlockedOnReply, blocked_on_object := Some s\<rparr>) \<and>
    tcbs k' s = Some (x\<lparr>reply_tcb := Some c\<rparr>) \<and> c \<noteq> s"
proof -
  note D = ep_queuesD [OF q] and C = unblocked_out [OF q s]
  have f: "wq_rep (tcbs k) (send_head ep, send_tail ep) (c # cs)" using D(1) r by simp
  obtain t where t: "send_head ep = Some c" "tcbs k c = Some t"
    using wql.remove_head [of "tcbs k" "send_head ep" "send_tail ep" c cs] f by (auto simp: wql_rep [of _ "(_, _)", simplified])
  obtain a z h where h: "ep_dequeue (send_head ep, send_tail ep) (tcbs k) = ret (Some c, (a, z), h)"
      "wq_rep h (a, z) cs" "wq_keeps (set (c # cs)) (tcbs k) h"
    using wq.deq_law [OF f] by auto
  have hc: "h c = Some (t\<lparr>ipc_wait_next := None\<rparr>)" using h(1) t by (auto simp: ep_dequeue_def Let_def)
  have cs: "c \<noteq> s" using C(1) r by auto
  have hs: "h s = Some x" using wq_keeps_out [OF h(3)] C(1) r s by (auto simp: unblocked_def)
  let ?y = "t\<lparr>ipc_wait_next := None, ipc_state := BlockedOnReply, blocked_on_object := Some s\<rparr>"
  let ?h = "h(s \<mapsto> x\<lparr>reply_tcb := Some c\<rparr>, c \<mapsto> ?y)"
  let ?ep = "ep\<lparr>send_head := a, send_tail := z\<rparr>"
  let ?k = "(put_endpoint e ?ep k)\<lparr>tcbs := ?h\<rparr>"
  have res: "endpoint_recv e s k = ret (Inr (c, ipc_msg t), ?k)"
    using q(2) h(1) hs hc cs by (simp add: endpoint_recv_def upd_tcb_def)
  have dist: "distinct (c # cs)" by (rule wq.rep_distinct [OF f])
  have agree: "\<forall>u \<in> set cs. ?h u = h u" "\<forall>u \<in> set (R e). ?h u = tcbs k u"
    using dist C D(5) r wq_keeps_out [OF h(3)] by auto
  have "ep_rep ?h e ?ep cs (R e)"
    using wq_rep_agree [OF h(2), of ?h] wq_rep_agree [OF D(2), of ?h] agree D(3,4) r wq_keeps_waiting [OF h(3)]
    by (auto simp: ep_rep_def waiting_def [of ?h] waiting_def [of h] waiting_def [of "tcbs k"])
  moreover have "?h u = tcbs k u" if "u \<notin> insert s (set (S e) \<union> set (R e))" for u
    using that r wq_keeps_out [OF h(3), of u] by auto
  ultimately have "ep_queues ?k (S(e := cs)) (R(e := R e))" by (rule ep_queues_step [OF q s])
  then show ?thesis using res t(2) cs by auto
qed

lemma server_blocks:
  assumes q: "ep_queues k S R" "endpoints k e = Some ep" and s: "unblocked (tcbs k) s x" and r: "S e = []"
  shows "\<exists>k1 n. endpoint_recv e s k = ret (Inl (), k1) \<and> ep_queues k1 S (R(e := R e @ [s])) \<and>
    tcbs k1 s = Some (receives e x\<lparr>ipc_wait_next := n\<rparr>) \<and> (\<forall>t. t \<noteq> s \<longrightarrow> t \<notin> set (R e) \<longrightarrow> tcbs k1 t = tcbs k t) \<and>
    (\<exists>a z. endpoints k1 e = Some (ep\<lparr>recv_head := a, recv_tail := z\<rparr>))"
proof -
  note D = ep_queuesD [OF q] and C = unblocked_out [OF q s]
  have none: "send_head ep = None" "send_tail ep = None" using D(1) r by (auto simp: wq_rep_def fifo_def)
  have hx: "tcbs k s = Some x" using s by (simp add: unblocked_def)
  obtain a z h n where h: "ep_enqueue (recv_head ep, recv_tail ep) s ((tcbs k)(s \<mapsto> receives e x)) = ret ((a, z), h)"
      "wq_rep h (a, z) (R e @ [s])" "wq_keeps (insert s (set (R e))) ((tcbs k)(s \<mapsto> receives e x)) h"
      "h s = Some (receives e x\<lparr>ipc_wait_next := n\<rparr>)"
    using block_in_queue [OF D(2) hx C(2), of "receives e x"] by auto
  let ?ep = "ep\<lparr>recv_head := a, recv_tail := z\<rparr>"
  let ?k = "(put_endpoint e ?ep k)\<lparr>tcbs := h\<rparr>"
  have "waiting h BlockedOnRecv e s" using h(4) s by (simp add: waiting_def receives_def unblocked_def)
  moreover have "waiting h BlockedOnRecv e t" if "t \<in> set (R e)" for t
    using wq_keeps_waiting [OF h(3), of BlockedOnRecv e t] D(4) [OF that] C(2) that by (cases "t = s") simp_all
  ultimately have "ep_rep h e ?ep (S e) (R e @ [s])" using h(2) r none by (auto simp: ep_rep_def wq_rep_def)
  moreover have same: "h u = tcbs k u" if "u \<notin> insert s (set (S e) \<union> set (R e))" for u
    using wq_keeps_out [OF h(3), of u] that by simp
  ultimately have "ep_queues ?k (S(e := S e)) (R(e := R e @ [s]))" by (rule ep_queues_step [OF q s])
  then have qs: "ep_queues ?k S (R(e := R e @ [s]))" by simp
  have eq: "ep\<lparr>send_head := None, send_tail := None, recv_head := a, recv_tail := z\<rparr> = ?ep" using none by (cases ep) simp
  have "endpoint_recv e s k = ret (Inl (), ?k)"
    using h(1) hx none q(2) by (auto simp: endpoint_recv_def ep_dequeue_def receives_def eq)
  moreover have "\<forall>t. t \<noteq> s \<longrightarrow> t \<notin> set (R e) \<longrightarrow> tcbs ?k t = tcbs k t" using same r by simp
  moreover have "\<exists>a z. endpoints ?k e = Some (ep\<lparr>recv_head := a, recv_tail := z\<rparr>)" by auto
  ultimately show ?thesis using qs h(4) by (intro exI [of _ ?k] exI [of _ n]) simp
qed

text \<open>Replying touches no wait queue: the caller has left the send queue when it was received.\<close>

lemma reply_ok:
  assumes q: "ep_queues k S R" and s: "tcbs k s = Some x" "reply_tcb x = Some c" "ipc_state x = IpcNone"
    and c: "tcbs k c = Some y" "ipc_state y = BlockedOnReply"
  shows "\<exists>k'. endpoint_reply s m k = ret (Some c, k') \<and> ep_queues k' S R \<and> tcbs k' s = Some (x\<lparr>reply_tcb := None\<rparr>) \<and>
    tcbs k' c = Some (y\<lparr>ipc_msg := m, state := Ready, ipc_state := IpcNone, blocked_on_object := None\<rparr>)"
proof -
  have sc: "s \<noteq> c" using s c by auto
  let ?h = "(tcbs k)(s \<mapsto> x\<lparr>reply_tcb := None\<rparr>, c \<mapsto> y\<lparr>ipc_msg := m, state := Ready, ipc_state := IpcNone, blocked_on_object := None\<rparr>)"
  let ?k = "k\<lparr>tcbs := ?h\<rparr>"
  have res: "endpoint_reply s m k = ret (Some c, ?k)" using s c sc by (simp add: endpoint_reply_def upd_tcb_def)
  have "ep_queues ?k S R" unfolding ep_queues_def
  proof (intro allI impI)
    fix e ep assume "endpoints ?k e = Some ep"
    then have r: "ep_rep (tcbs k) e ep (S e) (R e)" using q by (simp add: ep_queues_def)
    then have "s \<notin> set (S e) \<union> set (R e)" "c \<notin> set (S e) \<union> set (R e)" using s c by (auto simp: ep_rep_def waiting_def)
    then have "\<forall>t \<in> set (S e) \<union> set (R e). ?h t = tcbs k t" by auto
    then show "ep_rep (tcbs ?k) e ep (S e) (R e)"
      using r wq_rep_agree [of "tcbs k" _ "S e" ?h] wq_rep_agree [of "tcbs k" _ "R e" ?h] by (simp add: ep_rep_def waiting_def)
  qed
  then show ?thesis using res sc by auto
qed

section \<open>Properties\<close>

definition demo_ep_kernel :: kernel where
  "demo_ep_kernel = put_endpoint 20 EndpointState_new demo_kernel"

lemma demo_ep_kernel_ok:
  "ep_queues demo_ep_kernel (\<lambda>_. []) (\<lambda>_. [])" "endpoints demo_ep_kernel 20 = Some EndpointState_new"
  "t < 8 \<Longrightarrow> unblocked (tcbs demo_ep_kernel) t blank_tcb" "ep_wait_set EndpointState_new = None"
  by (simp_all add: ep_queues_def demo_ep_kernel_def EndpointState_new_def put_endpoint_def demo_kernel_def blank_kernel_def
      ep_rep_def wq_rep_def unblocked_def blank_tcb_def)

text \<open>(C22) Rendezvous in order. A call on an endpoint with waiting servers hands the message to the server that
  has waited longest, makes it Ready and blocks the caller until the reply; without a server the
  caller is appended to the send queue. A receive takes the caller that has waited longest,
  with the message it sent, or appends the server to the receive queue. The other queues, of this
  and of all other endpoints, stay as they are. (\<open>kernel/docs/ipc-internals.md\<close> describes an endpoint
  with at most one waiting receiver.)\<close>

theorem endpoint_rendezvous:
  assumes "ep_queues k S R" "endpoints k e = Some ep" "unblocked (tcbs k) t x"
  shows "(\<forall>s rs. R e = s # rs \<longrightarrow> (\<exists>k' y z. endpoint_call e t m k = ret (Inr s, k') \<and> ep_queues k' S (R(e := rs)) \<and>
        tcbs k' s = Some y \<and> ipc_msg y = m \<and> reply_tcb y = Some t \<and> state y = Ready \<and>
        tcbs k' t = Some z \<and> state z = Blocked \<and> ipc_state z = BlockedOnReply)) \<and>
    (R e = [] \<longrightarrow> ep_wait_set ep = None \<longrightarrow>
      (\<exists>k' z. endpoint_call e t m k = ret (Inl (), k') \<and> ep_queues k' (S(e := S e @ [t])) R \<and>
        tcbs k' t = Some z \<and> state z = Blocked \<and> ipc_msg z = m)) \<and>
    (\<forall>c cs. S e = c # cs \<longrightarrow> (\<exists>k' y z. tcbs k c = Some y \<and> endpoint_recv e t k = ret (Inr (c, ipc_msg y), k') \<and>
        ep_queues k' (S(e := cs)) R \<and> tcbs k' t = Some z \<and> reply_tcb z = Some c)) \<and>
    (S e = [] \<longrightarrow> (\<exists>k'. endpoint_recv e t k = ret (Inl (), k') \<and> ep_queues k' S (R(e := R e @ [t]))))"
proof (intro conjI allI impI)
  fix s rs assume "R e = s # rs"
  then show "\<exists>k' y z. endpoint_call e t m k = ret (Inr s, k') \<and> ep_queues k' S (R(e := rs)) \<and>
        tcbs k' s = Some y \<and> ipc_msg y = m \<and> reply_tcb y = Some t \<and> state y = Ready \<and>
        tcbs k' t = Some z \<and> state z = Blocked \<and> ipc_state z = BlockedOnReply"
    using call_server [OF assms, of s rs m] by (auto simp: got_message_def awaits_reply_def)
next
  assume "R e = []" "ep_wait_set ep = None"
  then show "\<exists>k' z. endpoint_call e t m k = ret (Inl (), k') \<and> ep_queues k' (S(e := S e @ [t])) R \<and>
        tcbs k' t = Some z \<and> state z = Blocked \<and> ipc_msg z = m"
    using call_blocks [OF assms, of m] by (auto simp: sends_def)
next
  fix c cs assume "S e = c # cs"
  then show "\<exists>k' y z. tcbs k c = Some y \<and> endpoint_recv e t k = ret (Inr (c, ipc_msg y), k') \<and>
        ep_queues k' (S(e := cs)) R \<and> tcbs k' t = Some z \<and> reply_tcb z = Some c"
    using recv_caller [OF assms, of c cs] by auto
next
  assume "S e = []"
  then show "\<exists>k'. endpoint_recv e t k = ret (Inl (), k') \<and> ep_queues k' S (R(e := R e @ [t]))"
    using server_blocks [OF assms] by blast
qed

theorem endpoint_rendezvous_witness:
  "\<exists>k'. endpoint_recv 20 7 demo_ep_kernel = ret (Inl (), k') \<and> ep_queues k' (\<lambda>_. []) ((\<lambda>_. [])(20 := [7]))"
  using endpoint_rendezvous [OF demo_ep_kernel_ok(1,2,3), of 7 "default_message"] by simp

text \<open>(C23) Remote procedure calls. On an endpoint without waiting threads, a call by one thread, a receive by
  another and the reply of the latter deliver the message to the server and the reply to the
  caller, who is Ready again, whichever of call and receive comes first; all queues are
  then as before.\<close>

theorem rpc_roundtrip:
  assumes q: "ep_queues k S R" "endpoints k e = Some ep" "S e = []" "R e = []" "ep_wait_set ep = None"
    and c: "unblocked (tcbs k) c x" and s: "unblocked (tcbs k) s y" and "c \<noteq> s"
  shows "(\<exists>k1 k2 k3 z. endpoint_call e c m k = ret (Inl (), k1) \<and> endpoint_recv e s k1 = ret (Inr (c, m), k2) \<and>
      endpoint_reply s r k2 = ret (Some c, k3) \<and> ep_queues k3 S R \<and> tcbs k3 c = Some z \<and> state z = Ready \<and> ipc_msg z = r) \<and>
    (\<exists>k1 k2 k3 u z. endpoint_recv e s k = ret (Inl (), k1) \<and> endpoint_call e c m k1 = ret (Inr s, k2) \<and>
      tcbs k2 s = Some u \<and> ipc_msg u = m \<and> state u = Ready \<and>
      endpoint_reply s r k2 = ret (Some c, k3) \<and> ep_queues k3 S R \<and> tcbs k3 c = Some z \<and> state z = Ready \<and> ipc_msg z = r)"
proof
  have id: "S(e := []) = S" "R(e := []) = R" using q(3,4) by auto
  have y: "tcbs k s = Some y" "ipc_state y = IpcNone" and x: "tcbs k c = Some x" using s c by (auto simp: unblocked_def)
  obtain k1 n where k1: "endpoint_call e c m k = ret (Inl (), k1)" "ep_queues k1 (S(e := [c])) R"
      "tcbs k1 c = Some (sends m e x\<lparr>ipc_wait_next := n\<rparr>)" "tcbs k1 s = Some y" "\<exists>ep. endpoints k1 e = Some ep"
    using call_blocks [OF q(1,2) c q(4), of m] q(3,5) y assms(8) by auto
  have s1: "unblocked (tcbs k1) s y" using s k1(4) by (simp add: unblocked_def)
  obtain k2 where k2: "endpoint_recv e s k1 = ret (Inr (c, m), k2)" "ep_queues k2 S R"
      "tcbs k2 c = Some (sends m e x\<lparr>ipc_wait_next := None, ipc_state := BlockedOnReply, blocked_on_object := Some s\<rparr>)"
      "tcbs k2 s = Some (y\<lparr>reply_tcb := Some c\<rparr>)"
    using recv_caller [OF k1(2) _ s1, of e _ c "[]"] k1(3,5) id by (auto simp: sends_def)
  then show "\<exists>k1 k2 k3 z. endpoint_call e c m k = ret (Inl (), k1) \<and> endpoint_recv e s k1 = ret (Inr (c, m), k2) \<and>
      endpoint_reply s r k2 = ret (Some c, k3) \<and> ep_queues k3 S R \<and> tcbs k3 c = Some z \<and> state z = Ready \<and> ipc_msg z = r"
    using reply_ok [OF k2(2,4) _ _ k2(3), of r] k1(1) y by auto
  obtain j1 n' where j1: "endpoint_recv e s k = ret (Inl (), j1)" "ep_queues j1 S (R(e := [s]))"
      "tcbs j1 s = Some (receives e y\<lparr>ipc_wait_next := n'\<rparr>)" "tcbs j1 c = Some x" "\<exists>ep. endpoints j1 e = Some ep"
    using server_blocks [OF q(1,2) s q(3)] q(4) x assms(8) by auto
  have c1: "unblocked (tcbs j1) c x" using c j1(4) by (simp add: unblocked_def)
  obtain j2 where j2: "endpoint_call e c m j1 = ret (Inr s, j2)" "ep_queues j2 S R"
      "tcbs j2 s = Some (got_message m c (receives e y\<lparr>ipc_wait_next := None\<rparr>))" "tcbs j2 c = Some (awaits_reply s x)"
    using call_server [OF j1(2) _ c1, of e _ s "[]" m] j1(3,5) id by auto
  then show "\<exists>k1 k2 k3 u z. endpoint_recv e s k = ret (Inl (), k1) \<and> endpoint_call e c m k1 = ret (Inr s, k2) \<and>
      tcbs k2 s = Some u \<and> ipc_msg u = m \<and> state u = Ready \<and>
      endpoint_reply s r k2 = ret (Some c, k3) \<and> ep_queues k3 S R \<and> tcbs k3 c = Some z \<and> state z = Ready \<and> ipc_msg z = r"
    using reply_ok [OF j2(2,3) _ _ j2(4), of r] j1(1) by (auto simp: got_message_def awaits_reply_def)
qed

theorem rpc_roundtrip_witness:
  "\<exists>k1 k2 k3 z. endpoint_call 20 6 (Message_new 9) demo_ep_kernel = ret (Inl (), k1) \<and>
     endpoint_recv 20 7 k1 = ret (Inr (6, Message_new 9), k2) \<and> endpoint_reply 7 (Message_new 1) k2 = ret (Some 6, k3) \<and>
     tcbs k3 6 = Some z \<and> ipc_msg z = Message_new 1"
  using rpc_roundtrip [OF demo_ep_kernel_ok(1,2) _ _ demo_ep_kernel_ok(4,3,3), of 6 7 "Message_new 9" "Message_new 1"] by auto

end
