(* ===== verification/Object_Lifetime.thy ===== *)
theory Object_Lifetime
  imports Irq Event_Queue Endpoint
begin

text \<open>
  Reference counts and deallocation of kernel objects: \<open>kernel/src/cap/object.rs\<close>. One definition
  per arm of \<open>dealloc_object\<close>; the arm for a CSpace releases every object the CSpace holds, so
  deallocation is recursive, and \<open>dealloc_go\<close> computes both the deallocation of one object and the
  release of a list of them. Locks and interrupt flags are not modelled: every arm runs undisturbed.
  The wait for a thread that is still running on some CPU is the value \<open>panic\<close>, since no other CPU
  acts during the call.
\<close>

section \<open>Reference counts\<close>

definition KernelObject_new :: "kobject \<Rightarrow> kernel_object" where
  "KernelObject_new b = \<lparr>ref_count = 1, body = b\<rparr>"

definition put_object :: "ptr \<Rightarrow> kernel_object \<Rightarrow> kernel \<Rightarrow> kernel" where
  "put_object p ob k = k\<lparr>objects := (objects k)(p \<mapsto> ob)\<rparr>"

definition inc_ref :: "ptr \<Rightarrow> kernel \<Rightarrow> kernel run" where
  "inc_ref p k = do {
     ob \<leftarrow> objects k p;
     ret (put_object p (ob\<lparr>ref_count := ref_count ob + 1\<rparr>) k)
   }"

text \<open>\<open>fetch_sub(1) - 1\<close>: the atomic subtraction wraps, the second one panics at zero.\<close>

definition dec_ref :: "ptr \<Rightarrow> kernel \<Rightarrow> (u32 \<times> kernel) run" where
  "dec_ref p k = do {
     ob \<leftarrow> objects k p;
     if ref_count ob = 0 then panic
     else ret (ref_count ob - 1, put_object p (ob\<lparr>ref_count := ref_count ob - 1\<rparr>) k)
   }"

text \<open>Dropping the box of an object.\<close>

definition drop_object :: "ptr \<Rightarrow> kernel \<Rightarrow> kernel" where
  "drop_object p k = k\<lparr>objects := (objects k)(p := None)\<rparr>"

section \<open>Threads\<close>

definition DIRECT_MAP_BASE :: nat where "DIRECT_MAP_BASE = 0xFFFF800000000000"
definition KERNEL_STACK_PAGES :: nat where "KERNEL_STACK_PAGES = 4"
definition STACK_ORDER :: nat where "STACK_ORDER = 2"

definition free_frames_at :: "nat \<Rightarrow> nat \<Rightarrow> kernel \<Rightarrow> kernel run" where
  "free_frames_at phys order k = do {
     b \<leftarrow> buddy_free phys order (frames k);
     ret (k\<lparr>frames := b\<rparr>)
   }"

fun remove_from_cpus :: "nat list \<Rightarrow> ptr \<Rightarrow> nat \<Rightarrow> kernel \<Rightarrow> kernel run" where
  "remove_from_cpus [] t prio k = ret k"
| "remove_from_cpus (c # cs) t prio k = do {
     k \<leftarrow> remove_from_queue c t prio k;
     remove_from_cpus cs t prio k
   }"

text \<open>Unlinking a dying thread from the IPC object it is blocked on. A thread that waits for a
  reply is left as it is: its server keeps the pointer in \<open>reply_tcb\<close>.\<close>

definition unlink_blocked :: "ptr \<Rightarrow> kernel \<Rightarrow> kernel run" where
  "unlink_blocked t k = do {
     x \<leftarrow> tcbs k t;
     (case blocked_on_object x of
        None \<Rightarrow> ret k
      | Some ob \<Rightarrow> do {
          k \<leftarrow> (case ipc_state x of
             BlockedOnSignal \<Rightarrow> do {
               s \<leftarrow> signals k ob;
               ret (if sig_waiter s = Some t then put_signal ob (s\<lparr>sig_waiter := None\<rparr>) k else k)
             }
           | BlockedOnSend \<Rightarrow> do {
               ep \<leftarrow> endpoints k ob;
               (found, (a, z), h) \<leftarrow> unlink_from_wait_queue t (send_head ep, send_tail ep) (tcbs k);
               ret ((put_endpoint ob (ep\<lparr>send_head := a, send_tail := z\<rparr>) k)\<lparr>tcbs := h\<rparr>)
             }
           | BlockedOnRecv \<Rightarrow> do {
               ep \<leftarrow> endpoints k ob;
               (found, (a, z), h) \<leftarrow> unlink_from_wait_queue t (recv_head ep, recv_tail ep) (tcbs k);
               ret ((put_endpoint ob (ep\<lparr>recv_head := a, recv_tail := z\<rparr>) k)\<lparr>tcbs := h\<rparr>)
             }
           | BlockedOnEventQueue \<Rightarrow> do {
               q \<leftarrow> event_queues k ob;
               ret (if eq_waiter q = Some t then put_event_queue ob (q\<lparr>eq_waiter := None\<rparr>) k else k)
             }
           | BlockedOnWaitSet \<Rightarrow> do {
               w \<leftarrow> wait_sets k ob;
               ret (if ws_waiter w = Some t then put_wait_set ob (w\<lparr>ws_waiter := None\<rparr>) k else k)
             }
           | _ \<Rightarrow> ret k);
          upd_tcb t (\<lambda>x. x\<lparr>blocked_on_object := None\<rparr>) k
        })
   }"

definition dealloc_tcb :: "ptr \<Rightarrow> kernel \<Rightarrow> kernel run" where
  "dealloc_tcb t k = do {
     x \<leftarrow> tcbs k t;
     k \<leftarrow> (if cpu_count k \<le> MAX_CPUS then upd_tcb t (\<lambda>x. x\<lparr>state := Exited\<rparr>) k else panic);
     k \<leftarrow> remove_from_cpus [0..<cpu_count k] t (priority x) k;
     if \<exists>c \<in> set [0..<cpu_count k]. current (scheds k c) = Some t then panic
     else do {
       k \<leftarrow> unlink_blocked t k;
       x \<leftarrow> tcbs k t;
       kstack_virt \<leftarrow> usub (kernel_stack_top x) (KERNEL_STACK_PAGES * PAGE_SIZE);
       kstack_phys \<leftarrow> usub kstack_virt DIRECT_MAP_BASE;
       k \<leftarrow> free_frames_at kstack_phys STACK_ORDER k;
       ret (k\<lparr>tcbs := (tcbs k)(t := None)\<rparr>)
     }
   }"

section \<open>Address spaces and interrupts\<close>

definition dealloc_aspace :: "ptr \<Rightarrow> kernel \<Rightarrow> kernel run" where
  "dealloc_aspace a k = do {
     s \<leftarrow> aspaces k a;
     if active_cpus s \<noteq> 0 then panic
     else do {
       k \<leftarrow> free_frames_at (root_phys s) 0 k;
       ret (k\<lparr>aspaces := (aspaces k)(a := None)\<rparr>)
     }
   }"

definition dealloc_interrupt :: "nat \<Rightarrow> kernel \<Rightarrow> kernel run" where
  "dealloc_interrupt irq k = do {
     k \<leftarrow> irq_unregister irq k;
     ret (mask_line irq k)
   }"

section \<open>IPC objects\<close>

text \<open>A source that belongs to a wait set is taken out of it first. The result of \<open>waitset_remove\<close>
  is ignored.\<close>

definition leave_wait_set :: "ptr option \<Rightarrow> ptr \<Rightarrow> kernel \<Rightarrow> kernel run" where
  "leave_wait_set ws src k =
     (case ws of
        None \<Rightarrow> ret k
      | Some w \<Rightarrow> do { (_, k) \<leftarrow> waitset_remove w src k; ret k })"

text \<open>Waking every thread of a wait queue, from its head.\<close>

partial_function (option) wake_queue :: "ptr option \<Rightarrow> kernel \<Rightarrow> kernel run" where
  "wake_queue cur k =
     (case cur of
        None \<Rightarrow> Some k
      | Some t \<Rightarrow>
          (case tcbs k t of
             None \<Rightarrow> None
           | Some x \<Rightarrow>
               (case ready_waiter (\<lambda>x. x\<lparr>ipc_wait_next := None, ipc_state := IpcNone, state := Ready\<rparr>) t k of
                  None \<Rightarrow> None
                | Some k' \<Rightarrow> wake_queue (ipc_wait_next x) k')))"

definition dealloc_endpoint :: "ptr \<Rightarrow> kernel \<Rightarrow> kernel run" where
  "dealloc_endpoint e k = do {
     ep \<leftarrow> endpoints k e;
     k \<leftarrow> leave_wait_set (ep_wait_set ep) e k;
     let ep = (if ep_wait_set ep = None then ep else ep\<lparr>ep_wait_set := None, ep_member_idx := 0\<rparr>);
     k \<leftarrow> wake_queue (send_head ep) (put_endpoint e ep k);
     ep \<leftarrow> endpoints k e;
     let ep = ep\<lparr>send_head := None, send_tail := None\<rparr>;
     k \<leftarrow> wake_queue (recv_head ep) (put_endpoint e ep k);
     ep \<leftarrow> endpoints k e;
     ret (k\<lparr>endpoints := (endpoints k)(e := None)\<rparr>)
   }"

definition dealloc_signal :: "ptr \<Rightarrow> kernel \<Rightarrow> kernel run" where
  "dealloc_signal sig k = do {
     let k = unregister_signal sig k;
     s \<leftarrow> signals k sig;
     k \<leftarrow> leave_wait_set (sig_wait_set s) sig k;
     let s = (if sig_wait_set s = None then s else s\<lparr>sig_wait_set := None, sig_member_idx := 0\<rparr>);
     k \<leftarrow> (case sig_waiter s of
             None \<Rightarrow> ret (put_signal sig s k)
           | Some t \<Rightarrow> ready_waiter (\<lambda>x. x\<lparr>wakeup_value := 0, ipc_state := IpcNone, state := Ready\<rparr>) t
                        (put_signal sig (s\<lparr>sig_waiter := None\<rparr>) k));
     ret (k\<lparr>signals := (signals k)(sig := None)\<rparr>)
   }"

text \<open>The states of event queues and wait sets are never freed: their boxes outlive the object.\<close>

definition dealloc_event_queue :: "ptr \<Rightarrow> kernel \<Rightarrow> kernel run" where
  "dealloc_event_queue eq k = do {
     q \<leftarrow> event_queues k eq;
     k \<leftarrow> leave_wait_set (eq_wait_set q) eq k;
     let q = (if eq_wait_set q = None then q else q\<lparr>eq_wait_set := None, eq_member_idx := 0\<rparr>);
     event_queue_drop eq (put_event_queue eq q k)
   }"

section \<open>Objects\<close>

text \<open>Every kind of object but a CSpace.\<close>

definition dealloc_body :: "kobject \<Rightarrow> kernel \<Rightarrow> kernel run" where
  "dealloc_body ob k =
     (case ob of
        InterruptObj irq _ \<Rightarrow> dealloc_interrupt irq k
      | ThreadObj t \<Rightarrow> (case t of None \<Rightarrow> ret k | Some t \<Rightarrow> dealloc_tcb t k)
      | AddressSpaceObj a \<Rightarrow> (case a of None \<Rightarrow> ret k | Some a \<Rightarrow> dealloc_aspace a k)
      | EndpointObj e \<Rightarrow> (case e of None \<Rightarrow> ret k | Some e \<Rightarrow> dealloc_endpoint e k)
      | SignalObj s \<Rightarrow> (case s of None \<Rightarrow> ret k | Some s \<Rightarrow> dealloc_signal s k)
      | EventQueueObj q \<Rightarrow> (case q of None \<Rightarrow> ret k | Some q \<Rightarrow> dealloc_event_queue q k)
      | WaitSetObj w \<Rightarrow> (case w of None \<Rightarrow> ret k | Some w \<Rightarrow> wait_set_drop w k)
      | _ \<Rightarrow> ret k)"

text \<open>The CSpace behind a dying CSpace object is unregistered before its objects are released.\<close>

definition retire_cspace :: "ptr \<Rightarrow> kernel \<Rightarrow> (ptr list \<times> kernel) run" where
  "retire_cspace c k = do {
     cs \<leftarrow> cspace_at c (kcaps k);
     let k = k\<lparr>kcaps := unregister_cspace (cs_id cs) (kcaps k)\<rparr>;
     ret (for_each_object cs, k)
   }"

definition drop_cspace :: "ptr \<Rightarrow> kernel \<Rightarrow> kernel" where
  "drop_cspace c k = k\<lparr>kcaps := (kcaps k)\<lparr>cs_heap := (cs_heap (kcaps k))(c := None)\<rparr>\<rparr>"

partial_function (option) dealloc_go :: "ptr + ptr list \<Rightarrow> kernel \<Rightarrow> kernel run" where
  "dealloc_go job k =
     (case job of
        Inl p \<Rightarrow>
          (case objects k p of
             None \<Rightarrow> None
           | Some ob \<Rightarrow>
               (case body ob of
                  CSpaceObj (Some c) \<Rightarrow>
                    (case retire_cspace c k of
                       None \<Rightarrow> None
                     | Some (obs, k') \<Rightarrow>
                         do {
                           k'' \<leftarrow> dealloc_go (Inr obs) k';
                           ret (drop_object p (drop_cspace c k''))
                         })
                | _ \<Rightarrow>
                    (case dealloc_body (body ob) k of
                       None \<Rightarrow> None
                     | Some k' \<Rightarrow> Some (drop_object p k'))))
      | Inr obs \<Rightarrow>
          (case obs of
             [] \<Rightarrow> Some k
           | p # ps \<Rightarrow>
               (case dec_ref p k of
                  None \<Rightarrow> None
                | Some (remaining, k') \<Rightarrow>
                    (if remaining = 0
                     then do { k'' \<leftarrow> dealloc_go (Inl p) k'; dealloc_go (Inr ps) k'' }
                     else dealloc_go (Inr ps) k'))))"

definition dealloc_object :: "ptr \<Rightarrow> kernel \<Rightarrow> kernel run" where
  "dealloc_object p k = dealloc_go (Inl p) k"

text \<open>The loop of \<open>sys_cap_revoke\<close> and of the CSpace arm: drop one reference to each object.\<close>

definition release_objects :: "ptr list \<Rightarrow> kernel \<Rightarrow> kernel run" where
  "release_objects ps k = dealloc_go (Inr ps) k"


section \<open>Waking a wait queue\<close>

definition woken :: "tcb \<Rightarrow> tcb" where
  "woken x = x\<lparr>ipc_wait_next := None, ipc_state := IpcNone, state := Ready\<rparr>"

text \<open>Applying a change to the threads of a set.\<close>

definition map_threads :: "ptr set \<Rightarrow> (tcb \<Rightarrow> tcb) \<Rightarrow> tcb_heap \<Rightarrow> tcb_heap" where
  "map_threads S f h p = (if p \<in> S then map_option f (h p) else h p)"

definition upd_threads :: "ptr set \<Rightarrow> (tcb \<Rightarrow> tcb) \<Rightarrow> kernel \<Rightarrow> kernel" where
  "upd_threads S f k = k\<lparr>tcbs := map_threads S f (tcbs k)\<rparr>"

definition link_free :: "(tcb \<Rightarrow> tcb) \<Rightarrow> bool" where
  "link_free f \<longleftrightarrow> (\<forall>x n c. f (x\<lparr>run_queue_next := n, preferred_cpu := c\<rparr>) =
     (f x)\<lparr>run_queue_next := n, preferred_cpu := c\<rparr>)"

lemma woken_links [simp]: "keeps_links woken" "link_free woken"
  by (simp_all add: keeps_links_def link_free_def woken_def)

lemma woke_upd_threads:
  assumes "woke a b" "link_free f"
  shows "woke (upd_threads S f a) (upd_threads S f b)"
proof -
  obtain h s l i where b: "b = a\<lparr>tcbs := h, scheds := s, cpu_load := l, ipis_sent := i\<rparr>"
    "\<forall>c. current (s c) = current (scheds a c) \<and> idle (s c) = idle (scheds a c) \<and>
       sched_cpu_id (s c) = sched_cpu_id (scheds a c)"
    "\<forall>p. map_option (\<lambda>x. x\<lparr>run_queue_next := None, preferred_cpu := 0\<rparr>) (h p) =
       map_option (\<lambda>x. x\<lparr>run_queue_next := None, preferred_cpu := 0\<rparr>) (tcbs a p)"
    using assms(1) unfolding woke_def by blast
  have f: "(f x)\<lparr>run_queue_next := None, preferred_cpu := 0\<rparr> = f (x\<lparr>run_queue_next := None, preferred_cpu := 0\<rparr>)" for x
    using assms(2) by (simp add: link_free_def)
  have "map_option (\<lambda>x. (f x)\<lparr>run_queue_next := None, preferred_cpu := 0\<rparr>) (h p) =
      map_option (\<lambda>x. (f x)\<lparr>run_queue_next := None, preferred_cpu := 0\<rparr>) (tcbs a p)" for p
    unfolding f using arg_cong [OF b(3) [rule_format, of p], of "map_option f"] by (simp add: option.map_comp comp_def)
  then show ?thesis
    using b(2,3) unfolding b(1) upd_threads_def
    by (intro wokeI) (auto simp: option.map_comp comp_def map_threads_def)
qed

lemma upd_threads_insert:
  "tcbs k t = Some x \<Longrightarrow> t \<notin> S \<Longrightarrow>
    upd_threads S f (k\<lparr>tcbs := (tcbs k)(t \<mapsto> f x)\<rparr>) = upd_threads (insert t S) f k"
  by (auto simp: upd_threads_def map_threads_def [abs_def] fun_eq_iff intro!: kernel.fold_congs(3))

lemma upd_threads_empty [simp]: "upd_threads {} f k = k"
  by (simp add: upd_threads_def map_threads_def [abs_def])

lemma wakeable_tcb: "wakeable k Q t x \<Longrightarrow> tcbs k t = Some x"
  by (simp add: wakeable_def)

lemma wakeable_woke:
  assumes "wakeable k Q u x" "woke k k'" "queued Q' = insert t (queued Q)" "u \<noteq> t"
  shows "\<exists>y. wakeable k' Q' u y \<and> priority y = priority x"
proof -
  obtain n c where "tcbs k' u = Some (x\<lparr>run_queue_next := n, preferred_cpu := c\<rparr>)"
    using woke_tcb [OF assms(2) wakeable_tcb [OF assms(1)]] by blast
  then show ?thesis
    using assms woke_fields(3) [OF assms(2)] by (auto simp: wakeable_def places_def)
qed

lemma wake_queue_ok:
  assumes "lseg (nxt ipc_wait_next (tcbs k)) cur xs None" "distinct xs" "\<forall>t \<in> set xs. \<exists>x. wakeable k Q t x"
    "run_queues k Q"
  shows "\<exists>k' Q'. wake_queue cur k = ret k' \<and> run_queues k' Q' \<and> queued Q' = queued Q \<union> set xs \<and>
    woke (upd_threads (set xs) woken k) k'"
  using assms
proof (induction xs arbitrary: k cur Q)
  case Nil
  then show ?case by (auto simp: wake_queue.simps)
next
  case (Cons t ts)
  obtain x where w: "wakeable k Q t x" using Cons.prems(3) by auto
  then have x: "tcbs k t = Some x" by (simp add: wakeable_def)
  let ?k = "k\<lparr>tcbs := (tcbs k)(t \<mapsto> woken x)\<rparr>"
  obtain k1 c where k1: "ready_waiter woken t k = ret k1"
    "run_queues k1 (Q(c := (Q c)(priority x := Q c (priority x) @ [t])))" "woke ?k k1"
    using ready_waiter_ok [OF Cons.prems(4) w, of woken] by auto
  define Q1 where "Q1 = Q(c := (Q c)(priority x := Q c (priority x) @ [t]))"
  have q1: "queued Q1 = insert t (queued Q)" unfolding Q1_def by (rule queued_append)
  have nt: "t \<notin> set ts" "distinct ts" using Cons.prems(2) by auto
  have nx: "nxt ipc_wait_next (tcbs k1) u = nxt ipc_wait_next (tcbs k) u" if "u \<in> set ts" for u
  proof -
    have "\<exists>y. wakeable k Q u y" using Cons.prems(3) that by (meson list.set_intros(2))
    then obtain y where y: "tcbs k u = Some y" using wakeable_tcb by blast
    then have "tcbs ?k u = Some y" using nt that by auto
    from woke_tcb [OF k1(3) this] y show ?thesis by (auto simp: nxt_def)
  qed
  have "nxt ipc_wait_next (tcbs k) t = ipc_wait_next x" using x by (simp add: nxt_def)
  then have "lseg (nxt ipc_wait_next (tcbs k)) (ipc_wait_next x) ts None"
    using Cons.prems(1) by simp
  then have seg: "lseg (nxt ipc_wait_next (tcbs k1)) (ipc_wait_next x) ts None"
    using lseg_cong [of ts "nxt ipc_wait_next (tcbs k1)" "nxt ipc_wait_next (tcbs k)"] nx by simp
  have wk: "\<forall>u \<in> set ts. \<exists>y. wakeable k1 Q1 u y"
  proof
    fix u assume u: "u \<in> set ts"
    then obtain y where "wakeable k Q u y" using Cons.prems(3) by (meson list.set_intros(2))
    moreover have "u \<noteq> t" using nt(1) u by blast
    ultimately have "wakeable ?k Q u y" by (simp add: wakeable_def places_def)
    from wakeable_woke [OF this k1(3) q1] nt(1) u show "\<exists>y. wakeable k1 Q1 u y" by blast
  qed
  obtain k' Q' where k': "wake_queue (ipc_wait_next x) k1 = ret k'" "run_queues k' Q'"
    "queued Q' = queued Q1 \<union> set ts" "woke (upd_threads (set ts) woken k1) k'"
    using Cons.IH [OF seg nt(2) wk k1(2) [folded Q1_def]] by blast
  have "woke (upd_threads (set (t # ts)) woken k) k'"
    using woke_trans [OF woke_upd_threads [OF k1(3) woken_links(2), of "set ts"] k'(4)]
      upd_threads_insert [OF x nt(1), of woken] by simp
  moreover have "wake_queue cur k = ret k'"
    using Cons.prems(1) x k1(1) k'(1) by (subst wake_queue.simps) (simp add: woken_def [abs_def])
  ultimately show ?case using k'(2,3) q1 by auto
qed


section \<open>Destroying endpoints and signals\<close>

lemma waitset_remove_ok:
  assumes "wait_sets k ws = Some w" "ws_ok w"
  shows "\<exists>r w'. waitset_remove ws src k = ret (r, put_wait_set ws w' k)"
proof (cases "position (\<lambda>m. case m of None \<Rightarrow> False | Some m \<Rightarrow> source_ptr m = src) (members w)")
  case None
  then have "waitset_remove ws src k = ret (Inl (), put_wait_set ws w k)"
    using assms(1) by (simp add: waitset_remove_def put_wait_set_def map_upd_triv)
  then show ?thesis by blast
next
  case (Some i)
  then have i: "i < length (members w)" "members w ! i \<noteq> None"
    by (auto simp: position_Some split: option.splits)
  then have "filter (\<lambda>m. m \<noteq> None) (members w) \<noteq> []"
    unfolding filter_empty_conv using nth_mem by blast
  then have "1 \<le> member_count w"
    using assms(2) unfolding ws_ok_def by (simp add: Suc_le_eq)
  then show ?thesis using assms(1) Some by (auto simp: waitset_remove_def)
qed

lemma leave_wait_set_ok:
  assumes "\<forall>w. ws = Some w \<longrightarrow> (\<exists>s. wait_sets k w = Some s \<and> ws_ok s)"
  shows "\<exists>f. leave_wait_set ws src k = ret (k\<lparr>wait_sets := f\<rparr>)"
proof (cases ws)
  case None
  then have "leave_wait_set ws src k = ret (k\<lparr>wait_sets := wait_sets k\<rparr>)" by (simp add: leave_wait_set_def)
  then show ?thesis by blast
next
  case (Some w)
  then obtain s where "wait_sets k w = Some s" "ws_ok s" using assms by blast
  from waitset_remove_ok [OF this, of src] Some show ?thesis
    by (auto simp: leave_wait_set_def put_wait_set_def)
qed

lemma run_queues_fields [simp]:
  "run_queues (k\<lparr>wait_sets := f\<rparr>) Q = run_queues k Q" "run_queues (k\<lparr>endpoints := g\<rparr>) Q = run_queues k Q"
  "run_queues (k\<lparr>signals := h\<rparr>) Q = run_queues k Q"
  "run_queues (k\<lparr>irq_table := i, irq_masked := m\<rparr>) Q = run_queues k Q"
  by (simp_all add: run_queues_def)

lemma wakeable_fields [simp]:
  "wakeable (k\<lparr>wait_sets := f\<rparr>) Q t x = wakeable k Q t x"
  "wakeable (k\<lparr>irq_table := i, irq_masked := m\<rparr>) Q t x = wakeable k Q t x"
  by (simp_all add: wakeable_def places_def)

lemma woke_waiting:
  assumes "woke k k'" "waiting (tcbs k) s e t"
  shows "waiting (tcbs k') s e t"
proof -
  obtain x where x: "tcbs k t = Some x" "magic x = TCB_MAGIC" "state x = Blocked" "ipc_state x = s"
    "blocked_on_object x = Some e"
    using assms(2) unfolding waiting_def by blast
  obtain n c where "tcbs k' t = Some (x\<lparr>run_queue_next := n, preferred_cpu := c\<rparr>)"
    using woke_tcb [OF assms(1) x(1)] by blast
  then show ?thesis using x unfolding waiting_def by simp
qed

lemma woke_nxt:
  assumes "woke k k'"
  shows "nxt ipc_wait_next (tcbs k') t = nxt ipc_wait_next (tcbs k) t"
  using woke_tcb [OF assms, of t] woke_dead [OF assms, of t] by (cases "tcbs k t") (auto simp: nxt_def)

lemma woke_wq_rep:
  assumes "woke k k'" "wq_rep (tcbs k) q xs"
  shows "wq_rep (tcbs k') q xs"
proof -
  have "nxt ipc_wait_next (tcbs k') = nxt ipc_wait_next (tcbs k)" using woke_nxt [OF assms(1)] by (rule ext)
  then show ?thesis using assms(2) woke_dead [OF assms(1)] by (simp add: wq_rep_def)
qed

lemma woke_ep_rep: "woke k k' \<Longrightarrow> ep_rep (tcbs k) e ep ss rs \<Longrightarrow> ep_rep (tcbs k') e ep ss rs"
  using woke_wq_rep woke_waiting unfolding ep_rep_def by blast


lemma upd_threads_reads:
  "t \<notin> S \<Longrightarrow> tcbs (upd_threads S f k) t = tcbs k t"
  "t \<in> S \<Longrightarrow> tcbs (upd_threads S f k) t = map_option f (tcbs k t)"
  "endpoints (upd_threads S f k) = endpoints k" "cpu_count (upd_threads S f k) = cpu_count k"
  by (simp_all add: upd_threads_def map_threads_def)

text \<open>A thread outside the woken set keeps its wait queue, and stays wakeable.\<close>

lemma upd_threads_wq: "wq_rep (tcbs k) q xs \<Longrightarrow> set xs \<inter> S = {} \<Longrightarrow> wq_rep (tcbs (upd_threads S f k)) q xs"
  by (rule wq_rep_agree) (auto simp: upd_threads_def map_threads_def)

lemma wakeable_threads: "wakeable k Q u x \<Longrightarrow> u \<notin> S \<Longrightarrow> wakeable (upd_threads S f k) Q u x"
  by (simp add: wakeable_def places_def upd_threads_reads)

lemma wakeable_woke_set:
  assumes "wakeable k Q u x" "woke k k'" "queued Q' = queued Q \<union> S" "u \<notin> S"
  shows "\<exists>y. wakeable k' Q' u y"
proof -
  obtain n c where "tcbs k' u = Some (x\<lparr>run_queue_next := n, preferred_cpu := c\<rparr>)"
    using woke_tcb [OF assms(2) wakeable_tcb [OF assms(1)]] by blast
  then show ?thesis
    using assms woke_fields(3) [OF assms(2)] by (auto simp: wakeable_def places_def)
qed

lemma wq_rep_lseg: "wq_rep h q xs \<Longrightarrow> lseg (nxt ipc_wait_next h) (fst q) xs None \<and> distinct xs"
  using llist_distinct by (auto simp: wq_rep_def fifo_def)

lemma wake_wait_queue:
  assumes "wq_rep (tcbs k) (a, z) xs" "\<forall>t \<in> set xs. \<exists>x. wakeable k Q t x" "run_queues k Q"
  shows "\<exists>k' Q'. wake_queue a k = ret k' \<and> run_queues k' Q' \<and> queued Q' = queued Q \<union> set xs \<and>
    woke (upd_threads (set xs) woken k) k'"
  using wake_queue_ok [OF _ _ assms(2,3)] wq_rep_lseg [OF assms(1)] by simp

lemma upd_threads_set: "upd_threads S f (upd_threads T f k) = upd_threads (S \<union> T) f k" if "S \<inter> T = {}"
proof -
  have "map_threads S f (map_threads T f h) = map_threads (S \<union> T) f h" for h
    using that by (auto simp: map_threads_def fun_eq_iff)
  then show ?thesis by (simp add: upd_threads_def)
qed

lemma upd_threads_endpoint [simp]: "upd_threads S f (put_endpoint e ep k) = put_endpoint e ep (upd_threads S f k)"
  by (simp add: upd_threads_def put_endpoint_def)

lemma woke_put_endpoint:
  assumes "woke a b"
  shows "woke (put_endpoint e ep a) (put_endpoint e ep b)"
proof -
  obtain h s l i where b: "b = a\<lparr>tcbs := h, scheds := s, cpu_load := l, ipis_sent := i\<rparr>"
    "\<forall>c. current (s c) = current (scheds a c) \<and> idle (s c) = idle (scheds a c) \<and>
       sched_cpu_id (s c) = sched_cpu_id (scheds a c)"
    "\<forall>p. map_option (\<lambda>x. x\<lparr>run_queue_next := None, preferred_cpu := 0\<rparr>) (h p) =
       map_option (\<lambda>x. x\<lparr>run_queue_next := None, preferred_cpu := 0\<rparr>) (tcbs a p)"
    using assms unfolding woke_def by blast
  then show ?thesis unfolding b(1) put_endpoint_def by (intro wokeI) simp_all
qed

text \<open>Both passes of the endpoint arm together.\<close>

lemma wake_both:
  assumes q: "wq_rep (tcbs k) (send_head ep, send_tail ep) ss" "wq_rep (tcbs k) (recv_head ep, recv_tail ep) rs"
    "set ss \<inter> set rs = {}" and w: "\<forall>t \<in> set ss \<union> set rs. \<exists>x. wakeable k Q t x" and r: "run_queues k Q"
    and e: "endpoints k e = Some ep"
  shows "\<exists>k1 k2 Q'. wake_queue (send_head ep) k = ret k1 \<and> endpoints k1 = endpoints k \<and>
    wake_queue (recv_head ep) (put_endpoint e (ep\<lparr>send_head := None, send_tail := None\<rparr>) k1) = ret k2 \<and>
    run_queues k2 Q' \<and> queued Q' = queued Q \<union> (set ss \<union> set rs) \<and>
    woke (put_endpoint e (ep\<lparr>send_head := None, send_tail := None\<rparr>) (upd_threads (set ss \<union> set rs) woken k)) k2"
proof -
  let ?p = "put_endpoint e (ep\<lparr>send_head := None, send_tail := None\<rparr>)"
  obtain k1 Q1 where k1: "wake_queue (send_head ep) k = ret k1" "run_queues k1 Q1" "queued Q1 = queued Q \<union> set ss"
    "woke (upd_threads (set ss) woken k) k1"
    using wake_wait_queue [OF q(1) _ r] w by blast
  have wq: "wq_rep (tcbs (?p k1)) (recv_head ep, recv_tail ep) rs"
    using woke_wq_rep [OF k1(4) upd_threads_wq [OF q(2)]] q(3) by auto
  have wk: "\<forall>t \<in> set rs. \<exists>x. wakeable (?p k1) Q1 t x"
  proof
    fix t assume t: "t \<in> set rs"
    then obtain x where x: "wakeable k Q t x" using w by blast
    have "t \<notin> set ss" using t q(3) by blast
    from wakeable_woke_set [OF wakeable_threads [OF x this] k1(4,3) this]
    show "\<exists>x. wakeable (?p k1) Q1 t x" by simp
  qed
  obtain k2 Q2 where k2: "wake_queue (recv_head ep) (?p k1) = ret k2" "run_queues k2 Q2"
    "queued Q2 = queued Q1 \<union> set rs" "woke (upd_threads (set rs) woken (?p k1)) k2"
    using wake_wait_queue [OF wq wk] k1(2) by auto
  have "woke (?p (upd_threads (set rs) woken (upd_threads (set ss) woken k))) (?p (upd_threads (set rs) woken k1))"
    by (rule woke_put_endpoint [OF woke_upd_threads [OF k1(4) woken_links(2)]])
  with k2(4) have "woke (?p (upd_threads (set rs \<union> set ss) woken k)) k2"
    using woke_trans q(3) by (simp add: upd_threads_set Int_commute)
  then show ?thesis
    using k1 k2 woke_fields(10) [OF k1(4)] by (auto simp: upd_threads_reads Un_commute Un_assoc)
qed


section \<open>Destroying threads\<close>

definition without :: "ptr \<Rightarrow> nat \<Rightarrow> nat set \<Rightarrow> (nat \<Rightarrow> nat \<Rightarrow> ptr list) \<Rightarrow> nat \<Rightarrow> nat \<Rightarrow> ptr list" where
  "without t p C Q c q = (if c \<in> C \<and> q = p then remove1 t (Q c q) else Q c q)"

lemma without_empty [simp]: "without t p {} Q = Q"
  by (simp add: without_def fun_eq_iff)

lemma without_insert:
  "c \<notin> C \<Longrightarrow> without t p C (Q(c := (Q c)(p := remove1 t (Q c p)))) = without t p (insert c C) Q"
  by (auto simp: without_def fun_eq_iff)

lemma remove_from_cpus_ok:
  assumes "run_queues k Q" "\<forall>c \<in> set cs. c < MAX_CPUS" "distinct cs" "p < NUM_PRIORITY_LEVELS"
  shows "\<exists>k'. remove_from_cpus cs t p k = ret k' \<and> run_queues k' (without t p (set cs) Q) \<and> queues_only k k'"
  using assms(1-3)
proof (induction cs arbitrary: k Q)
  case Nil
  then show ?case by simp
next
  case (Cons c cs)
  have c: "c < MAX_CPUS" "c \<notin> set cs" using Cons.prems by auto
  define Q1 where "Q1 = Q(c := (Q c)(p := remove1 t (Q c p)))"
  obtain k1 where k1: "remove_and_clear c p t k = ret k1" "run_queues k1 Q1" "queues_only k k1"
    using remove_and_clear_ok [OF Cons.prems(1) c(1) assms(4)] unfolding Q1_def by blast
  obtain k2 where k2: "remove_from_cpus cs t p k1 = ret k2" "run_queues k2 (without t p (set cs) Q1)"
    "queues_only k1 k2"
    using Cons.IH [OF k1(2)] Cons.prems by auto
  have "without t p (set cs) Q1 = without t p (set (c # cs)) Q"
    unfolding Q1_def using without_insert [OF c(2)] by simp
  then show ?case
    using k1 k2 queues_only_trans [OF k1(3) k2(3)] assms(4) by (auto simp: remove_from_queue_def)
qed

lemma queued_without:
  assumes "run_queues k Q" "\<forall>c q. t \<in> set (Q c q) \<longrightarrow> q = p \<and> c \<in> C"
  shows "queued (without t p C Q) = queued Q - {t}"
proof -
  have "set (without t p C Q c q) = set (Q c q) - {t}" for c q
  proof (cases "c \<in> C \<and> q = p")
    case True
    then show ?thesis
      using set_remove1_eq [OF run_queues_distinct [OF assms(1), of c q]] by (simp add: without_def)
  next
    case False
    then have "t \<notin> set (Q c q)" using assms(2) by blast
    moreover have "without t p C Q c q = Q c q" unfolding without_def by (rule if_not_P [OF False])
    ultimately show ?thesis by simp
  qed
  then show ?thesis unfolding queued_def by blast
qed

lemma run_queues_free:
  assumes "run_queues k Q" "t \<notin> queued Q"
  shows "run_queues (k\<lparr>tcbs := (tcbs k)(t := None)\<rparr>) Q"
proof -
  have out: "t \<notin> set (Q c p)" for c p using assms(2) by (auto simp: queued_def)
  have ne: "u \<noteq> t" if "u \<in> set (Q c p)" for u c p using out that by blast
  have "fifo (nxt run_queue_next ((tcbs k)(t := None))) a z (Q c p) = fifo (nxt run_queue_next (tcbs k)) a z (Q c p)"
    for a z c p
    by (rule fifo_cong) (use ne in \<open>auto simp: nxt_def\<close>)
  then have rep: "rq_rep ((tcbs k)(t := None)) q (Q c p) = rq_rep (tcbs k) q (Q c p)" for c p q
    using ne by (simp add: rq_rep_def)
  have live: "(\<exists>x. ((tcbs k)(t := None)) u = Some x \<and> magic x = TCB_MAGIC) =
      (\<exists>x. tcbs k u = Some x \<and> magic x = TCB_MAGIC)" if "u \<in> set (Q c p)" for u c p
    using ne [OF that] by simp
  show ?thesis
    using assms(1) live unfolding run_queues_def by (simp add: rep)
qed

lemma run_queues_frames [simp]: "run_queues (k\<lparr>frames := b\<rparr>) Q = run_queues k Q"
  by (simp add: run_queues_def)

text \<open>The kernel stack of a thread: four pages of the direct map that are in use.\<close>

definition stack_ok :: "kernel \<Rightarrow> tcb \<Rightarrow> nat \<Rightarrow> bool" where
  "stack_ok k x phys \<longleftrightarrow>
     kernel_stack_top x = DIRECT_MAP_BASE + phys + KERNEL_STACK_PAGES * PAGE_SIZE \<and>
     aligned STACK_ORDER phys \<and> buddy_ok (frames k) \<and> pages STACK_ORDER phys \<inter> free_frames (frames k) = {} \<and>
     nblocks (free_blocks (frames k)) < POOL_SIZE"

lemma queues_only_frames: "queues_only k k' \<Longrightarrow> frames k' = frames k"
  by (auto simp: queues_only_def)

text \<open>The IPC object a thread is blocked on is live; \<open>xs\<close> is the wait queue of that object if it is
  an endpoint.\<close>

definition blocked_rep :: "kernel \<Rightarrow> tcb \<Rightarrow> ptr list \<Rightarrow> bool" where
  "blocked_rep k x xs \<longleftrightarrow> (case blocked_on_object x of None \<Rightarrow> True | Some ob \<Rightarrow> (case ipc_state x of
      BlockedOnSend \<Rightarrow> (\<exists>ep. endpoints k ob = Some ep \<and> wq_rep (tcbs k) (send_head ep, send_tail ep) xs)
    | BlockedOnRecv \<Rightarrow> (\<exists>ep. endpoints k ob = Some ep \<and> wq_rep (tcbs k) (recv_head ep, recv_tail ep) xs)
    | BlockedOnSignal \<Rightarrow> signals k ob \<noteq> None
    | BlockedOnEventQueue \<Rightarrow> event_queues k ob \<noteq> None
    | BlockedOnWaitSet \<Rightarrow> wait_sets k ob \<noteq> None
    | _ \<Rightarrow> True))"

text \<open>That object no longer refers to the thread, and a wait queue keeps its other threads in their order.\<close>

definition left_waits :: "kernel \<Rightarrow> ptr \<Rightarrow> tcb \<Rightarrow> ptr list \<Rightarrow> bool" where
  "left_waits k t x xs \<longleftrightarrow> (case blocked_on_object x of None \<Rightarrow> True | Some ob \<Rightarrow> (case ipc_state x of
      BlockedOnSend \<Rightarrow> (\<exists>ep. endpoints k ob = Some ep \<and> wq_rep (tcbs k) (send_head ep, send_tail ep) (filter (\<lambda>u. u \<noteq> t) xs))
    | BlockedOnRecv \<Rightarrow> (\<exists>ep. endpoints k ob = Some ep \<and> wq_rep (tcbs k) (recv_head ep, recv_tail ep) (filter (\<lambda>u. u \<noteq> t) xs))
    | BlockedOnSignal \<Rightarrow> (\<exists>s. signals k ob = Some s \<and> sig_waiter s \<noteq> Some t)
    | BlockedOnEventQueue \<Rightarrow> (\<exists>q. event_queues k ob = Some q \<and> eq_waiter q \<noteq> Some t)
    | BlockedOnWaitSet \<Rightarrow> (\<exists>w. wait_sets k ob = Some w \<and> ws_waiter w \<noteq> Some t)
    | _ \<Rightarrow> True))"

lemma left_waits_upd: "left_waits k t x xs \<Longrightarrow> left_waits (k\<lparr>tcbs := (tcbs k)(t := y)\<rparr>) t x xs"
  unfolding left_waits_def
  by (auto split: option.split_asm ipc_thread_state.split_asm elim!: wq_rep_agree)

lemma left_waits_cong:
  assumes "left_waits k t x xs" "tcbs k' = tcbs k" "endpoints k' = endpoints k" "signals k' = signals k"
    "event_queues k' = event_queues k" "wait_sets k' = wait_sets k" "ipc_state y = ipc_state x" "blocked_on_object y = blocked_on_object x"
  shows "left_waits k' t y xs"
  using assms by (cases "blocked_on_object x"; cases "ipc_state x"; simp add: left_waits_def)

lemma run_queues_wq:
  assumes "run_queues k Q" "wq_keeps T (tcbs k) h"
  shows "run_queues (k\<lparr>tcbs := h\<rparr>) Q"
proof (rule run_queues_cong [OF assms(1)])
  fix p
  show "map_option (\<lambda>x. (run_queue_next x, magic x)) (tcbs (k\<lparr>tcbs := h\<rparr>) p) =
      map_option (\<lambda>x. (run_queue_next x, magic x)) (tcbs k p)"
  proof (cases "tcbs k p")
    case None
    then have "h p = None" using assms(2) by (auto simp: wq_keeps_def only_links_def dest: spec [of _ p])
    then show ?thesis using None by simp
  qed (use wq_keeps_tcb [OF assms(2), of p] in auto)
qed simp_all

text \<open>Threads keep everything but the link of their wait queue.\<close>

definition keeps_threads :: "kernel \<Rightarrow> kernel \<Rightarrow> bool" where
  "keeps_threads k k' \<longleftrightarrow> (\<forall>u y. tcbs k u = Some y \<longrightarrow> (\<exists>n. tcbs k' u = Some (y\<lparr>ipc_wait_next := n\<rparr>)))"

lemma keeps_threads_same: "tcbs k' = tcbs k \<Longrightarrow> keeps_threads k k'"
  unfolding keeps_threads_def by (intro allI impI, rule_tac x = "ipc_wait_next y" in exI) simp

lemma unlink_step:
  assumes "wq_rep (tcbs k) (a, z) xs" "run_queues k Q"
  shows "\<exists>b w h. unlink_from_wait_queue t (a, z) (tcbs k) = ret (t \<in> set xs, (b, w), h) \<and>
    wq_rep h (b, w) (filter (\<lambda>u. u \<noteq> t) xs) \<and> run_queues (k\<lparr>tcbs := h\<rparr>) Q \<and> keeps_threads k (k\<lparr>tcbs := h\<rparr>)"
proof -
  have "remove1 t xs = filter (\<lambda>u. u \<noteq> t) xs"
    using wq_rep_lseg [OF assms(1)] by (simp add: distinct_remove1_removeAll removeAll_filter_not_eq eq_commute [of t])
  moreover obtain b w h where h: "unlink_from_wait_queue t (a, z) (tcbs k) = ret (t \<in> set xs, (b, w), h)"
      "wq_rep h (b, w) (remove1 t xs)" "wq_keeps (set xs) (tcbs k) h"
    using wq_remove_law [OF assms(1), of t] by auto
  moreover have "keeps_threads k (k\<lparr>tcbs := h\<rparr>)" using wq_keeps_tcb [OF h(3)] by (simp add: keeps_threads_def)
  ultimately show ?thesis using run_queues_wq [OF assms(2) h(3)] by auto
qed

lemma forget_object:
  assumes "run_queues k1 Q" "frames k1 = frames k" "keeps_threads k k1" "left_waits k1 t x xs" "tcbs k t = Some x"
  shows "\<exists>k' y. upd_tcb t (\<lambda>x. x\<lparr>blocked_on_object := None\<rparr>) k1 = ret k' \<and> run_queues k' Q \<and> frames k' = frames k \<and>
    tcbs k' t = Some y \<and> kernel_stack_top y = kernel_stack_top x \<and> left_waits k' t x xs \<and>
    (\<forall>u y. u \<noteq> t \<longrightarrow> tcbs k u = Some y \<longrightarrow> (\<exists>n. tcbs k' u = Some (y\<lparr>ipc_wait_next := n\<rparr>)))"
proof -
  obtain n where n: "tcbs k1 t = Some (x\<lparr>ipc_wait_next := n\<rparr>)" using assms(3,5) by (auto simp: keeps_threads_def)
  let ?y = "x\<lparr>ipc_wait_next := n, blocked_on_object := None\<rparr>"
  have "run_queues (k1\<lparr>tcbs := (tcbs k1)(t \<mapsto> ?y)\<rparr>) Q" by (rule run_queues_tcb [OF assms(1) n]) simp_all
  moreover have "left_waits (k1\<lparr>tcbs := (tcbs k1)(t \<mapsto> ?y)\<rparr>) t x xs" by (rule left_waits_upd [OF assms(4)])
  ultimately show ?thesis using n assms(2,3) by (simp add: upd_tcb_def keeps_threads_def)
qed

lemma unlink_blocked_ok:
  assumes r: "run_queues k Q" and x: "tcbs k t = Some x" and b: "blocked_rep k x xs"
  shows "\<exists>k' y. unlink_blocked t k = ret k' \<and> run_queues k' Q \<and> frames k' = frames k \<and>
    tcbs k' t = Some y \<and> kernel_stack_top y = kernel_stack_top x \<and> left_waits k' t x xs \<and>
    (\<forall>u y. u \<noteq> t \<longrightarrow> tcbs k u = Some y \<longrightarrow> (\<exists>n. tcbs k' u = Some (y\<lparr>ipc_wait_next := n\<rparr>)))"
proof (cases "blocked_on_object x")
  case None
  then show ?thesis using r x keeps_threads_same [of k k] by (simp add: unlink_blocked_def left_waits_def keeps_threads_def)
next
  case (Some ob)
  note forget = forget_object [OF _ _ _ _ x]
  note same = keeps_threads_same
  show ?thesis
  proof (cases "ipc_state x")
    case BlockedOnSend
    then obtain ep where ep: "endpoints k ob = Some ep" "wq_rep (tcbs k) (send_head ep, send_tail ep) xs"
      using b Some by (auto simp: blocked_rep_def)
    then obtain a z h where h: "unlink_from_wait_queue t (send_head ep, send_tail ep) (tcbs k) = ret (t \<in> set xs, (a, z), h)"
        "wq_rep h (a, z) (filter (\<lambda>u. u \<noteq> t) xs)" "run_queues (k\<lparr>tcbs := h\<rparr>) Q" "keeps_threads k (k\<lparr>tcbs := h\<rparr>)"
      using unlink_step [OF ep(2) r] by blast
    let ?k = "(put_endpoint ob (ep\<lparr>send_head := a, send_tail := z\<rparr>) k)\<lparr>tcbs := h\<rparr>"
    have "run_queues ?k Q" "frames ?k = frames k" "keeps_threads k ?k" "left_waits ?k t x xs"
      using h(2-4) Some BlockedOnSend by (simp_all add: put_endpoint_def keeps_threads_def left_waits_def run_queues_def)
    from forget [OF this] show ?thesis using x Some BlockedOnSend ep(1) h(1) by (simp add: unlink_blocked_def)
  next
    case BlockedOnRecv
    then obtain ep where ep: "endpoints k ob = Some ep" "wq_rep (tcbs k) (recv_head ep, recv_tail ep) xs"
      using b Some by (auto simp: blocked_rep_def)
    then obtain a z h where h: "unlink_from_wait_queue t (recv_head ep, recv_tail ep) (tcbs k) = ret (t \<in> set xs, (a, z), h)"
        "wq_rep h (a, z) (filter (\<lambda>u. u \<noteq> t) xs)" "run_queues (k\<lparr>tcbs := h\<rparr>) Q" "keeps_threads k (k\<lparr>tcbs := h\<rparr>)"
      using unlink_step [OF ep(2) r] by blast
    let ?k = "(put_endpoint ob (ep\<lparr>recv_head := a, recv_tail := z\<rparr>) k)\<lparr>tcbs := h\<rparr>"
    have "run_queues ?k Q" "frames ?k = frames k" "keeps_threads k ?k" "left_waits ?k t x xs"
      using h(2-4) Some BlockedOnRecv by (simp_all add: put_endpoint_def keeps_threads_def left_waits_def run_queues_def)
    from forget [OF this] show ?thesis using x Some BlockedOnRecv ep(1) h(1) by (simp add: unlink_blocked_def)
  next
    case BlockedOnSignal
    then obtain s where s: "signals k ob = Some s" using b Some by (auto simp: blocked_rep_def)
    let ?k = "if sig_waiter s = Some t then put_signal ob (s\<lparr>sig_waiter := None\<rparr>) k else k"
    have "run_queues ?k Q" "frames ?k = frames k" "keeps_threads k ?k" "left_waits ?k t x xs"
      using r s Some BlockedOnSignal by (simp_all add: put_defs left_waits_def run_queues_def same)
    from forget [OF this] show ?thesis using x Some BlockedOnSignal s by (simp add: unlink_blocked_def)
  next
    case BlockedOnEventQueue
    then obtain q where q: "event_queues k ob = Some q" using b Some by (auto simp: blocked_rep_def)
    let ?k = "if eq_waiter q = Some t then put_event_queue ob (q\<lparr>eq_waiter := None\<rparr>) k else k"
    have "run_queues ?k Q" "frames ?k = frames k" "keeps_threads k ?k" "left_waits ?k t x xs"
      using r q Some BlockedOnEventQueue by (simp_all add: put_defs left_waits_def run_queues_def same)
    from forget [OF this] show ?thesis using x Some BlockedOnEventQueue q by (simp add: unlink_blocked_def)
  next
    case BlockedOnWaitSet
    then obtain w where w: "wait_sets k ob = Some w" using b Some by (auto simp: blocked_rep_def)
    let ?k = "if ws_waiter w = Some t then put_wait_set ob (w\<lparr>ws_waiter := None\<rparr>) k else k"
    have "run_queues ?k Q" "frames ?k = frames k" "keeps_threads k ?k" "left_waits ?k t x xs"
      using r w Some BlockedOnWaitSet by (simp_all add: put_defs left_waits_def run_queues_def same)
    from forget [OF this] show ?thesis using x Some BlockedOnWaitSet w by (simp add: unlink_blocked_def)
  next
    case IpcNone
    then show ?thesis using forget [OF r refl same [OF refl], of xs] x Some by (simp add: unlink_blocked_def left_waits_def)
  next
    case BlockedOnReply
    then show ?thesis using forget [OF r refl same [OF refl], of xs] x Some by (simp add: unlink_blocked_def left_waits_def)
  qed
qed

lemma blocked_rep_woke:
  assumes "queues_only k k'" "blocked_rep k x xs" "ipc_state y = ipc_state x" "blocked_on_object y = blocked_on_object x"
  shows "blocked_rep k' y xs"
  using assms(2-4) woke_wq_rep [OF queues_only_woke [OF assms(1)]] assms(1) unfolding blocked_rep_def queues_only_def
  by (auto split: option.split ipc_thread_state.split)

lemma blocked_rep_exited:
  assumes "tcbs k t = Some x" "blocked_rep k x xs"
  shows "blocked_rep (k\<lparr>tcbs := (tcbs k)(t \<mapsto> x\<lparr>state := Exited\<rparr>)\<rparr>) x xs"
proof -
  let ?h = "(tcbs k)(t \<mapsto> x\<lparr>state := Exited\<rparr>)"
  have "nxt ipc_wait_next ?h = nxt ipc_wait_next (tcbs k)" using assms(1) by (auto simp: nxt_def)
  then have "wq_rep ?h q xs" if "wq_rep (tcbs k) q xs" for q using that by (simp add: wq_rep_def)
  then show ?thesis
    using assms(2) unfolding blocked_rep_def by (auto split: option.split_asm ipc_thread_state.split_asm)
qed

lemma dealloc_tcb_ok:
  assumes r: "run_queues k Q" and x: "tcbs k t = Some x" "priority x < NUM_PRIORITY_LEVELS" "blocked_rep k x xs"
    and n: "cpu_count k \<le> MAX_CPUS" "\<forall>c < cpu_count k. current (scheds k c) \<noteq> Some t"
    and st: "stack_ok k x phys"
  shows "\<exists>k'. dealloc_tcb t k = ret k' \<and> tcbs k' t = None \<and>
    (t \<notin> queued (without t (priority x) {..<cpu_count k} Q) \<longrightarrow>
       run_queues k' (without t (priority x) {..<cpu_count k} Q)) \<and> left_waits k' t x xs \<and>
    (\<forall>u y. u \<noteq> t \<longrightarrow> tcbs k u = Some y \<longrightarrow> (\<exists>n m. tcbs k' u = Some (y\<lparr>run_queue_next := n, ipc_wait_next := m\<rparr>))) \<and>
    buddy_ok (frames k') \<and> free_frames (frames k') = free_frames (frames k) \<union> pages STACK_ORDER phys"
proof -
  let ?k = "k\<lparr>tcbs := (tcbs k)(t \<mapsto> x\<lparr>state := Exited\<rparr>)\<rparr>"
  let ?Q = "without t (priority x) {..<cpu_count k} Q"
  have r0: "run_queues ?k Q" by (rule run_queues_tcb [OF r x(1)]) simp_all
  obtain k1 where k1: "remove_from_cpus [0..<cpu_count k] t (priority x) ?k = ret k1"
    "run_queues k1 ?Q" "queues_only ?k k1"
    using remove_from_cpus_ok [OF r0, of "[0..<cpu_count k]" "priority x" t] n(1) x(2)
    by (auto simp: atLeast0LessThan)
  obtain n where t1: "tcbs k1 t = Some (x\<lparr>state := Exited, run_queue_next := n\<rparr>)"
    using queues_only_tcb [OF k1(3), of t] by auto
  let ?x = "x\<lparr>state := Exited, run_queue_next := n\<rparr>"
  have cur: "\<not> (\<exists>c \<in> set [0..<cpu_count k1]. current (scheds k1 c) = Some t)"
    using n(2) queues_onlyD(2) [OF k1(3)] queues_only_fields(3) [OF k1(3)] by simp
  have "blocked_rep ?k x xs" by (rule blocked_rep_exited [OF x(1,3)])
  then have b1: "blocked_rep k1 ?x xs" by (rule blocked_rep_woke [OF k1(3)]) simp_all
  obtain k2 y where k2: "unlink_blocked t k1 = ret k2" "run_queues k2 ?Q" "frames k2 = frames k1"
      "tcbs k2 t = Some y" "kernel_stack_top y = kernel_stack_top x" "left_waits k2 t ?x xs"
      "\<forall>u y. u \<noteq> t \<longrightarrow> tcbs k1 u = Some y \<longrightarrow> (\<exists>n. tcbs k2 u = Some (y\<lparr>ipc_wait_next := n\<rparr>))"
    using unlink_blocked_ok [OF k1(2) t1 b1] by auto
  have fr: "frames k2 = frames k" using queues_only_frames [OF k1(3)] k2(3) by simp
  obtain b where b: "buddy_free phys STACK_ORDER (frames k) = ret b" "buddy_ok b"
    "free_frames b = free_frames (frames k) \<union> pages STACK_ORDER phys"
    using free_ok [of "frames k" STACK_ORDER phys] st by (auto simp: stack_ok_def STACK_ORDER_def MAX_ORDER_def)
  let ?k' = "k2\<lparr>frames := b, tcbs := (tcbs k2)(t := None)\<rparr>"
  have "dealloc_tcb t k = ret ?k'"
    using x(1) n(1) k1(1) cur st fr k2(1,4,5) b(1)
    by (simp add: dealloc_tcb_def upd_tcb_def stack_ok_def free_frames_at_def)
  moreover have "run_queues ?k' ?Q" if "t \<notin> queued ?Q"
    using run_queues_free [OF k2(2) that] by (simp add: run_queues_def)
  moreover have "left_waits ?k' t x xs"
    by (rule left_waits_cong [OF left_waits_upd [OF k2(6), of None]]) simp_all
  moreover have "\<exists>n m. tcbs ?k' u = Some (y\<lparr>run_queue_next := n, ipc_wait_next := m\<rparr>)" if u: "u \<noteq> t" "tcbs k u = Some y" for u y
  proof -
    obtain n where "tcbs k1 u = Some (y\<lparr>run_queue_next := n\<rparr>)" using queues_only_tcb [OF k1(3), of u y] u by auto
    then show ?thesis using k2(7) u(1) by (simp, blast)
  qed
  ultimately show ?thesis using b(2,3) by auto
qed

section \<open>Properties\<close>

text \<open>(C29) Destroying an endpoint strands nobody. Deallocating an endpoint takes it out of its wait
  set, makes every thread of its send and receive queue ready and puts it on a run queue, and frees
  the endpoint; the wait queues of all other endpoints and all other run-queue entries are kept.\<close>

theorem dealloc_endpoint_wakes:
  assumes "endpoints k e = Some ep" "ep_queues k S R" "run_queues k Q"
    "\<forall>t \<in> set (S e) \<union> set (R e). \<exists>x. wakeable k Q t x"
    "\<forall>ws. ep_wait_set ep = Some ws \<longrightarrow> (\<exists>w. wait_sets k ws = Some w \<and> ws_ok w)"
  shows "\<exists>k' Q'. dealloc_endpoint e k = ret k' \<and> endpoints k' = (endpoints k)(e := None) \<and>
    run_queues k' Q' \<and> queued Q' = queued Q \<union> (set (S e) \<union> set (R e)) \<and>
    (\<forall>t \<in> set (S e) \<union> set (R e). \<exists>y. tcbs k' t = Some y \<and> state y = Ready \<and> ipc_state y = IpcNone) \<and>
    ep_queues k' S R"
proof -
  note q = ep_queuesD [OF assms(2,1)]
  let ?T = "set (S e) \<union> set (R e)"
  obtain f where f: "leave_wait_set (ep_wait_set ep) e k = ret (k\<lparr>wait_sets := f\<rparr>)"
    using leave_wait_set_ok [OF assms(5)] by blast
  define ep1 where "ep1 = (if ep_wait_set ep = None then ep else ep\<lparr>ep_wait_set := None, ep_member_idx := 0\<rparr>)"
  define ka where "ka = put_endpoint e ep1 (k\<lparr>wait_sets := f\<rparr>)"
  have hd: "send_head ep1 = send_head ep" "send_tail ep1 = send_tail ep" "recv_head ep1 = recv_head ep"
    "recv_tail ep1 = recv_tail ep" by (simp_all add: ep1_def)
  have ka: "tcbs ka = tcbs k" "endpoints ka = (endpoints k)(e \<mapsto> ep1)" "run_queues ka Q"
    "\<forall>t \<in> ?T. \<exists>x. wakeable ka Q t x"
    using assms(3,4) by (simp_all add: ka_def)
  obtain k1 k2 Q' where w: "wake_queue (send_head ep1) ka = ret k1" "endpoints k1 = endpoints ka"
    "wake_queue (recv_head ep1) (put_endpoint e (ep1\<lparr>send_head := None, send_tail := None\<rparr>) k1) = ret k2"
    "run_queues k2 Q'" "queued Q' = queued Q \<union> ?T"
    "woke (put_endpoint e (ep1\<lparr>send_head := None, send_tail := None\<rparr>) (upd_threads ?T woken ka)) k2"
    using wake_both [of ka ep1 "S e" "R e" Q e] q(1,2,5) ka hd by auto
  let ?b = "put_endpoint e (ep1\<lparr>send_head := None, send_tail := None\<rparr>) (upd_threads ?T woken ka)"
  let ?k = "k2\<lparr>endpoints := (endpoints k2)(e := None)\<rparr>"
  have e2: "endpoints k2 = (endpoints k)(e \<mapsto> ep1\<lparr>send_head := None, send_tail := None\<rparr>)"
    using woke_fields(10) [OF w(6)] ka(2) by (simp add: upd_threads_reads)
  have run: "dealloc_endpoint e k = ret ?k"
    using assms(1) f w(1-3) ka(2) e2
    by (simp add: dealloc_endpoint_def ep1_def [symmetric] ka_def [symmetric] Let_def)
  have ready: "\<exists>y. tcbs k2 t = Some y \<and> state y = Ready \<and> ipc_state y = IpcNone" if t: "t \<in> ?T" for t
  proof -
    obtain x where "wakeable k Q t x" using assms(4) t by blast
    then have "tcbs ?b t = Some (woken x)" using wakeable_tcb [of k Q t x] t ka(1) by (simp add: upd_threads_def map_threads_def)
    from woke_tcb [OF w(6) this] show ?thesis by (auto simp: woken_def)
  qed
  have "ep_rep (tcbs k2) d dp (S d) (R d)" if d: "d \<noteq> e" "endpoints k d = Some dp" for d dp
  proof -
    have r: "ep_rep (tcbs k) d dp (S d) (R d)" using assms(2) d(2) by (simp add: ep_queues_def)
    have "t \<notin> ?T" if "t \<in> set (S d) \<union> set (R d)" for t
      using that r q(3,4) [of t] waiting_unique [of "tcbs k" _ d t] d(1) unfolding ep_rep_def by blast
    then have "\<forall>t \<in> set (S d) \<union> set (R d). tcbs ?b t = tcbs k t"
      using ka(1) by (simp add: upd_threads_def map_threads_def)
    then have "ep_rep (tcbs ?b) d dp (S d) (R d)"
      using r wq_rep_agree [of "tcbs k" _ "S d" "tcbs ?b"] wq_rep_agree [of "tcbs k" _ "R d" "tcbs ?b"]
      by (simp add: ep_rep_def waiting_def)
    then show ?thesis by (rule woke_ep_rep [OF w(6)])
  qed
  then have "ep_queues ?k S R" using e2 by (simp add: ep_queues_def)
  moreover have "endpoints ?k = (endpoints k)(e := None)" using e2 by simp
  moreover have "run_queues ?k Q'" using w(4) by simp
  ultimately show ?thesis using run w(5) ready by auto
qed


text \<open>A state in which thread 7 is blocked in the send queue of endpoint 20.\<close>

definition demo_sender :: tcb where
  "demo_sender = blank_tcb\<lparr>state := Blocked, ipc_state := BlockedOnSend, blocked_on_object := Some 20,
     kernel_stack_top := DIRECT_MAP_BASE + KERNEL_STACK_PAGES * PAGE_SIZE\<rparr>"

definition demo_sender_kernel :: kernel where
  "demo_sender_kernel =
     (put_endpoint 20 (EndpointState_new\<lparr>send_head := Some 7, send_tail := Some 7\<rparr>) demo_kernel)
       \<lparr>tcbs := (tcbs demo_kernel)(7 \<mapsto> demo_sender)\<rparr>"

lemma demo_sender_ok:
  "run_queues demo_sender_kernel (\<lambda>c p. [])" "wakeable demo_sender_kernel (\<lambda>c p. []) 7 demo_sender"
  "ep_queues demo_sender_kernel ((\<lambda>_. [])(20 := [7])) (\<lambda>_. [])"
proof -
  have "run_queues (put_endpoint 20 (EndpointState_new\<lparr>send_head := Some 7, send_tail := Some 7\<rparr>) demo_kernel) (\<lambda>c p. [])"
    using demo_kernel_queues by simp
  from run_queues_tcb [OF this, of 7 blank_tcb demo_sender]
  show "run_queues demo_sender_kernel (\<lambda>c p. [])"
    using demo_kernel_tcb(1) [of 7] by (simp add: demo_sender_kernel_def demo_sender_def)
  show "wakeable demo_sender_kernel (\<lambda>c p. []) 7 demo_sender"
    by (simp add: wakeable_def demo_sender_kernel_def demo_sender_def blank_tcb_def queued_def places_def
        PRIORITY_DEFAULT_def NUM_PRIORITY_LEVELS_def demo_kernel_def blank_kernel_def put_endpoint_def MAX_CPUS_def)
  show "ep_queues demo_sender_kernel ((\<lambda>_. [])(20 := [7])) (\<lambda>_. [])"
    by (simp add: ep_queues_def demo_sender_kernel_def put_endpoint_def demo_kernel_def blank_kernel_def
        ep_rep_def wq_rep_def fifo_def last_opt_def EndpointState_new_def nxt_def demo_sender_def blank_tcb_def waiting_def)
qed

theorem dealloc_endpoint_wakes_witness:
  "\<exists>k' Q'. dealloc_endpoint 20 demo_sender_kernel = ret k' \<and>
    endpoints k' = (endpoints demo_sender_kernel)(20 := None) \<and>
    run_queues k' Q' \<and> queued Q' = {7} \<and> (\<exists>y. tcbs k' 7 = Some y \<and> state y = Ready \<and> ipc_state y = IpcNone)"
proof -
  let ?ep = "EndpointState_new\<lparr>send_head := Some 7, send_tail := Some 7\<rparr>"
  have "endpoints demo_sender_kernel 20 = Some ?ep" by (simp add: demo_sender_kernel_def)
  moreover have "\<forall>t \<in> set (((\<lambda>_. [])(20 := [7])) 20) \<union> set []. \<exists>x. wakeable demo_sender_kernel (\<lambda>c p. []) t x"
    using demo_sender_ok(2) by auto
  moreover have "ep_wait_set ?ep = None" by (simp add: EndpointState_new_def)
  moreover have "queued (\<lambda>c p. []) = {}" by (simp add: queued_def)
  ultimately show ?thesis
    using dealloc_endpoint_wakes [OF _ demo_sender_ok(3,1), of 20 ?ep] by simp blast
qed

text \<open>(C30) Destroying a signal. After a signal object is deallocated no interrupt line leads to it:
  every line that did is unrouted and masked, and an interrupt on it is acknowledged without
  touching the freed signal. A blocked waiter is made ready with the value zero.\<close>

theorem dealloc_signal_unroutes:
  assumes "signals k sig = Some s" "run_queues k Q"
    "\<forall>t. sig_waiter s = Some t \<longrightarrow> (\<exists>x. wakeable k Q t x)"
    "\<forall>ws. sig_wait_set s = Some ws \<longrightarrow> (\<exists>w. wait_sets k ws = Some w \<and> ws_ok w)"
  shows "\<exists>k' Q'. dealloc_signal sig k = ret k' \<and> signals k' = (signals k)(sig := None) \<and>
    run_queues k' Q' \<and> queued Q' = queued Q \<union> set_option (sig_waiter s) \<and>
    (\<forall>t. sig_waiter s = Some t \<longrightarrow> (\<exists>y. tcbs k' t = Some y \<and> state y = Ready \<and> wakeup_value y = 0)) \<and>
    (\<forall>irq < MAX_IRQ. irq_table k' irq \<noteq> Some sig \<and>
       (irq_table k irq = Some sig \<longrightarrow> irq_masked k' irq \<and>
          dispatch_device_irq irq k' = ret (acknowledge irq (mask_line irq k'))))"
proof -
  define T where "T = (\<lambda>i. if i < MAX_IRQ \<and> irq_table k i = Some sig then None else irq_table k i)"
  define M where "M = (\<lambda>i. irq_masked k i \<or> i < MAX_IRQ \<and> irq_table k i = Some sig)"
  define k0 where "k0 = k\<lparr>irq_table := T, irq_masked := M\<rparr>"
  have un: "unregister_signal sig k = k0" unfolding unregister_signal_frame k0_def T_def M_def by simp
  obtain f where f: "leave_wait_set (sig_wait_set s) sig k0 = ret (k0\<lparr>wait_sets := f\<rparr>)"
    using leave_wait_set_ok [of "sig_wait_set s" k0 sig] assms(4) by (auto simp: k0_def)
  define s1 where "s1 = (if sig_wait_set s = None then s else s\<lparr>sig_wait_set := None, sig_member_idx := 0\<rparr>)"
  have w1: "sig_waiter s1 = sig_waiter s" by (simp add: s1_def)
  define kb where "kb = put_signal sig (s1\<lparr>sig_waiter := None\<rparr>) (k0\<lparr>wait_sets := f\<rparr>)"
  have kb: "run_queues kb Q" "\<And>t x. wakeable kb Q t x = wakeable k Q t x" "irq_table kb = T" "irq_masked kb = M"
    "signals kb = (signals k)(sig \<mapsto> s1\<lparr>sig_waiter := None\<rparr>)"
    using assms(2) by (simp_all add: kb_def k0_def put_signal_def wakeable_def places_def run_queues_def)
  have start: "dealloc_signal sig k = (case sig_waiter s of
      None \<Rightarrow> ret ((put_signal sig s1 (k0\<lparr>wait_sets := f\<rparr>))\<lparr>signals := (signals k)(sig := None)\<rparr>)
    | Some t \<Rightarrow> do { k \<leftarrow> ready_waiter (\<lambda>x. x\<lparr>wakeup_value := 0, ipc_state := IpcNone, state := Ready\<rparr>) t kb;
                    ret (k\<lparr>signals := (signals k)(sig := None)\<rparr>) })"
    using assms(1) f un
    by (cases "sig_wait_set s")
      (simp_all add: dealloc_signal_def s1_def kb_def k0_def put_signal_def Let_def split: option.split)
  have route: "\<forall>irq < MAX_IRQ. irq_table k' irq \<noteq> Some sig \<and>
      (irq_table k irq = Some sig \<longrightarrow> irq_masked k' irq \<and>
         dispatch_device_irq irq k' = ret (acknowledge irq (mask_line irq k')))"
    if "irq_table k' = T" "irq_masked k' = M" for k'
    using that by (auto simp: T_def M_def dispatch_device_irq_def)
  show ?thesis
  proof (cases "sig_waiter s")
    case None
    let ?k = "(put_signal sig s1 (k0\<lparr>wait_sets := f\<rparr>))\<lparr>signals := (signals k)(sig := None)\<rparr>"
    have "run_queues ?k Q" using assms(2) by (simp add: k0_def put_signal_def run_queues_def)
    moreover have "irq_table ?k = T" "irq_masked ?k = M" by (simp_all add: k0_def put_signal_def)
    ultimately show ?thesis using start None route [of ?k] by auto
  next
    case (Some t)
    let ?f = "\<lambda>x. x\<lparr>wakeup_value := 0, ipc_state := IpcNone, state := Ready\<rparr>"
    obtain x where x: "wakeable kb Q t x" using assms(3) Some kb(2) by blast
    have "keeps_links ?f" by (simp add: keeps_links_def)
    from ready_waiter_ok [OF kb(1) x this] obtain k1 c where k1: "ready_waiter ?f t kb = ret k1"
      "run_queues k1 (Q(c := (Q c)(priority x := Q c (priority x) @ [t])))"
      "woke (kb\<lparr>tcbs := (tcbs kb)(t \<mapsto> ?f x)\<rparr>) k1"
      by blast
    note wf = woke_fields [OF k1(3)]
    have irq: "irq_table k1 = T" "irq_masked k1 = M" "signals k1 = (signals k)(sig \<mapsto> s1\<lparr>sig_waiter := None\<rparr>)"
      using wf kb by simp_all
    obtain n d where "tcbs k1 t = Some ((?f x)\<lparr>run_queue_next := n, preferred_cpu := d\<rparr>)"
      using woke_tcb [OF k1(3), of t "?f x"] by auto
    then show ?thesis
      using start Some k1 irq route [of "k1\<lparr>signals := (signals k1)(sig := None)\<rparr>"] queued_append [of Q c "priority x" t]
      by auto
  qed
qed


theorem dealloc_signal_unroutes_witness:
  "irq_table demo_irq_kernel 5 = Some 60 \<and>
   (\<exists>k' Q'. dealloc_signal 60 demo_irq_kernel = ret k' \<and> signals k' = (signals demo_irq_kernel)(60 := None) \<and>
      run_queues k' Q' \<and> queued Q' = {7} \<and> (\<exists>y. tcbs k' 7 = Some y \<and> state y = Ready \<and> wakeup_value y = 0) \<and>
      irq_masked k' 5 \<and> dispatch_device_irq 5 k' = ret (acknowledge 5 (mask_line 5 k')))"
proof -
  let ?s = "SignalState_new\<lparr>sig_waiter := Some 7, has_observer := True\<rparr>"
  have "signals demo_irq_kernel 60 = Some ?s" by (simp add: demo_irq_kernel_def put_signal_def)
  moreover have r: "irq_table demo_irq_kernel 5 = Some 60" by (simp add: demo_irq_kernel_def put_signal_def)
  moreover have "\<forall>t. sig_waiter ?s = Some t \<longrightarrow> (\<exists>x. wakeable demo_irq_kernel (\<lambda>c p. []) t x)"
    using demo_irq_kernel_ok(2) by auto
  moreover have "sig_wait_set ?s = None" by (simp add: SignalState_new_def)
  moreover have "queued (\<lambda>c p. []) = {}" by (simp add: queued_def)
  ultimately obtain k' Q' where "dealloc_signal 60 demo_irq_kernel = ret k'"
    "signals k' = (signals demo_irq_kernel)(60 := None)" "run_queues k' Q'" "queued Q' = {7}"
    "\<exists>y. tcbs k' 7 = Some y \<and> state y = Ready \<and> wakeup_value y = 0"
    "\<forall>irq < MAX_IRQ. irq_table k' irq \<noteq> Some 60 \<and>
       (irq_table demo_irq_kernel irq = Some 60 \<longrightarrow> irq_masked k' irq \<and>
          dispatch_device_irq irq k' = ret (acknowledge irq (mask_line irq k')))"
    using dealloc_signal_unroutes [of demo_irq_kernel 60 ?s "\<lambda>c p. []"] demo_irq_kernel_ok(1) by simp blast
  then show ?thesis using r by (auto simp: MAX_IRQ_def)
qed

text \<open>(C31) Destroying a thread. A thread that runs on no CPU and that is in no run queue other than that of
  its current priority on an online CPU can be deallocated, whatever it is blocked on: the call
  returns, the thread is in no run queue any more while every other queue entry is kept, the endpoint,
  signal, event queue or wait set it was blocked on does not refer to it any more and an endpoint keeps its
  other waiters in their order, its control block is gone, and its four stack pages, and no others, are
  returned to the frame allocator. The condition on the priority is needed: \<open>sys_thread_stop\<close> leaves
  a Ready thread in its run queue, \<open>sys_thread_set_priority\<close> then changes the priority without
  moving it, and the removal looks at the new priority only. The reply a blocked caller
  waits for is the subject of the next property.\<close>

theorem dealloc_thread_unqueues:
  assumes "run_queues k Q" "tcbs k t = Some x" "priority x < NUM_PRIORITY_LEVELS" "blocked_rep k x xs" "cpu_count k \<le> MAX_CPUS"
    "\<forall>c < cpu_count k. current (scheds k c) \<noteq> Some t" "stack_ok k x phys"
    "\<forall>c p. t \<in> set (Q c p) \<longrightarrow> p = priority x \<and> c < cpu_count k"
  shows "\<exists>k' Q'. dealloc_tcb t k = ret k' \<and> tcbs k' t = None \<and> run_queues k' Q' \<and> queued Q' = queued Q - {t} \<and>
    left_waits k' t x xs \<and>
    buddy_ok (frames k') \<and> free_frames (frames k') = free_frames (frames k) \<union> pages STACK_ORDER phys"
proof -
  let ?Q = "without t (priority x) {..<cpu_count k} Q"
  have "queued ?Q = queued Q - {t}"
    using queued_without [OF assms(1), of t "priority x" "{..<cpu_count k}"] assms(8) by blast
  then show ?thesis
    using dealloc_tcb_ok [OF assms(1-7)] by blast
qed

definition demo_caller :: tcb where
  "demo_caller = blank_tcb\<lparr>state := Blocked, ipc_state := BlockedOnReply, blocked_on_object := Some 6,
     kernel_stack_top := DIRECT_MAP_BASE + KERNEL_STACK_PAGES * PAGE_SIZE\<rparr>"

definition demo_reply_kernel :: kernel where
  "demo_reply_kernel = demo_kernel\<lparr>tcbs := (tcbs demo_kernel)(7 \<mapsto> demo_caller, 6 \<mapsto> blank_tcb\<lparr>reply_tcb := Some 7\<rparr>)\<rparr>"

lemma demo_reply_ok:
  "run_queues demo_reply_kernel (\<lambda>c p. [])" "tcbs demo_reply_kernel 7 = Some demo_caller"
  "priority demo_caller < NUM_PRIORITY_LEVELS" "cpu_count demo_reply_kernel \<le> MAX_CPUS"
  "\<forall>c < cpu_count demo_reply_kernel. current (scheds demo_reply_kernel c) \<noteq> Some 7"
  "stack_ok demo_reply_kernel demo_caller 0" "ipc_state demo_caller = BlockedOnReply"
  "tcbs demo_reply_kernel 6 = Some (blank_tcb\<lparr>reply_tcb := Some 7\<rparr>)"
proof -
  have a: "tcbs demo_kernel 7 = Some blank_tcb" "tcbs demo_kernel 6 = Some blank_tcb"
    using demo_kernel_tcb(1) by simp_all
  have "run_queues (demo_kernel\<lparr>tcbs := (tcbs demo_kernel)(7 \<mapsto> demo_caller)\<rparr>) (\<lambda>c p. [])"
    by (rule run_queues_tcb [OF demo_kernel_queues a(1)]) (simp_all add: demo_caller_def)
  from run_queues_tcb [OF this, of 6 blank_tcb "blank_tcb\<lparr>reply_tcb := Some 7\<rparr>"]
  show "run_queues demo_reply_kernel (\<lambda>c p. [])" using a(2) by (simp add: demo_reply_kernel_def)
  show "tcbs demo_reply_kernel 7 = Some demo_caller" "tcbs demo_reply_kernel 6 = Some (blank_tcb\<lparr>reply_tcb := Some 7\<rparr>)"
    "ipc_state demo_caller = BlockedOnReply"
    by (simp_all add: demo_reply_kernel_def demo_caller_def)
  show "priority demo_caller < NUM_PRIORITY_LEVELS" "cpu_count demo_reply_kernel \<le> MAX_CPUS"
    by (simp_all add: demo_caller_def blank_tcb_def NUM_PRIORITY_LEVELS_def PRIORITY_DEFAULT_def
        demo_reply_kernel_def demo_kernel_def blank_kernel_def MAX_CPUS_def)
  show "\<forall>c < cpu_count demo_reply_kernel. current (scheds demo_reply_kernel c) \<noteq> Some 7"
    using demo_kernel_current by (simp add: demo_reply_kernel_def)
  have "frames demo_reply_kernel = BuddyAllocator_new"
    by (simp add: demo_reply_kernel_def demo_kernel_def blank_kernel_def)
  then show "stack_ok demo_reply_kernel demo_caller 0"
    using empty_ok by (simp add: stack_ok_def demo_caller_def aligned_def nblocks_def POOL_SIZE_def)
qed

text \<open>Thread 7 is Ready and put into the run queue of CPU 0.\<close>

definition demo_ready :: tcb where
  "demo_ready = blank_tcb\<lparr>state := Ready, kernel_stack_top := DIRECT_MAP_BASE + KERNEL_STACK_PAGES * PAGE_SIZE\<rparr>"

definition demo_ready_kernel :: kernel where
  "demo_ready_kernel = demo_kernel\<lparr>tcbs := (tcbs demo_kernel)(7 \<mapsto> demo_ready)\<rparr>"

lemma demo_ready_ok:
  "\<exists>k n. sched_enqueue 0 7 PRIORITY_DEFAULT demo_ready_kernel = ret k \<and>
     run_queues k ((\<lambda>c p. [])(0 := (\<lambda>p. [])(PRIORITY_DEFAULT := [7]))) \<and> queues_only demo_ready_kernel k \<and>
     tcbs k 7 = Some (demo_ready\<lparr>run_queue_next := n\<rparr>)"
proof -
  have a: "tcbs demo_kernel 7 = Some blank_tcb" using demo_kernel_tcb(1) by simp
  have "run_queues demo_ready_kernel (\<lambda>c p. [])"
    unfolding demo_ready_kernel_def by (rule run_queues_tcb [OF demo_kernel_queues a]) (simp_all add: demo_ready_def)
  then obtain k where k: "sched_enqueue 0 7 PRIORITY_DEFAULT demo_ready_kernel = ret k"
      "run_queues k ((\<lambda>c p. [])(0 := (\<lambda>p. [])(PRIORITY_DEFAULT := [7])))" "queues_only demo_ready_kernel k"
    using sched_enqueue_ok [of demo_ready_kernel "\<lambda>c p. []" 0 PRIORITY_DEFAULT 7 demo_ready]
    by (auto simp: MAX_CPUS_def NUM_PRIORITY_LEVELS_def PRIORITY_DEFAULT_def queued_def demo_ready_kernel_def
        demo_ready_def blank_tcb_def)
  then show ?thesis using queues_only_tcb [OF k(3), of 7 demo_ready] by (simp add: demo_ready_kernel_def)
qed

lemma demo_stack_ok:
  "frames k = BuddyAllocator_new \<Longrightarrow> kernel_stack_top x = DIRECT_MAP_BASE + KERNEL_STACK_PAGES * PAGE_SIZE \<Longrightarrow> stack_ok k x 0"
  using empty_ok by (simp add: stack_ok_def aligned_def nblocks_def POOL_SIZE_def)

theorem dealloc_thread_unqueues_witness:
  "(\<exists>k k' Q'. sched_enqueue 0 7 PRIORITY_DEFAULT demo_ready_kernel = ret k \<and> dealloc_tcb 7 k = ret k' \<and> tcbs k' 7 = None \<and>
     run_queues k' Q' \<and> queued Q' = {} \<and> free_frames (frames k') = free_frames (frames k) \<union> pages STACK_ORDER 0) \<and>
   (\<exists>k'. dealloc_tcb 7 demo_sender_kernel = ret k' \<and> tcbs k' 7 = None \<and> left_waits k' 7 demo_sender [7])"
proof
  obtain k n where k: "sched_enqueue 0 7 PRIORITY_DEFAULT demo_ready_kernel = ret k" "queues_only demo_ready_kernel k"
      "run_queues k ((\<lambda>c p. [])(0 := (\<lambda>p. [])(PRIORITY_DEFAULT := [7])))" "tcbs k 7 = Some (demo_ready\<lparr>run_queue_next := n\<rparr>)"
    using demo_ready_ok by blast
  let ?x = "demo_ready\<lparr>run_queue_next := n\<rparr>"
  have c: "cpu_count k = cpu_count demo_kernel" "frames k = frames demo_kernel"
    using queues_only_fields(3) [OF k(2)] queues_only_frames [OF k(2)] by (simp_all add: demo_ready_kernel_def)
  have x: "priority ?x = PRIORITY_DEFAULT" "blocked_on_object ?x = None"
    "kernel_stack_top ?x = DIRECT_MAP_BASE + KERNEL_STACK_PAGES * PAGE_SIZE"
    by (simp_all add: demo_ready_def blank_tcb_def)
  have n: "0 < cpu_count demo_kernel" "cpu_count demo_kernel \<le> MAX_CPUS" "frames demo_kernel = BuddyAllocator_new"
    by (simp_all add: demo_kernel_def blank_kernel_def MAX_CPUS_def)
  have h: "priority ?x < NUM_PRIORITY_LEVELS" "blocked_rep k ?x []" "cpu_count k \<le> MAX_CPUS"
      "\<forall>c < cpu_count k. current (scheds k c) \<noteq> Some 7"
    using x n c queues_onlyD(2) [OF k(2)] demo_kernel_current
    by (simp_all add: NUM_PRIORITY_LEVELS_def PRIORITY_DEFAULT_def blocked_rep_def demo_ready_kernel_def)
  have st: "stack_ok k ?x 0" by (rule demo_stack_ok) (use c n x in simp_all)
  let ?Q = "(\<lambda>c p. [])(0 := (\<lambda>p. [])(PRIORITY_DEFAULT := [7]))"
  have q: "\<forall>c p. 7 \<in> set (?Q c p) \<longrightarrow> p = priority ?x \<and> c < cpu_count k" using x(1) c(1) n(1) by simp
  have "queued ?Q - {7} = {}" by (auto simp: queued_def split: if_split_asm)
  then show "\<exists>k k' Q'. sched_enqueue 0 7 PRIORITY_DEFAULT demo_ready_kernel = ret k \<and> dealloc_tcb 7 k = ret k' \<and> tcbs k' 7 = None \<and>
     run_queues k' Q' \<and> queued Q' = {} \<and> free_frames (frames k') = free_frames (frames k) \<union> pages STACK_ORDER 0"
    using dealloc_thread_unqueues [OF k(3,4) h st q] k(1) by metis
  have "\<forall>c < cpu_count demo_sender_kernel. current (scheds demo_sender_kernel c) \<noteq> Some 7"
    using demo_kernel_current by (simp add: demo_sender_kernel_def put_endpoint_def)
  moreover have "stack_ok demo_sender_kernel demo_sender 0"
    by (rule demo_stack_ok) (simp_all add: demo_sender_kernel_def put_endpoint_def demo_sender_def n(3))
  moreover have "blocked_rep demo_sender_kernel demo_sender [7]"
    by (simp add: blocked_rep_def demo_sender_def demo_sender_kernel_def put_endpoint_def wq_rep_def fifo_def last_opt_def
        EndpointState_new_def nxt_def blank_tcb_def)
  moreover have "tcbs demo_sender_kernel 7 = Some demo_sender" "priority demo_sender < NUM_PRIORITY_LEVELS"
    using demo_sender_ok(2) by (simp_all add: wakeable_def)
  moreover have "cpu_count demo_sender_kernel \<le> MAX_CPUS" using n(2) by (simp add: demo_sender_kernel_def put_endpoint_def)
  ultimately show "\<exists>k'. dealloc_tcb 7 demo_sender_kernel = ret k' \<and> tcbs k' 7 = None \<and> left_waits k' 7 demo_sender [7]"
    using dealloc_thread_unqueues [OF demo_sender_ok(1), of 7 demo_sender "[7]" 0] by simp blast
qed

text \<open>(C32) A reply to a destroyed caller. Deallocating a thread that waits for a reply leaves the
  server's \<open>reply_tcb\<close> pointing to the freed control block, so that the server's next reply
  dereferences it.\<close>

theorem reply_to_freed_caller:
  assumes "run_queues k Q" "tcbs k t = Some x" "priority x < NUM_PRIORITY_LEVELS"
    "ipc_state x = BlockedOnReply" "cpu_count k \<le> MAX_CPUS"
    "\<forall>c < cpu_count k. current (scheds k c) \<noteq> Some t" "stack_ok k x phys"
    "tcbs k s = Some y" "s \<noteq> t" "reply_tcb y = Some t"
  shows "\<exists>k'. dealloc_tcb t k = ret k' \<and> endpoint_reply s m k' = panic"
proof -
  have b: "blocked_rep k x []" using assms(4) by (simp add: blocked_rep_def split: option.split)
  obtain k' where k': "dealloc_tcb t k = ret k'" "tcbs k' t = None"
    "\<forall>u y. u \<noteq> t \<longrightarrow> tcbs k u = Some y \<longrightarrow> (\<exists>n m. tcbs k' u = Some (y\<lparr>run_queue_next := n, ipc_wait_next := m\<rparr>))"
    using dealloc_tcb_ok [OF assms(1-3) b assms(5-7)] by blast
  then obtain n m where "tcbs k' s = Some (y\<lparr>run_queue_next := n, ipc_wait_next := m\<rparr>)" using assms(8,9) by blast
  then show ?thesis
    using k'(1,2) assms(9,10) by (simp add: endpoint_reply_def upd_tcb_def)
qed

theorem reply_to_freed_caller_witness:
  "\<exists>k'. dealloc_tcb 7 demo_reply_kernel = ret k' \<and> endpoint_reply 6 default_message k' = panic"
  using reply_to_freed_caller [OF demo_reply_ok(1-3) demo_reply_ok(7) demo_reply_ok(4-6) demo_reply_ok(8)] by simp

end
