(* ===== verification/Syscall_Core.thy ===== *)
theory Syscall_Core
  imports Cap_Move Object_Lifetime
begin

text \<open>
  What every system call handler shares (\<open>kernel/src/syscall/mod.rs\<close>): finding the calling thread,
  looking up a capability, following the object pointer of a slot, and access to user memory.

  A handler of the kernel runs on the kernel stack of the calling thread. It either returns a
  \<open>Result\<close>, or calls \<open>schedule\<close> and goes on only when its thread is selected again. The model cuts
  such a handler at the call of \<open>schedule\<close>: the outcome \<open>Yielded rp k\<close> is the state after
  \<open>schedule\<close>, and the resume point \<open>rp\<close> names the rest of the handler with the local variable it
  still uses. The register frame \<open>tf\<close> that a handler receives lives at the top of that kernel stack,
  where the \<open>trap_frame\<close> pointer of the thread leads, so writes to \<open>tf\<close> go to \<open>saved_frame\<close>.
\<close>

unbundle bit_operations_syntax

section \<open>Outcomes\<close>

datatype resume_point =
    ResumeYield | ResumeExit | ResumeSleep | ResumeStop
  | ResumeCall ptr | ResumeRecv ptr | ResumeSignalWait ptr | ResumeEventRecv ptr | ResumeWaitSetWait ptr

datatype outcome =
    Done "(syscall_error, u64) result" kernel
  | Yielded resume_point kernel

text \<open>The operator \<open>?\<close>: \<open>attempt\<close> ends a handler with the error of a check, \<open>and_then\<close> chains two
  checks.\<close>

definition and_then :: "('e, 'a) result run \<Rightarrow> ('a \<Rightarrow> ('e, 'b) result run) \<Rightarrow> ('e, 'b) result run" where
  "and_then r f = do { x \<leftarrow> r; (case x of Inl e \<Rightarrow> ret (Inl e) | Inr a \<Rightarrow> f a) }"

definition attempt :: "(syscall_error, 'a) result run \<Rightarrow> kernel \<Rightarrow> ('a \<Rightarrow> outcome run) \<Rightarrow> outcome run" where
  "attempt r k f = do { x \<leftarrow> r; (case x of Inl e \<Rightarrow> ret (Done (Inl e) k) | Inr a \<Rightarrow> f a) }"

definition fails :: "syscall_error \<Rightarrow> kernel \<Rightarrow> outcome run" where
  "fails e k = ret (Done (Inl e) k)"

definition yields :: "resume_point \<Rightarrow> bool \<Rightarrow> kernel \<Rightarrow> outcome run" where
  "yields rp again k = do { k \<leftarrow> schedule again k; ret (Yielded rp k) }"

lemma and_then_simps [simp]:
  "and_then None f = None" "and_then (Some (Inl e)) f = Some (Inl e)" "and_then (Some (Inr a)) f = f a"
  by (simp_all add: and_then_def)

lemma attempt_simps [simp]:
  "attempt None k f = None" "attempt (Some (Inl e)) k f = Some (Done (Inl e) k)"
  "attempt (Some (Inr a)) k f = f a"
  by (simp_all add: attempt_def)

section \<open>The caller and its capabilities\<close>

definition current_tcb :: "kernel \<Rightarrow> ptr option run" where
  "current_tcb k = (if this_cpu k < MAX_CPUS then ret (current (scheds k (this_cpu k))) else panic)"

text \<open>The prologue of nearly every handler: the caller must not be null.\<close>

definition caller_tcb :: "kernel \<Rightarrow> (syscall_error, ptr) result run" where
  "caller_tcb k = do {
     t \<leftarrow> current_tcb k;
     (case t of None \<Rightarrow> ret (Inl InvalidCapability) | Some t \<Rightarrow> ret (Inr t))
   }"

definition caller_cspace :: "ptr \<Rightarrow> kernel \<Rightarrow> ptr option run" where
  "caller_cspace t k = do { x \<leftarrow> tcbs k t; ret (tcb_cspace x) }"

definition lookup_cap ::
  "ptr option \<Rightarrow> nat \<Rightarrow> cap_tag \<Rightarrow> rights \<Rightarrow> kernel \<Rightarrow> (syscall_error, capability_slot) result run" where
  "lookup_cap cspace idx expected_tag required_rights k =
     (case cspace of
        None \<Rightarrow> ret (Inl InvalidCapability)
      | Some c \<Rightarrow> do {
          cs \<leftarrow> cspace_at c (kcaps k);
          s \<leftarrow> slot cs idx;
          (case s of
             None \<Rightarrow> ret (Inl InvalidCapability)
           | Some s \<Rightarrow>
               if tag s \<noteq> expected_tag then ret (Inl InvalidCapability)
               else if \<not> contains (rights s) required_rights then ret (Inl InsufficientRights)
               else ret (Inr s))
        })"

lemma lookup_cap_frame: "kcaps k' = kcaps k \<Longrightarrow> lookup_cap cs idx t r k' = lookup_cap cs idx t r k"
  by (cases cs) (simp_all add: lookup_cap_def)

definition slot_object :: "capability_slot \<Rightarrow> (syscall_error, ptr) result run" where
  "slot_object s = (case object s of None \<Rightarrow> ret (Inl InvalidCapability) | Some p \<Rightarrow> ret (Inr p))"

text \<open>The casts of an object pointer. A pointer to an object of another kind, a freed object or a
  null state pointer that is dereferenced without a check is \<open>panic\<close>.\<close>

definition as_thread :: "ptr \<Rightarrow> kernel \<Rightarrow> ptr option run" where
  "as_thread p k = do { ob \<leftarrow> objects k p; (case body ob of ThreadObj t \<Rightarrow> ret t | _ \<Rightarrow> panic) }"

definition as_cspace :: "ptr \<Rightarrow> kernel \<Rightarrow> ptr option run" where
  "as_cspace p k = do { ob \<leftarrow> objects k p; (case body ob of CSpaceObj c \<Rightarrow> ret c | _ \<Rightarrow> panic) }"

definition as_aspace :: "ptr \<Rightarrow> kernel \<Rightarrow> ptr option run" where
  "as_aspace p k = do { ob \<leftarrow> objects k p; (case body ob of AddressSpaceObj a \<Rightarrow> ret a | _ \<Rightarrow> panic) }"

definition as_endpoint :: "ptr \<Rightarrow> kernel \<Rightarrow> ptr run" where
  "as_endpoint p k = do { ob \<leftarrow> objects k p; (case body ob of EndpointObj (Some e) \<Rightarrow> ret e | _ \<Rightarrow> panic) }"

definition as_signal :: "ptr \<Rightarrow> kernel \<Rightarrow> ptr run" where
  "as_signal p k = do { ob \<leftarrow> objects k p; (case body ob of SignalObj (Some s) \<Rightarrow> ret s | _ \<Rightarrow> panic) }"

definition as_event_queue :: "ptr \<Rightarrow> kernel \<Rightarrow> ptr option run" where
  "as_event_queue p k = do { ob \<leftarrow> objects k p; (case body ob of EventQueueObj q \<Rightarrow> ret q | _ \<Rightarrow> panic) }"

definition as_wait_set :: "ptr \<Rightarrow> kernel \<Rightarrow> ptr run" where
  "as_wait_set p k = do { ob \<leftarrow> objects k p; (case body ob of WaitSetObj (Some w) \<Rightarrow> ret w | _ \<Rightarrow> panic) }"

definition as_interrupt :: "ptr \<Rightarrow> kernel \<Rightarrow> nat run" where
  "as_interrupt p k = do { ob \<leftarrow> objects k p; (case body ob of InterruptObj irq _ \<Rightarrow> ret irq | _ \<Rightarrow> panic) }"

section \<open>User memory\<close>

text \<open>Words are stored byte by byte, least significant byte first. The kernel reads and writes the
  address space its CPU has loaded.\<close>

definition read_word :: "(nat \<Rightarrow> u8) \<Rightarrow> nat \<Rightarrow> u64" where
  "read_word m a = foldr (\<lambda>i w. push_bit (8 * i) (ucast (m (a + i))) OR w) [0..<8] 0"

definition write_word :: "nat \<Rightarrow> u64 \<Rightarrow> (nat \<Rightarrow> u8) \<Rightarrow> nat \<Rightarrow> u8" where
  "write_word a w m = (\<lambda>b. if a \<le> b \<and> b < a + 8 then ucast (drop_bit (8 * (b - a)) w) else m b)"

definition user_word :: "kernel \<Rightarrow> nat \<Rightarrow> u64" where
  "user_word k a = read_word (memory k (cpu_root k (this_cpu k))) a"

fun write_words :: "nat \<Rightarrow> u64 list \<Rightarrow> (nat \<Rightarrow> u8) \<Rightarrow> nat \<Rightarrow> u8" where
  "write_words a [] m = m"
| "write_words a (w # ws) m = write_words (a + 8) ws (write_word a w m)"

definition write_user :: "nat \<Rightarrow> u64 list \<Rightarrow> kernel \<Rightarrow> kernel" where
  "write_user a ws k =
     (let r = cpu_root k (this_cpu k) in k\<lparr>memory := (memory k)(r := write_words a ws (memory k r))\<rparr>)"

definition upd_frame :: "ptr \<Rightarrow> (trap_frame \<Rightarrow> trap_frame) \<Rightarrow> kernel \<Rightarrow> kernel run" where
  "upd_frame t f k = upd_tcb t (\<lambda>x. x\<lparr>saved_frame := map_option f (saved_frame x)\<rparr>) k"

definition U64_MAX :: nat where "U64_MAX = 2 ^ 64 - 1"

definition saturating_add :: "nat \<Rightarrow> nat \<Rightarrow> nat" where
  "saturating_add a b = min U64_MAX (a + b)"

definition saturating_mul :: "nat \<Rightarrow> nat \<Rightarrow> nat" where
  "saturating_mul a b = min U64_MAX (a * b)"

subsection \<open>Reading back what was written\<close>

lemma bit_read_word: "bit (read_word m a) n \<longleftrightarrow> n < 64 \<and> bit (m (a + n div 8)) (n mod 8)"
proof (cases "n < 64")
  case True
  have "bit (foldr (\<lambda>i w. push_bit (8 * i) (ucast (m (a + i))) OR w) is (0 :: u64)) n \<longleftrightarrow>
      (\<exists>i \<in> set is. 8 * i \<le> n \<and> bit (m (a + i)) (n - 8 * i))" for "is"
  proof (induction "is")
    case (Cons i "is")
    have "bit (push_bit (8 * i) (ucast (m (a + i)) :: u64)) n \<longleftrightarrow> 8 * i \<le> n \<and> bit (m (a + i)) (n - 8 * i)"
      using True by (auto simp: bit_simps)
    with Cons.IH show ?case by (simp only: foldr.simps o_apply bit_or_iff) auto
  qed simp
  moreover have "(\<exists>i \<in> set [0..<8]. 8 * i \<le> n \<and> bit (m (a + i)) (n - 8 * i)) \<longleftrightarrow> bit (m (a + n div 8)) (n mod 8)"
  proof
    assume "\<exists>i \<in> set [0..<8]. 8 * i \<le> n \<and> bit (m (a + i)) (n - 8 * i)"
    then obtain i where i: "8 * i \<le> n" "bit (m (a + i)) (n - 8 * i)" by blast
    have "n - 8 * i < 8" using bit_imp_le_length [OF i(2)] by simp
    then have "n div 8 = i" using i(1) by (intro div_nat_eqI) auto
    moreover from this have "n mod 8 = n - 8 * i" by (simp add: minus_mult_div_eq_mod [symmetric])
    ultimately show "bit (m (a + n div 8)) (n mod 8)" using i(2) by simp
  next
    assume b: "bit (m (a + n div 8)) (n mod 8)"
    have "n div 8 < 8" "8 * (n div 8) \<le> n" "n mod 8 = n - 8 * (n div 8)"
      using True by (auto simp: minus_mult_div_eq_mod)
    then show "\<exists>i \<in> set [0..<8]. 8 * i \<le> n \<and> bit (m (a + i)) (n - 8 * i)"
      using b by (intro bexI [of _ "n div 8"]) auto
  qed
  ultimately show ?thesis using True by (simp add: read_word_def del: foldr.simps set_upt upt_rec_numeral)
next
  case False
  then show ?thesis using bit_imp_le_length [of "read_word m a" n] by auto
qed

lemma read_write_word [simp]: "read_word (write_word a w m) a = w"
proof (rule bit_word_eqI)
  fix n assume n: "n < LENGTH(64)"
  have "a + n div 8 - a = n div 8" "n div 8 < 8" "8 * (n div 8) + n mod 8 = n" using n by auto
  then show "bit (read_word (write_word a w m) a) n = bit w n"
    using n by (simp add: bit_read_word write_word_def bit_simps)
qed

lemma read_write_word_other: "a + 8 \<le> b \<or> b + 8 \<le> a \<Longrightarrow> read_word (write_word a w m) b = read_word m b"
proof (rule bit_word_eqI)
  fix n assume d: "a + 8 \<le> b \<or> b + 8 \<le> a" and n: "n < LENGTH(64)"
  have "n div 8 < 8" using n by auto
  then have "\<not> (a \<le> b + n div 8 \<and> b + n div 8 < a + 8)" using d by linarith
  then show "bit (read_word (write_word a w m) b) n = bit (read_word m b) n"
    by (auto simp: bit_read_word write_word_def)
qed

lemma read_write_words_other:
  "b + 8 \<le> a \<or> a + 8 * length ws \<le> b \<Longrightarrow> read_word (write_words a ws m) b = read_word m b"
proof (induction ws arbitrary: a m)
  case (Cons w ws)
  then have "read_word (write_words (a + 8) ws (write_word a w m)) b = read_word (write_word a w m) b"
    by (intro Cons.IH) auto
  also have "\<dots> = read_word m b" using Cons.prems by (intro read_write_word_other) auto
  finally show ?case by simp
qed simp

lemma read_write_words: "i < length ws \<Longrightarrow> read_word (write_words a ws m) (a + 8 * i) = ws ! i"
proof (induction ws arbitrary: a i m)
  case (Cons w ws)
  show ?case
  proof (cases i)
    case 0
    then show ?thesis using read_write_words_other [of a "a + 8" ws "write_word a w m"] by simp
  next
    case (Suc j)
    then show ?thesis using Cons.IH [of j "a + 8" "write_word a w m"] Cons.prems by (simp add: add.assoc)
  qed
qed simp


section \<open>An example state\<close>

text \<open>The running thread 3 has a CSpace with one capability, in slot 1.\<close>

definition demo_cspace :: "capability_slot \<Rightarrow> cspace" where
  "demo_cspace s = (CSpace_new 1 63)\<lparr>directory := (replicate L1_SIZE None)[0 := Some ((replicate L2_SIZE null_slot)[1 := s])]\<rparr>"

definition with_cap :: "cap_tag \<Rightarrow> rights \<Rightarrow> kobject \<Rightarrow> kernel \<Rightarrow> kernel" where
  "with_cap t r ob k = k\<lparr>
     kcaps := (kcaps k)\<lparr>cs_heap := (cs_heap (kcaps k))
       (500 \<mapsto> demo_cspace (null_slot\<lparr>tag := t, rights := r, object := Some 600\<rparr>))\<rparr>,
     objects := (objects k)(600 \<mapsto> KernelObject_new ob),
     tcbs := (tcbs k)(3 \<mapsto> (the (tcbs k 3))\<lparr>tcb_cspace := Some 500\<rparr>)\<rparr>"

lemma demo_cspace_slot: "slot (demo_cspace s) (Suc 0) = ret (Some s)"
  by (simp add: slot_def demo_cspace_def L1_SIZE_def L2_SIZE_def)

lemma with_cap_lookup:
  "lookup_cap (Some 500) 1 t r (with_cap t r ob k) = ret (Inr (null_slot\<lparr>tag := t, rights := r, object := Some 600\<rparr>))"
  by (simp add: lookup_cap_def with_cap_def cspace_at_def demo_cspace_slot)

lemma with_cap_fields:
  "objects (with_cap t r ob k) 600 = Some (KernelObject_new ob)"
  "tcbs (with_cap t r ob k) 3 = Some ((the (tcbs k 3))\<lparr>tcb_cspace := Some 500\<rparr>)"
  "u \<noteq> 3 \<Longrightarrow> tcbs (with_cap t r ob k) u = tcbs k u" "scheds (with_cap t r ob k) = scheds k"
  "this_cpu (with_cap t r ob k) = this_cpu k"
  by (simp_all add: with_cap_def)

lemma with_cap_queues: "run_queues k Q \<Longrightarrow> tcbs k 3 = Some x \<Longrightarrow> run_queues (with_cap t r ob k) Q"
  by (rule run_queues_cong) (auto simp: with_cap_def)

end
