(* ===== verification/Thread_Calls.thy ===== *)
theory Thread_Calls
  imports Syscall_Core
begin

text \<open>
  The system calls on threads: \<open>kernel/src/syscall/thread.rs\<close> and the thread calls of
  \<open>kernel/src/syscall/mod.rs\<close>. Every handler takes the register frame of the call and the state.
\<close>

unbundle bit_operations_syntax

section \<open>Calls of a thread on itself\<close>

definition sys_yield :: "trap_frame \<Rightarrow> kernel \<Rightarrow> outcome run" where
  "sys_yield tf k = yields ResumeYield True k"

definition sys_exit :: "trap_frame \<Rightarrow> kernel \<Rightarrow> outcome run" where
  "sys_exit tf k = do {
     t \<leftarrow> current_tcb k;
     k \<leftarrow> (case t of
             None \<Rightarrow> ret k
           | Some t \<Rightarrow> do {
               k \<leftarrow> upd_tcb t (\<lambda>x. x\<lparr>state := Exited\<rparr>) k;
               post_death_notification t 0 k
             });
     yields ResumeExit False k
   }"

definition sleep_until :: "u64 \<Rightarrow> kernel \<Rightarrow> nat" where
  "sleep_until ms k =
     saturating_add (current_tick k) (saturating_mul (unat ms) (ticks_per_second k) div 1000)"

definition sys_thread_sleep :: "trap_frame \<Rightarrow> kernel \<Rightarrow> outcome run" where
  "sys_thread_sleep tf k =
     (let ms = arg 0 tf in
      if ms = 0 then ret (Done (Inr 0) k)
      else attempt (caller_tcb k) k (\<lambda>t. do {
        let deadline = sleep_until ms k;
        k \<leftarrow> upd_tcb t (\<lambda>x. x\<lparr>sleep_deadline := deadline, state := Blocked\<rparr>) k;
        yields ResumeSleep False (sleep_list_add t k)
      }))"

definition sys_ipc_buffer_set :: "trap_frame \<Rightarrow> kernel \<Rightarrow> outcome run" where
  "sys_ipc_buffer_set tf k =
     (let virt = arg 0 tf in
      if virt \<noteq> 0 \<and> virt AND 0xFFF \<noteq> 0 then fails InvalidAddress k
      else attempt (caller_tcb k) k (\<lambda>t. do {
        k \<leftarrow> upd_tcb t (\<lambda>x. x\<lparr>ipc_buffer := unat virt\<rparr>) k;
        ret (Done (Inr 0) k)
      }))"

section \<open>Calls on a thread capability\<close>

text \<open>The common prologue: the caller, its CSpace, a thread capability with the required right, and
  the thread behind it.\<close>

definition thread_target :: "ptr \<Rightarrow> nat \<Rightarrow> rights \<Rightarrow> kernel \<Rightarrow> (syscall_error, ptr) result run" where
  "thread_target caller idx right k = do {
     cs \<leftarrow> caller_cspace caller k;
     and_then (lookup_cap cs idx TagThread right k) (\<lambda>s.
     and_then (slot_object s) (\<lambda>p. do {
       t \<leftarrow> as_thread p k;
       (case t of None \<Rightarrow> ret (Inl InvalidCapability) | Some t \<Rightarrow> ret (Inr t))
     }))
   }"

definition with_thread :: "nat \<Rightarrow> rights \<Rightarrow> kernel \<Rightarrow> (ptr \<Rightarrow> ptr \<Rightarrow> tcb \<Rightarrow> outcome run) \<Rightarrow> outcome run" where
  "with_thread idx right k f =
     attempt (caller_tcb k) k (\<lambda>caller.
     attempt (thread_target caller idx right k) k (\<lambda>t. do { x \<leftarrow> tcbs k t; f caller t x }))"

definition sys_thread_bind_notification :: "trap_frame \<Rightarrow> kernel \<Rightarrow> outcome run" where
  "sys_thread_bind_notification tf k =
     attempt (caller_tcb k) k (\<lambda>caller. do {
       cs \<leftarrow> caller_cspace caller k;
       attempt (lookup_cap cs (arg32 0 tf) TagThread CONTROL k) k (\<lambda>ts.
       attempt (slot_object ts) k (\<lambda>p. do {
         target \<leftarrow> as_thread p k;
         attempt (lookup_cap cs (arg32 1 tf) TagEventQueue POST k) k (\<lambda>es.
         attempt (slot_object es) k (\<lambda>e. do {
           eq \<leftarrow> as_event_queue e k;
           t \<leftarrow> target;
           k \<leftarrow> upd_tcb t (\<lambda>x. x\<lparr>death_notification := eq\<rparr>) k;
           ret (Done (Inr 0) k)
         }))
       }))
     })"

definition sys_thread_configure :: "trap_frame \<Rightarrow> kernel \<Rightarrow> outcome run" where
  "sys_thread_configure tf k =
     with_thread (arg32 0 tf) CONTROL k (\<lambda>caller t x.
       if state x \<noteq> Created then fails InvalidArgument k
       else do {
         tf_ptr \<leftarrow> usub (kernel_stack_top x) (8 * TRAP_FRAME_WORDS);
         let f = set_arg0 (arg 3 tf) (init_user (arg 1 tf) (arg 2 tf) zero_frame);
         k \<leftarrow> upd_tcb t (\<lambda>x. x\<lparr>saved_frame := Some f\<rparr>) k;
         ret (Done (Inr 0) k)
       })"

definition sys_thread_start :: "trap_frame \<Rightarrow> kernel \<Rightarrow> outcome run" where
  "sys_thread_start tf k =
     with_thread (arg32 0 tf) CONTROL k (\<lambda>caller t x.
       if state x \<noteq> Created \<and> state x \<noteq> Stopped then fails InvalidArgument k
       else if saved_frame x = None then fails InvalidArgument k
       else do {
         k \<leftarrow> upd_tcb t (\<lambda>x. x\<lparr>state := Ready\<rparr>) k;
         k \<leftarrow> wake_thread t k;
         ret (Done (Inr 0) k)
       })"

text \<open>Unlike the deallocation of a thread, cancelling also detaches it from a server it waits for.\<close>

definition cancel_ipc_block :: "ptr \<Rightarrow> kernel \<Rightarrow> kernel run" where
  "cancel_ipc_block t k = do {
     x \<leftarrow> tcbs k t;
     k \<leftarrow> (case blocked_on_object x of
        None \<Rightarrow> ret k
      | Some ob \<Rightarrow> (case ipc_state x of
             BlockedOnSend \<Rightarrow> do {
               ep \<leftarrow> endpoints k ob;
               (found, (a, z), h) \<leftarrow> unlink_from_wait_queue t (send_head ep, send_tail ep) (tcbs k);
               ret ((put_endpoint ob (ep\<lparr>send_head := a, send_tail := z\<rparr>) k)\<lparr>tcbs := h\<rparr>)
             }
           | BlockedOnRecv \<Rightarrow> do {
               ep \<leftarrow> endpoints k ob;
               (found, (a, z), h) \<leftarrow> unlink_from_wait_queue t (recv_head ep, recv_tail ep) (tcbs k);
               ret ((put_endpoint ob (ep\<lparr>recv_head := a, recv_tail := z\<rparr>) k)\<lparr>tcbs := h\<rparr>)
             }
           | BlockedOnReply \<Rightarrow> upd_tcb ob (\<lambda>y. y\<lparr>reply_tcb := None\<rparr>) k
           | BlockedOnSignal \<Rightarrow> do {
               s \<leftarrow> signals k ob;
               ret (if sig_waiter s = Some t then put_signal ob (s\<lparr>sig_waiter := None\<rparr>) k else k)
             }
           | BlockedOnEventQueue \<Rightarrow> do {
               q \<leftarrow> event_queues k ob;
               ret (if eq_waiter q = Some t then put_event_queue ob (q\<lparr>eq_waiter := None\<rparr>) k else k)
             }
           | BlockedOnWaitSet \<Rightarrow> do {
               w \<leftarrow> wait_sets k ob;
               ret (if ws_waiter w = Some t then put_wait_set ob (w\<lparr>ws_waiter := None\<rparr>) k else k)
             }
           | IpcNone \<Rightarrow> ret k));
     k \<leftarrow> upd_tcb t (\<lambda>x. x\<lparr>ipc_state := IpcNone, blocked_on_object := None\<rparr>) k;
     upd_frame t (set_return (error_code Interrupted)) k
   }"

definition sys_thread_stop :: "trap_frame \<Rightarrow> kernel \<Rightarrow> outcome run" where
  "sys_thread_stop tf k =
     with_thread (arg32 0 tf) CONTROL k (\<lambda>caller t x.
       if state x = Created \<or> state x = Exited \<or> state x = Stopped then fails InvalidState k
       else do {
         k \<leftarrow> (if state x = Blocked then cancel_ipc_block t k else ret k);
         k \<leftarrow> upd_tcb t (\<lambda>x. x\<lparr>state := Stopped\<rparr>) k;
         if t = caller then yields ResumeStop False k else ret (Done (Inr 0) k)
       })"

definition sys_thread_set_priority :: "trap_frame \<Rightarrow> kernel \<Rightarrow> outcome run" where
  "sys_thread_set_priority tf k =
     (let prio = arg8 1 tf in
      if prio = 0 \<or> prio > PRIORITY_MAX then fails InvalidArgument k
      else attempt (caller_tcb k) k (\<lambda>caller. do {
        cs \<leftarrow> caller_cspace caller k;
        attempt (if prio \<ge> SCHED_ELEVATED_MIN
                 then and_then (lookup_cap cs (arg32 2 tf) TagSchedControl ELEVATE k) (\<lambda>_. ret (Inr ()))
                 else ret (Inr ())) k (\<lambda>_.
        attempt (thread_target caller (arg32 0 tf) CONTROL k) k (\<lambda>t. do {
          x \<leftarrow> tcbs k t;
          k \<leftarrow> upd_tcb t (\<lambda>x. x\<lparr>priority := prio\<rparr>) k;
          k \<leftarrow> (if state x = Ready
                then (if preferred_cpu x < MAX_CPUS
                      then change_priority (preferred_cpu x) t (priority x) prio k else panic)
                else ret k);
          ret (Done (Inr 0) k)
        }))
      }))"

definition sys_thread_set_affinity :: "trap_frame \<Rightarrow> kernel \<Rightarrow> outcome run" where
  "sys_thread_set_affinity tf k =
     attempt (caller_tcb k) k (\<lambda>caller.
     attempt (thread_target caller (arg32 0 tf) CONTROL k) k (\<lambda>t.
       let cpu_id = arg32 1 tf in
       if cpu_id \<noteq> AFFINITY_ANY \<and> cpu_id \<ge> cpu_count k then fails InvalidArgument k
       else do {
         k \<leftarrow> upd_tcb t (\<lambda>x. x\<lparr>cpu_affinity := cpu_id\<rparr>) k;
         ret (Done (Inr 0) k)
       }))"

section \<open>Register access\<close>

text \<open>The frame is copied to and from the buffer of the caller word by word.\<close>

definition sys_thread_read_regs :: "trap_frame \<Rightarrow> kernel \<Rightarrow> outcome run" where
  "sys_thread_read_regs tf k =
     (let buf = unat (arg 1 tf); buf_size = unat (arg 2 tf); copy_size = 8 * TRAP_FRAME_WORDS in
      with_thread (arg32 0 tf) OBSERVE k (\<lambda>caller t x.
        if state x \<noteq> Stopped then fails InvalidState k
        else (case saved_frame x of
           None \<Rightarrow> fails InvalidArgument k
         | Some f \<Rightarrow>
             if buf_size < copy_size \<or> buf = 0 then fails InvalidArgument k
             else ret (Done (Inr (of_nat copy_size)) (write_user buf (frame_words f) k)))))"

definition sys_thread_write_regs :: "trap_frame \<Rightarrow> kernel \<Rightarrow> outcome run" where
  "sys_thread_write_regs tf k =
     (let buf = unat (arg 1 tf); buf_size = unat (arg 2 tf); copy_size = 8 * TRAP_FRAME_WORDS in
      with_thread (arg32 0 tf) CONTROL k (\<lambda>caller t x.
        if state x \<noteq> Stopped then fails InvalidState k
        else if saved_frame x = None then fails InvalidArgument k
        else if buf_size < copy_size \<or> buf = 0 then fails InvalidArgument k
        else attempt (ret (validate_write_regs (frame_of (\<lambda>i. user_word k (buf + 8 * i))))) k (\<lambda>regs. do {
          k \<leftarrow> upd_frame t (\<lambda>_. regs) k;
          ret (Done (Inr 0) k)
        })))"


section \<open>Stopping and starting a queued thread\<close>

definition holds_thread :: "kernel \<Rightarrow> nat \<Rightarrow> rights \<Rightarrow> ptr \<Rightarrow> ptr \<Rightarrow> bool" where
  "holds_thread k idx right caller t \<longleftrightarrow>
     caller_tcb k = ret (Inr caller) \<and> thread_target caller idx right k = ret (Inr t)"

lemma with_thread_holds:
  "holds_thread k idx right caller t \<Longrightarrow> tcbs k t = Some x \<Longrightarrow> with_thread idx right k f = f caller t x"
  by (simp add: holds_thread_def with_thread_def)

lemma holds_thread_frame:
  assumes "holds_thread k idx right caller t" "kcaps k' = kcaps k" "objects k' = objects k" "this_cpu k' = this_cpu k"
    "current (scheds k' (this_cpu k)) = current (scheds k (this_cpu k))"
    "map_option tcb_cspace (tcbs k' caller) = map_option tcb_cspace (tcbs k caller)"
  shows "holds_thread k' idx right caller t"
proof -
  have "caller_cspace caller k' = caller_cspace caller k"
    using assms(6) by (cases "tcbs k caller"; cases "tcbs k' caller") (auto simp: caller_cspace_def)
  then have "thread_target caller idx right k' = thread_target caller idx right k"
    using lookup_cap_frame [OF assms(2)] assms(3) by (simp add: thread_target_def as_thread_def)
  then show ?thesis
    using assms(1,4,5) by (auto simp: holds_thread_def caller_tcb_def current_tcb_def split: if_splits)
qed

text \<open>Enqueueing a thread that is already in the queue, with other threads behind it, cuts those off.\<close>

lemma rq_enqueue_again:
  assumes q: "rq_rep h q (xs @ t # ys)" and ys: "ys \<noteq> []"
  shows "\<exists>q' h'. rq_enqueue q t h = ret (q', h') \<and> rq_rep h' q' (xs @ [t]) \<and> rq_keeps (set (xs @ t # ys)) h h'"
proof -
  define l where "l = last ys"
  have l: "l \<in> set ys" using ys by (simp add: l_def)
  have f: "fifo (nxt run_queue_next h) (rq_head q) (rq_tail q) (xs @ t # ys)"
    and live: "\<forall>x \<in> set (xs @ t # ys). h x \<noteq> None" using q by (auto simp: rq_rep_def)
  then obtain x where x: "h t = Some x" by auto
  obtain y where y: "h l = Some y" using live l by auto
  note xy = x y
  have d: "t \<notin> set xs" "l \<notin> set xs" "l \<noteq> t" using fifo_distinct [OF f] l by auto
  have tail: "rq_tail q = Some l" using f ys by (simp add: fifo_def last_opt_append last_opt_Cons l_def)
  let ?h = "h(t \<mapsto> x\<lparr>run_queue_next := None\<rparr>, l \<mapsto> y\<lparr>run_queue_next := Some t\<rparr>)"
  have "fifo (nxt run_queue_next ?h) (rq_head q) (Some t) (xs @ [t])"
    using f d by (auto simp: fifo_def lseg_append)
  then have "rq_rep ?h (q\<lparr>rq_tail := Some t\<rparr>) (xs @ [t])" using live by (simp add: rq_rep_def)
  moreover have "rq_keeps (set (xs @ t # ys)) h ?h"
    unfolding rq_keeps_def by (intro only_links_upd only_links_refl) (use l xy d in auto)
  moreover have "rq_enqueue q t h = ret (q\<lparr>rq_tail := Some t\<rparr>, ?h)"
    using xy d(3) tail by (simp add: rq_enqueue_def)
  ultimately show ?thesis by blast
qed

lemma sched_enqueue_again:
  assumes r: "run_queues k Q" and c: "c < MAX_CPUS" "p < NUM_PRIORITY_LEVELS"
    and t: "Q c p = xs @ t # ys" "ys \<noteq> []"
  shows "\<exists>k'. sched_enqueue c t p k = ret k' \<and> run_queues k' (Q(c := (Q c)(p := xs @ [t]))) \<and> queues_only k k'"
proof -
  note g = run_queues_get [OF r c]
  have tq: "t \<in> set (Q c p)" using t(1) by simp
  obtain x where x: "tcbs k t = Some x" "magic x = TCB_MAGIC" using run_queues_magic [OF r queuedI [of t Q c p]] tq by blast
  obtain q h where q: "rq_enqueue (queues (scheds k c) ! p) t (tcbs k) = ret (q, h)"
      "rq_rep h q (xs @ [t])" "rq_keeps (set (Q c p)) (tcbs k) h"
    using rq_enqueue_again [OF _ t(2)] g(1) unfolding t(1) by metis
  let ?k = "set_bit_ne c p (put_queue c p q h (increment_load c k))"
  have "sched_enqueue c t p k = ret ?k"
    using x c q(1) by (simp add: sched_enqueue_def increment_load_def)
  moreover have "run_queues ?k (Q(c := (Q c)(p := xs @ [t])))"
  proof (rule run_queues_upd [OF r c, where S = "set (Q c p)"])
    show "\<forall>u \<in> set (xs @ [t]). \<exists>x. tcbs k u = Some x \<and> magic x = TCB_MAGIC"
      using run_queues_magic [OF r queuedI [of _ Q c p]] t(1) by auto
  qed (use q t g(2) c in \<open>auto simp: queue_defs bit_ne_set NUM_PRIORITY_LEVELS_def\<close>)
  moreover have "queues_only k ?k"
    by (rule queues_onlyI) (use rq_keeps_UNIV [OF q(3)] in \<open>simp_all add: queue_defs\<close>)
  ultimately show ?thesis by blast
qed

text \<open>(C33) Stopping and resuming a runnable thread loses the threads queued behind it.
  \<open>sys_thread_stop\<close> leaves a ready thread linked in its run queue, and \<open>sys_thread_start\<close> enqueues it
  once more. Both calls succeed; afterwards the run queue ends with the restarted thread, and the
  threads that were queued behind it are in no run queue although their state is still \<open>Ready\<close>.\<close>

theorem stop_start_loses_threads:
  assumes r: "run_queues k Q" and c: "c < MAX_CPUS" and x: "tcbs k t = Some x" "state x = Ready"
      "cpu_affinity x = c" "c \<noteq> AFFINITY_ANY" "priority x < NUM_PRIORITY_LEVELS" "saved_frame x \<noteq> None"
    and Q: "Q c (priority x) = xs @ t # ys" "ys \<noteq> []"
    and h: "holds_thread k (arg32 0 tf) CONTROL caller t" "caller \<noteq> t"
  shows "\<exists>k1 k2 Q2. sys_thread_stop tf k = ret (Done (Inr 0) k1) \<and> sys_thread_start tf k1 = ret (Done (Inr 0) k2) \<and>
    run_queues k2 Q2 \<and> queued Q2 = queued Q - set ys \<and>
    (\<forall>u \<in> set ys. map_option state (tcbs k2 u) = map_option state (tcbs k u))"
proof -
  let ?k1 = "k\<lparr>tcbs := (tcbs k)(t \<mapsto> x\<lparr>state := Stopped\<rparr>)\<rparr>"
  let ?k = "k\<lparr>tcbs := (tcbs k)(t \<mapsto> x\<lparr>state := Ready\<rparr>)\<rparr>"
  let ?Q = "Q(c := (Q c)(priority x := xs @ [t]))"
  have stop: "sys_thread_stop tf k = ret (Done (Inr 0) ?k1)"
    using x(1,2) h by (simp add: sys_thread_stop_def with_thread_holds upd_tcb_def)
  have h1: "holds_thread ?k1 (arg32 0 tf) CONTROL caller t"
    by (rule holds_thread_frame [OF h(1)]) (use h(2) in simp_all)
  have r1: "run_queues ?k Q" by (rule run_queues_tcb [OF r x(1)]) simp_all
  obtain k2 where k2: "enqueue_and_wake t c (priority x) ?k = ret k2" "run_queues k2 ?Q" "woke ?k k2"
    using sched_enqueue_again [OF r1 c x(5) Q] enqueue_and_wake_step [where t = t and k = ?k, OF _ _ _ c] by fastforce
  have "select_target_cpu t ?k = ret c" using x by (simp add: select_target_cpu_def)
  then have start: "sys_thread_start tf ?k1 = ret (Done (Inr 0) k2)"
    using x h1 k2(1) by (auto simp: sys_thread_start_def with_thread_holds upd_tcb_def wake_thread_def)
  have "distinct (Q c (priority x))" by (rule run_queues_distinct [OF r])
  then have d: "set ys \<inter> set (xs @ [t]) = {}" using Q(1) by auto
  have t_ys: "t \<notin> set ys" using d by auto
  have "queued ?Q = queued Q - set ys"
  proof
    show "queued ?Q \<subseteq> queued Q - set ys"
    proof
      fix u assume "u \<in> queued ?Q"
      then obtain a p where u: "u \<in> set (?Q a p)" by (auto simp: queued_def)
      show "u \<in> queued Q - set ys"
      proof (cases "a = c \<and> p = priority x")
        case True
        then show ?thesis using u d Q(1) queuedI [of u Q c "priority x"] by auto
      next
        case False
        then have "u \<in> set (Q a p)" using u by (auto split: if_splits)
        then show ?thesis using run_queues_disjoint [OF r, of u a p c "priority x"] False Q(1) queuedI [of u Q a p] by auto
      qed
    qed
    show "queued Q - set ys \<subseteq> queued ?Q"
    proof
      fix u assume "u \<in> queued Q - set ys"
      then obtain a p where "u \<in> set (Q a p)" "u \<notin> set ys" by (auto simp: queued_def)
      then have "u \<in> set (?Q a p)" using Q(1) by auto
      then show "u \<in> queued ?Q" by (rule queuedI)
    qed
  qed
  moreover have "map_option state (tcbs k2 u) = map_option state (tcbs k u)" if "u \<in> set ys" for u
  proof -
    have "u \<in> queued Q" using that Q(1) by (intro queuedI [of u Q c "priority x"]) simp
    then obtain y where "tcbs k u = Some y" using run_queues_magic [OF r] by blast
    moreover have "u \<noteq> t" using that t_ys by auto
    ultimately show ?thesis using woke_tcb [OF k2(3), of u y] by auto
  qed
  ultimately show ?thesis using stop start k2(2) by blast
qed


definition demo_queued_kernel :: kernel where
  "demo_queued_kernel = with_cap TagThread CONTROL (ThreadObj (Some 7))
     (let x = blank_tcb\<lparr>state := Ready, cpu_affinity := 0, saved_frame := Some zero_frame\<rparr>
      in demo_kernel\<lparr>tcbs := (tcbs demo_kernel)(6 \<mapsto> x, 7 \<mapsto> x)\<rparr>)"

lemma demo_queued_ok:
  "run_queues demo_queued_kernel (\<lambda>c p. [])" "holds_thread demo_queued_kernel 1 CONTROL 3 7"
  "t \<in> {6, 7} \<Longrightarrow> tcbs demo_queued_kernel t = Some (blank_tcb\<lparr>state := Ready, cpu_affinity := 0, saved_frame := Some zero_frame\<rparr>)"
proof -
  let ?x = "blank_tcb\<lparr>state := Ready, cpu_affinity := 0, saved_frame := Some zero_frame\<rparr>"
  have "run_queues (demo_kernel\<lparr>tcbs := (tcbs demo_kernel)(6 \<mapsto> ?x, 7 \<mapsto> ?x)\<rparr>) (\<lambda>c p. [])"
    by (rule run_queues_cong [OF demo_kernel_queues]) (simp_all add: demo_kernel_tcb)
  then show "run_queues demo_queued_kernel (\<lambda>c p. [])"
    unfolding demo_queued_kernel_def Let_def by (rule with_cap_queues) (simp add: demo_kernel_tcb)
  show "t \<in> {6, 7} \<Longrightarrow> tcbs demo_queued_kernel t = Some ?x"
    by (auto simp: demo_queued_kernel_def with_cap_fields Let_def)
  have "current_tcb demo_queued_kernel = ret (Some 3)"
    by (simp add: Let_def demo_queued_kernel_def current_tcb_def with_cap_fields demo_kernel_def blank_kernel_def MAX_CPUS_def)
  moreover have "caller_cspace 3 demo_queued_kernel = ret (Some 500)"
    by (simp add: Let_def demo_queued_kernel_def caller_cspace_def with_cap_fields)
  moreover have "as_thread 600 demo_queued_kernel = ret (Some 7)"
    by (simp add: demo_queued_kernel_def as_thread_def with_cap_fields KernelObject_new_def)
  moreover have "lookup_cap (Some 500) 1 TagThread CONTROL demo_queued_kernel =
      ret (Inr (null_slot\<lparr>tag := TagThread, rights := CONTROL, object := Some 600\<rparr>))"
    unfolding demo_queued_kernel_def by (rule with_cap_lookup)
  ultimately show "holds_thread demo_queued_kernel 1 CONTROL 3 7"
    by (simp add: holds_thread_def caller_tcb_def thread_target_def slot_object_def)
qed

theorem stop_start_loses_threads_witness:
  "\<exists>k tf k1 k2 Q2. sys_thread_stop tf k = ret (Done (Inr 0) k1) \<and> sys_thread_start tf k1 = ret (Done (Inr 0) k2) \<and>
    run_queues k2 Q2 \<and> queued Q2 = {7}"
proof -
  let ?x = "blank_tcb\<lparr>state := Ready, cpu_affinity := 0, saved_frame := Some zero_frame\<rparr>"
  let ?tf = "zero_frame\<lparr>rdi := 1\<rparr>"
  let ?Q = "(\<lambda>c p. [])(0 := (\<lambda>p. [])(10 := [7 :: ptr])) :: nat \<Rightarrow> nat \<Rightarrow> ptr list"
  let ?R = "(\<lambda>c p. [])(0 := (\<lambda>p. [])(10 := [7, 6 :: ptr])) :: nat \<Rightarrow> nat \<Rightarrow> ptr list"
  have m: "magic ?x = TCB_MAGIC" "(0 :: nat) < MAX_CPUS" "(10 :: nat) < NUM_PRIORITY_LEVELS"
    by (simp_all add: blank_tcb_def MAX_CPUS_def NUM_PRIORITY_LEVELS_def)
  obtain k1 where k1: "run_queues k1 ?Q" "queues_only demo_queued_kernel k1"
    using sched_enqueue_ok [OF demo_queued_ok(1) m(2,3), of 7 ?x] demo_queued_ok(3) [of 7] m(1) by (auto simp: queued_def)
  obtain n where n: "tcbs k1 6 = Some (?x\<lparr>run_queue_next := n\<rparr>)"
    using queues_only_tcb [OF k1(2), of 6 ?x] demo_queued_ok(3) [of 6] by auto
  have "6 \<notin> queued ?Q" by (simp add: queued_def)
  then obtain k where k: "run_queues k (?Q(0 := (?Q 0)(10 := ?Q 0 10 @ [6])))" "queues_only k1 k"
    using sched_enqueue_ok [OF k1(1) m(2,3) _ n] m(1) by auto
  have r: "run_queues k ?R" using k(1) by simp
  have q: "queues_only demo_queued_kernel k" by (rule queues_only_trans [OF k1(2) k(2)])
  obtain n where n: "tcbs k 7 = Some (?x\<lparr>run_queue_next := n\<rparr>)"
    using queues_only_tcb [OF q, of 7 ?x] demo_queued_ok(3) [of 7] by auto
  have "tcbs demo_queued_kernel 3 \<noteq> None" by (simp add: demo_queued_kernel_def with_cap_fields)
  then obtain y i where y: "tcbs demo_queued_kernel 3 = Some y" "tcbs k 3 = Some (y\<lparr>run_queue_next := i\<rparr>)"
    using queues_only_tcb [OF q, of 3] by auto
  have a: "arg32 0 ?tf = 1" by (simp add: arg32_def arg_def)
  have "holds_thread k (arg32 0 ?tf) CONTROL 3 7" unfolding a
    by (rule holds_thread_frame [OF demo_queued_ok(2)]) (use queues_only_fields [OF q] queues_onlyD(2) [OF q] y in simp_all)
  then obtain a1 a2 Q2 where "sys_thread_stop ?tf k = ret (Done (Inr 0) a1)" "sys_thread_start ?tf a1 = ret (Done (Inr 0) a2)"
    "run_queues a2 Q2" "queued Q2 = queued ?R - {6}"
    using stop_start_loses_threads [OF r m(2) n, of "[]" "[6]" ?tf 3]
    by (auto simp: AFFINITY_ANY_def blank_tcb_def PRIORITY_DEFAULT_def NUM_PRIORITY_LEVELS_def)
  moreover have "queued ?R - {6} = {7}" by (auto simp: queued_def split: if_splits)
  ultimately show ?thesis by auto
qed

end
