(* ===== verification/Paging.thy ===== *)
theory Paging
  imports Kernel_State
begin

text \<open>
  Page tables of user address spaces on x86-64: \<open>kernel/src/arch/x86_64/paging.rs\<close> and the entry points of
  \<open>kernel/src/mm/address_space.rs\<close>. A table is a frame of 512 entries, named by its physical address; the
  direct map through which the kernel reaches it is the identity here. Missing tables come from the
  buddy allocator. Flushing the TLB, the shootdown of remote CPUs and the page table lock are not
  modelled, and neither are the tables of the kernel half, which all address spaces share.
\<close>

unbundle bit_operations_syntax

section \<open>Entries\<close>

definition PRESENT :: u64 where "PRESENT = 1"
definition WRITABLE :: u64 where "WRITABLE = 2"
definition USER :: u64 where "USER = 4"
definition PWT :: u64 where "PWT = 8"
definition PCD :: u64 where "PCD = 16"
definition NO_EXECUTE :: u64 where "NO_EXECUTE = 0x8000000000000000"
definition PHYS_MASK :: u64 where "PHYS_MASK = 0x000FFFFFFFFFF000"

record page_flags =
  readable :: bool
  writable :: bool
  executable :: bool
  uncacheable :: bool

definition new_table :: "u64 \<Rightarrow> u64" where
  "new_table phys = PRESENT OR WRITABLE OR (phys AND PHYS_MASK)"

definition new_page :: "u64 \<Rightarrow> page_flags \<Rightarrow> u64" where
  "new_page phys fl =
     (let bits = PRESENT OR (phys AND PHYS_MASK);
          bits = (if writable fl then bits OR WRITABLE else bits);
          bits = (if \<not> executable fl then bits OR NO_EXECUTE else bits)
      in if uncacheable fl then bits OR (PCD OR PWT) else bits)"

definition phys_addr :: "u64 \<Rightarrow> u64" where
  "phys_addr e = e AND PHYS_MASK"

definition is_present :: "u64 \<Rightarrow> bool" where
  "is_present e \<longleftrightarrow> e AND PRESENT \<noteq> 0"

section \<open>Indices of a virtual address\<close>

definition pml4_index :: "u64 \<Rightarrow> nat" where "pml4_index va = unat (drop_bit 39 va AND 0x1FF)"
definition pdpt_index :: "u64 \<Rightarrow> nat" where "pdpt_index va = unat (drop_bit 30 va AND 0x1FF)"
definition pd_index :: "u64 \<Rightarrow> nat" where "pd_index va = unat (drop_bit 21 va AND 0x1FF)"
definition pt_index :: "u64 \<Rightarrow> nat" where "pt_index va = unat (drop_bit 12 va AND 0x1FF)"

section \<open>Walking and mapping\<close>

type_synonym tables = "nat \<Rightarrow> nat \<Rightarrow> u64"

definition set_entry :: "nat \<Rightarrow> nat \<Rightarrow> u64 \<Rightarrow> tables \<Rightarrow> tables" where
  "set_entry f i e m = m(f := (m f)(i := e))"

definition zero_table :: "nat \<Rightarrow> tables \<Rightarrow> tables" where
  "zero_table f m = m(f := \<lambda>_. 0)"

datatype paging_error = OutOfFrames | NotMapped

definition user_walk_or_alloc :: "nat \<Rightarrow> nat \<Rightarrow> tables \<Rightarrow> buddy \<Rightarrow> ((unit, nat) result \<times> tables \<times> buddy) run" where
  "user_walk_or_alloc f i m b =
     (if is_present (m f i) then ret (Inr (unat (phys_addr (m f i))), m, b)
      else do {
        (fr, b) \<leftarrow> buddy_alloc 0 b;
        (case fr of
           None \<Rightarrow> ret (Inl (), m, b)
         | Some pa \<Rightarrow> ret (Inr pa, set_entry f i (new_table (of_nat pa) OR USER) (zero_table pa m), b))
      })"

definition map_user_page ::
  "nat \<Rightarrow> u64 \<Rightarrow> u64 \<Rightarrow> page_flags \<Rightarrow> tables \<Rightarrow> buddy \<Rightarrow> ((unit, unit) result \<times> tables \<times> buddy) run" where
  "map_user_page root virt phys fl m b = do {
     (r, m, b) \<leftarrow> user_walk_or_alloc root (pml4_index virt) m b;
     (case r of
        Inl _ \<Rightarrow> ret (Inl (), m, b)
      | Inr pdpt \<Rightarrow> do {
          (r, m, b) \<leftarrow> user_walk_or_alloc pdpt (pdpt_index virt) m b;
          (case r of
             Inl _ \<Rightarrow> ret (Inl (), m, b)
           | Inr pd \<Rightarrow> do {
               (r, m, b) \<leftarrow> user_walk_or_alloc pd (pd_index virt) m b;
               (case r of
                  Inl _ \<Rightarrow> ret (Inl (), m, b)
                | Inr pt \<Rightarrow> ret (Inr (), set_entry pt (pt_index virt) (new_page phys fl OR USER) m, b))
             })
        })
   }"

text \<open>The walk without allocation that the other operations share: the page table that holds the
  leaf entry of an address, if all levels above it are present.\<close>

definition next_table :: "nat \<Rightarrow> nat \<Rightarrow> tables \<Rightarrow> nat option" where
  "next_table f i m = (if is_present (m f i) then Some (unat (phys_addr (m f i))) else None)"

definition leaf_table :: "nat \<Rightarrow> u64 \<Rightarrow> tables \<Rightarrow> nat option" where
  "leaf_table root virt m = do {
     pdpt \<leftarrow> next_table root (pml4_index virt) m;
     pd \<leftarrow> next_table pdpt (pdpt_index virt) m;
     next_table pd (pd_index virt) m
   }"

definition unmap_user_page :: "nat \<Rightarrow> u64 \<Rightarrow> tables \<Rightarrow> tables" where
  "unmap_user_page root virt m =
     (case leaf_table root virt m of None \<Rightarrow> m | Some pt \<Rightarrow> set_entry pt (pt_index virt) 0 m)"

definition protect_user_page :: "nat \<Rightarrow> u64 \<Rightarrow> page_flags \<Rightarrow> tables \<Rightarrow> (paging_error, unit) result \<times> tables" where
  "protect_user_page root virt fl m =
     (case leaf_table root virt m of
        None \<Rightarrow> (Inl NotMapped, m)
      | Some pt \<Rightarrow>
          let leaf = m pt (pt_index virt) in
          if \<not> is_present leaf then (Inl NotMapped, m)
          else (Inr (), set_entry pt (pt_index virt) (new_page (phys_addr leaf) fl OR USER) m))"

definition translate_user_page :: "nat \<Rightarrow> u64 \<Rightarrow> tables \<Rightarrow> (u64 \<times> u64) option" where
  "translate_user_page root virt m =
     (case leaf_table root virt m of
        None \<Rightarrow> None
      | Some pt \<Rightarrow>
          let leaf = m pt (pt_index virt) in
          if is_present leaf then Some (phys_addr leaf, leaf) else None)"

section \<open>Bits of an entry\<close>

lemmas pte_defs = PRESENT_def WRITABLE_def USER_def PWT_def PCD_def NO_EXECUTE_def PHYS_MASK_def

lemma phys_mask_eq: "PHYS_MASK = push_bit 12 (mask 40)"
  by (simp add: pte_defs mask_eq_exp_minus_1 push_bit_eq_mult)

lemma bit_flags:
  "bit PRESENT n \<longleftrightarrow> n = 0" "bit WRITABLE n \<longleftrightarrow> n = 1" "bit USER n \<longleftrightarrow> n = 2" "bit PWT n \<longleftrightarrow> n = 3" "bit PCD n \<longleftrightarrow> n = 4"
  "bit NO_EXECUTE n \<longleftrightarrow> n = 63" "bit PHYS_MASK n \<longleftrightarrow> 12 \<le> n \<and> n < 52"
proof -
  have f: "PRESENT = 2 ^ 0" "WRITABLE = 2 ^ 1" "USER = 2 ^ 2" "PWT = 2 ^ 3" "PCD = 2 ^ 4" "NO_EXECUTE = 2 ^ 63"
    by (simp_all add: pte_defs)
  show "bit PRESENT n \<longleftrightarrow> n = 0" "bit WRITABLE n \<longleftrightarrow> n = 1" "bit USER n \<longleftrightarrow> n = 2" "bit PWT n \<longleftrightarrow> n = 3" "bit PCD n \<longleftrightarrow> n = 4"
    "bit NO_EXECUTE n \<longleftrightarrow> n = 63"
    unfolding f bit_exp_iff by (auto simp: possible_bit_word)
  show "bit PHYS_MASK n \<longleftrightarrow> 12 \<le> n \<and> n < 52"
    unfolding phys_mask_eq by (auto simp: bit_push_bit_iff bit_mask_iff possible_bit_word)
qed

lemma is_present_bit: "is_present e \<longleftrightarrow> bit e 0"
  by (simp add: is_present_def PRESENT_def and_one_eq odd_iff_mod_2_eq_one bit_0)

lemma new_page_fields:
  "is_present (new_page a fl OR USER)" "phys_addr (new_page a fl OR USER) = a AND PHYS_MASK"
  "bit (new_page a fl OR USER) 1 = writable fl" "bit (new_page a fl OR USER) 63 = (\<not> executable fl)"
  by (auto simp: is_present_bit new_page_def phys_addr_def Let_def bit_simps bit_flags intro!: bit_eqI)

lemma is_present_0 [simp]: "\<not> is_present 0"
  by (simp add: is_present_def)

lemma new_table_fields:
  "is_present (new_table a OR USER)" "phys_addr (new_table a OR USER) = a AND PHYS_MASK"
  by (auto simp: is_present_bit new_table_def phys_addr_def bit_simps bit_flags intro!: bit_eqI)

text \<open>A page-aligned physical address below 2^52 survives the mask.\<close>

lemma phys_mask_frame:
  assumes "PAGE_SIZE dvd pa" "pa div PAGE_SIZE < 2 ^ 40"
  shows "unat (of_nat pa AND PHYS_MASK) = pa"
proof -
  obtain q where q: "pa = 4096 * q" "q < 2 ^ 40" using assms by (auto simp: PAGE_SIZE_def elim!: dvdE)
  have "(of_nat pa :: u64) = push_bit 12 (of_nat q)" using q by (simp add: push_bit_eq_mult)
  moreover have "take_bit 40 (of_nat q :: u64) = of_nat q" using q(2) by (simp add: take_bit_of_nat take_bit_nat_eq_self)
  ultimately have "of_nat pa AND PHYS_MASK = (of_nat pa :: u64)"
    by (simp only: phys_mask_eq push_bit_and [symmetric] take_bit_eq_mask)
  moreover have "unat (of_nat pa :: u64) = pa" using q unfolding unat_of_nat by simp
  ultimately show ?thesis by simp
qed

section \<open>Tables reached from a root\<close>

fun reach :: "tables \<Rightarrow> nat \<Rightarrow> nat list \<Rightarrow> nat option" where
  "reach m f [] = Some f"
| "reach m f (i # is) = (case next_table f i m of None \<Rightarrow> None | Some g \<Rightarrow> reach m g is)"

lemma reach_append: "reach m f (is @ js) = (case reach m f is of None \<Rightarrow> None | Some g \<Rightarrow> reach m g js)"
  by (induction "is" arbitrary: f) (auto split: option.split)

lemma reach_snoc: "reach m f (is @ [i]) = (case reach m f is of None \<Rightarrow> None | Some g \<Rightarrow> next_table g i m)"
  by (auto simp: reach_append split: option.split)

text \<open>Paths of at most three indices that start in the user half. The path of an address leads to its
  page table.\<close>

definition user_path :: "nat list \<Rightarrow> bool" where
  "user_path is \<longleftrightarrow> length is \<le> 3 \<and> (is \<noteq> [] \<longrightarrow> hd is < 256)"

definition path_of :: "u64 \<Rightarrow> nat list" where
  "path_of va = [pml4_index va, pdpt_index va, pd_index va]"

definition page_of :: "u64 \<Rightarrow> u64" where
  "page_of va = drop_bit 12 va"

lemma leaf_table_reach: "leaf_table root va m = reach m root (path_of va)"
  by (simp add: leaf_table_def path_of_def Option.bind_def split: option.split)

definition USER_HALF_TOP :: u64 where "USER_HALF_TOP = 0x800000000000"

lemma user_half_bits: "va < USER_HALF_TOP \<Longrightarrow> bit va n \<Longrightarrow> n < 47"
proof -
  assume "va < USER_HALF_TOP" "bit va n"
  then have "take_bit 47 (unat va) = unat va"
    by (intro take_bit_nat_eq_self) (simp add: USER_HALF_TOP_def word_less_nat_alt)
  then have "take_bit 47 va = va" by (metis unsigned_take_bit_eq unsigned_word_eqI)
  then show "n < 47" using \<open>bit va n\<close> by (metis bit_take_bit_iff)
qed

lemma index_bits:
  fixes va va' :: u64
  shows "unat (drop_bit k va AND 0x1FF) = unat (drop_bit k va' AND 0x1FF) \<longleftrightarrow> (\<forall>n \<in> {k..<k + 9}. bit va n = bit va' n)"
proof -
  have b: "bit (drop_bit k w AND 0x1FF) n \<longleftrightarrow> n < 9 \<and> bit w (k + n)" for w :: u64 and n
  proof -
    have "(0x1FF :: u64) = mask 9" by (simp add: mask_eq_exp_minus_1)
    then show ?thesis unfolding \<open>0x1FF = _\<close> bit_and_iff bit_drop_bit_eq bit_mask_iff comp_def by auto
  qed
  have "unat (drop_bit k va AND 0x1FF) = unat (drop_bit k va' AND 0x1FF) \<longleftrightarrow>
          (\<forall>n < 9. bit va (k + n) = bit va' (k + n))"
  proof
    assume "unat (drop_bit k va AND 0x1FF) = unat (drop_bit k va' AND 0x1FF)"
    then have "drop_bit k va AND 0x1FF = drop_bit k va' AND 0x1FF" by (simp only: word_unat_eq_iff)
    then show "\<forall>n < 9. bit va (k + n) = bit va' (k + n)" using b [of va] b [of va'] by metis
  next
    assume "\<forall>n < 9. bit va (k + n) = bit va' (k + n)"
    then have "drop_bit k va AND 0x1FF = drop_bit k va' AND 0x1FF" using b by (intro bit_word_eqI) blast
    then show "unat (drop_bit k va AND 0x1FF) = unat (drop_bit k va' AND 0x1FF)" by simp
  qed
  also have "\<dots> \<longleftrightarrow> (\<forall>n \<in> {k..<k + 9}. bit va n = bit va' n)"
    unfolding Ball_def atLeastLessThan_iff by (metis le_add1 le_add_diff_inverse nat_add_left_cancel_less)
  finally show ?thesis .
qed

lemma index_less: "unat (drop_bit k (va :: u64) AND 0x1FF) < 512"
proof -
  have "drop_bit k va AND 0x1FF \<le> 0x1FF" by (rule word_and_le1)
  then show ?thesis by (simp add: word_le_nat_alt)
qed

lemma bit_drop_pages:
  fixes va va' :: u64
  shows "drop_bit 12 va = drop_bit 12 va' \<longleftrightarrow> (\<forall>n \<ge> 12. bit va n = bit va' n)"
proof
  assume h: "drop_bit 12 va = drop_bit 12 va'"
  have "bit va (12 + n) = bit va' (12 + n)" for n
    using arg_cong [OF h, of "\<lambda>w. bit w n"] unfolding bit_drop_bit_eq comp_def .
  then show "\<forall>n \<ge> 12. bit va n = bit va' n" by (metis le_add_diff_inverse)
next
  assume "\<forall>n \<ge> 12. bit va n = bit va' n"
  then show "drop_bit 12 va = drop_bit 12 va'" by (intro bit_word_eqI) (simp add: bit_drop_bit_eq)
qed

lemma same_page:
  assumes "va < USER_HALF_TOP" "va' < USER_HALF_TOP"
  shows "path_of va = path_of va' \<and> pt_index va = pt_index va' \<longleftrightarrow> page_of va = page_of va'"
proof -
  have u: "{12..<48} = {39..<39 + 9} \<union> {30..<30 + 9} \<union> {21..<21 + 9} \<union> {12..<12 + 9 :: nat}" by auto
  have "path_of va = path_of va' \<and> pt_index va = pt_index va' \<longleftrightarrow> (\<forall>n \<in> {12..<48}. bit va n = bit va' n)"
    unfolding u ball_Un index_bits [symmetric]
    by (simp only: path_of_def pml4_index_def pdpt_index_def pd_index_def pt_index_def list.inject simp_thms conj_assoc)
  also have "\<dots> \<longleftrightarrow> (\<forall>n \<ge> 12. bit va n = bit va' n)"
  proof -
    have "bit va n = bit va' n" if "\<not> n < 48" for n
      using user_half_bits [OF assms(1), of n] user_half_bits [OF assms(2), of n] that by auto
    then show ?thesis unfolding Ball_def atLeastLessThan_iff by blast
  qed
  also have "\<dots> \<longleftrightarrow> page_of va = page_of va'" unfolding page_of_def bit_drop_pages ..
  finally show ?thesis .
qed

lemma user_path_of: "va < USER_HALF_TOP \<Longrightarrow> user_path (path_of va)"
proof -
  assume "va < USER_HALF_TOP"
  have "drop_bit 39 va < 256"
  proof -
    have "unat va div 2 ^ 39 < 256"
      using \<open>va < USER_HALF_TOP\<close> by (simp add: USER_HALF_TOP_def word_less_nat_alt less_mult_imp_div_less)
    then show ?thesis by (simp add: word_less_nat_alt unat_div drop_bit_eq_div)
  qed
  moreover have "drop_bit 39 va AND 0x1FF \<le> drop_bit 39 va" by (rule word_and_le2)
  ultimately have "drop_bit 39 va AND 0x1FF < 256" by simp
  then show ?thesis by (simp add: user_path_def path_of_def pml4_index_def word_less_nat_alt)
qed

lemma user_path_snoc: "user_path (is @ [i]) \<Longrightarrow> user_path is"
  by (auto simp: user_path_def hd_append split: if_splits)

section \<open>Separation of the tables\<close>

text \<open>
  No table is shared: a table is reached from one root by one path only, so each table belongs to one
  address space and sits at one level. All tables lie in allocated frames.
\<close>

definition separate :: "tables \<Rightarrow> nat set \<Rightarrow> bool" where
  "separate m R \<longleftrightarrow>
     (\<forall>r \<in> R. \<forall>r' \<in> R. \<forall>is js t. user_path is \<longrightarrow> user_path js \<longrightarrow>
        reach m r is = Some t \<longrightarrow> reach m r' js = Some t \<longrightarrow> r = r' \<and> is = js)"

definition allocated :: "tables \<Rightarrow> nat set \<Rightarrow> buddy \<Rightarrow> bool" where
  "allocated m R b \<longleftrightarrow>
     (\<forall>r \<in> R. \<forall>is t. user_path is \<longrightarrow> reach m r is = Some t \<longrightarrow> t div PAGE_SIZE \<notin> free_frames b)"

definition frames_ok :: "buddy \<Rightarrow> bool" where
  "frames_ok b \<longleftrightarrow> buddy_ok b \<and> demand (free_blocks b) \<le> POOL_SIZE \<and> free_frames b \<subseteq> {..<2 ^ 40}"

definition paging_ok :: "tables \<Rightarrow> nat set \<Rightarrow> buddy \<Rightarrow> bool" where
  "paging_ok m R b \<longleftrightarrow> separate m R \<and> allocated m R b"

lemma separateD:
  "separate m R \<Longrightarrow> r \<in> R \<Longrightarrow> r' \<in> R \<Longrightarrow> user_path is \<Longrightarrow> user_path js \<Longrightarrow> reach m r is = Some t \<Longrightarrow>
     reach m r' js = Some t \<Longrightarrow> r = r' \<and> is = js"
  unfolding separate_def by blast

lemma allocatedD:
  "allocated m R b \<Longrightarrow> r \<in> R \<Longrightarrow> user_path is \<Longrightarrow> reach m r is = Some t \<Longrightarrow> t div PAGE_SIZE \<notin> free_frames b"
  unfolding allocated_def by blast

text \<open>A frame for a table: aligned, representable, free before and not after.\<close>

lemma alloc_frame:
  assumes "frames_ok b"
  obtains (frame) pa b' where "buddy_alloc 0 b = ret (Some pa, b')" "frames_ok b'" "PAGE_SIZE dvd pa"
      "pa div PAGE_SIZE < 2 ^ 40" "pa div PAGE_SIZE \<in> free_frames b"
      "free_frames b' = free_frames b - {pa div PAGE_SIZE}"
    | (out) "buddy_alloc 0 b = ret (None, b)" "free_frames b = {}"
proof -
  have h: "buddy_ok b" "demand (free_blocks b) \<le> POOL_SIZE" "free_frames b \<subseteq> {..<2 ^ 40}"
    using assms by (auto simp: frames_ok_def)
  have pg: "pages 0 a = {a div PAGE_SIZE}" for a by (simp add: pages_def)
  show thesis
    using alloc_ok [OF h(1) le0 h(2)]
  proof (elim disjE exE conjE)
    fix a b'
    assume *: "buddy_alloc 0 b = ret (Some a, b')" "buddy_ok b'" "aligned 0 a" "pages 0 a \<subseteq> free_frames b"
      "free_frames b' = free_frames b - pages 0 a" "demand (free_blocks b') \<le> demand (free_blocks b)"
    have "frames_ok b'" using *(2,5,6) h(2,3) by (auto simp: frames_ok_def)
    then show thesis using * h(3) by (intro frame) (auto simp: aligned_def pg)
  next
    assume "buddy_alloc 0 b = ret (None, b)" "\<forall>i \<in> {0..MAX_ORDER}. free_blocks b i = []"
    then show thesis by (intro out) (auto simp: free_frames_def free_set_def)
  qed
qed

section \<open>Adding a table\<close>

definition add_table :: "nat \<Rightarrow> nat \<Rightarrow> nat \<Rightarrow> tables \<Rightarrow> tables" where
  "add_table f i pa m = set_entry f i (new_table (of_nat pa) OR USER) (zero_table pa m)"

lemma next_table_new:
  assumes "PAGE_SIZE dvd pa" "pa div PAGE_SIZE < 2 ^ 40"
  shows "next_table t j (add_table f i pa m) =
     (if t = f \<and> j = i then Some pa else if t = pa then None else next_table t j m)"
  using phys_mask_frame [OF assms]
  by (auto simp: next_table_def add_table_def set_entry_def zero_table_def new_table_fields is_present_0)

lemma reach_add_table:
  assumes ok: "paging_ok m R b" and r: "r \<in> R" "reach m r is = Some f" "user_path (is @ [i])" "next_table f i m = None"
    and pa: "PAGE_SIZE dvd pa" "pa div PAGE_SIZE < 2 ^ 40" "pa div PAGE_SIZE \<in> free_frames b"
    and r': "r' \<in> R" "user_path js"
  shows "reach (add_table f i pa m) r' js = (if r' = r \<and> js = is @ [i] then Some pa else reach m r' js)"
  using r'(2)
proof (induction js rule: rev_induct)
  case Nil
  then show ?case by simp
next
  case (snoc j js)
  have p: "user_path js" using snoc.prems by (rule user_path_snoc)
  note IH = snoc.IH [OF p] and pi = user_path_snoc [OF r(3)]
  have old: "t \<noteq> pa" "t = f \<longleftrightarrow> r' = r \<and> js = is" if "reach m r' js = Some t" for t
    using allocatedD [of m R b r' js t] separateD [of m R r' r js "is" f] ok that r(1,2) r' p pi pa(3)
    by (auto simp: paging_ok_def)
  have f: "f \<noteq> pa" using allocatedD [of m R b r "is" f] ok r(1,2) pi pa(3) by (auto simp: paging_ok_def)
  note new = next_table_new [OF pa(1,2), where f = f and i = i and m = m]
  show ?case
  proof (cases "r' = r \<and> js = is @ [i]")
    case True
    then show ?thesis using IH f r(2,4) by (simp add: reach_snoc new del: append_assoc)
  next
    case False
    then have same: "reach (add_table f i pa m) r' js = reach m r' js" using IH by auto
    show ?thesis
    proof (cases "reach m r' js")
      case None
      then show ?thesis using same r(2) by (auto simp: reach_snoc)
    next
      case (Some t)
      then show ?thesis using same old [OF Some] by (auto simp: reach_snoc new)
    qed
  qed
qed

text \<open>Adding a table keeps the tables separate and every translation.\<close>

lemma leaf_entry_add_table:
  assumes ok: "paging_ok m R b" and r: "r \<in> R" "reach m r is = Some f" "user_path (is @ [i])" "next_table f i m = None"
    and pa: "PAGE_SIZE dvd pa" "pa div PAGE_SIZE < 2 ^ 40" "pa div PAGE_SIZE \<in> free_frames b"
    and r': "r' \<in> R" "va < USER_HALF_TOP"
  shows "translate_user_page r' va (add_table f i pa m) = translate_user_page r' va m"
proof -
  note p = user_path_of [OF r'(2)]
  note reach = reach_add_table [OF ok r pa r'(1) p]
  show ?thesis
  proof (cases "r' = r \<and> path_of va = is @ [i]")
    case True
    have "f \<noteq> pa"
      using allocatedD [of m R b r "is" f] ok r(1,2) user_path_snoc [OF r(3)] pa(3) by (auto simp: paging_ok_def)
    then have "add_table f i pa m pa j = 0" for j by (simp add: add_table_def set_entry_def zero_table_def)
    moreover have "leaf_table r' va m = None" using True r(2,4) by (simp add: leaf_table_reach reach_snoc)
    ultimately show ?thesis using reach True by (simp add: translate_user_page_def leaf_table_reach)
  next
    case False
    then have same: "leaf_table r' va (add_table f i pa m) = leaf_table r' va m"
      using reach unfolding leaf_table_reach by (metis (full_types))
    have "add_table f i pa m t j = m t j" if "leaf_table r' va m = Some t" for t j
    proof -
      have t: "reach m r' (path_of va) = Some t" using that by (simp add: leaf_table_reach)
      have "t \<noteq> pa" using allocatedD [of m R b r' "path_of va" t] ok r'(1) p t pa(3) by (auto simp: paging_ok_def)
      moreover have "t \<noteq> f"
        using separateD [of m R r' r "path_of va" "is" f] ok r'(1) r p user_path_snoc [OF r(3)] t
        by (auto simp: paging_ok_def user_path_def path_of_def)
      ultimately show ?thesis by (simp add: add_table_def set_entry_def zero_table_def)
    qed
    then show ?thesis using same by (simp add: translate_user_page_def split: option.split)
  qed
qed

lemma paging_add_table:
  assumes ok: "paging_ok m R b" and r: "r \<in> R" "reach m r is = Some f" "user_path (is @ [i])" "next_table f i m = None"
    and pa: "PAGE_SIZE dvd pa" "pa div PAGE_SIZE < 2 ^ 40" "pa div PAGE_SIZE \<in> free_frames b"
    and b': "free_frames b' = free_frames b - {pa div PAGE_SIZE}"
  shows "paging_ok (add_table f i pa m) R b'"
proof -
  note reach = reach_add_table [OF ok r pa]
  have new: "t \<noteq> pa" if "r' \<in> R" "user_path js" "reach m r' js = Some t" for r' js t
    using allocatedD [of m R b r' js t] ok that pa(3) by (auto simp: paging_ok_def)
  have "separate (add_table f i pa m) R"
    unfolding separate_def
  proof (intro ballI allI impI)
    fix r1 r2 p1 p2 t
    assume *: "r1 \<in> R" "r2 \<in> R" "user_path p1" "user_path p2" "reach (add_table f i pa m) r1 p1 = Some t"
      "reach (add_table f i pa m) r2 p2 = Some t"
    show "r1 = r2 \<and> p1 = p2"
      using * reach [OF *(1,3)] reach [OF *(2,4)] new separateD [of m R r1 r2 p1 p2 t] ok
      by (auto simp: paging_ok_def split: if_splits)
  qed
  moreover have "allocated (add_table f i pa m) R b'"
    unfolding allocated_def
  proof (intro ballI allI impI)
    fix r1 p1 t
    assume *: "r1 \<in> R" "user_path p1" "reach (add_table f i pa m) r1 p1 = Some t"
    show "t div PAGE_SIZE \<notin> free_frames b'"
      using reach [OF *(1,2)] *(3) b' allocatedD [of m R b r1 p1 t] ok * by (auto simp: paging_ok_def split: if_splits)
  qed
  ultimately show ?thesis by (simp add: paging_ok_def)
qed

text \<open>One level of the walk: the tables stay separate, no translation changes, and the table of the
  next level is reached.\<close>

definition same_translations :: "nat set \<Rightarrow> tables \<Rightarrow> tables \<Rightarrow> bool" where
  "same_translations R m m' \<longleftrightarrow>
     (\<forall>r \<in> R. \<forall>va < USER_HALF_TOP. translate_user_page r va m' = translate_user_page r va m)"

lemma frames_finite: "frames_ok b \<Longrightarrow> finite (free_frames b)"
  unfolding frames_ok_def by (blast intro: finite_subset)

lemma walk_or_alloc_ok:
  assumes ok: "paging_ok m R b" "frames_ok b"
    and r: "r \<in> R" "reach m r is = Some f" "user_path (is @ [i])"
  obtains res m' b' where "user_walk_or_alloc f i m b = ret (res, m', b')" "paging_ok m' R b'" "frames_ok b'"
    "same_translations R m m'" "\<And>t. res = Inr t \<Longrightarrow> reach m' r (is @ [i]) = Some t" "res = Inl () \<Longrightarrow> free_frames b = {}"
    "card (free_frames b) \<le> Suc (card (free_frames b'))"
proof (cases "is_present (m f i)")
  case True
  then show ?thesis
    using ok r(2)
    by (intro that [of "Inr (unat (phys_addr (m f i)))" m b])
      (auto simp: user_walk_or_alloc_def reach_snoc next_table_def same_translations_def)
next
  case False
  then have none: "next_table f i m = None" by (simp add: next_table_def)
  from ok(2) show ?thesis
  proof (cases rule: alloc_frame)
    case (frame pa b')
    note pa = frame(3,4,5)
    have eq: "user_walk_or_alloc f i m b = ret (Inr pa, add_table f i pa m, b')"
      using False frame(1) by (simp add: user_walk_or_alloc_def add_table_def)
    have "same_translations R m (add_table f i pa m)"
      unfolding same_translations_def using leaf_entry_add_table [OF ok(1) r none pa] by blast
    then show ?thesis
      using that [OF eq paging_add_table [OF ok(1) r none pa frame(6)] frame(2)]
        reach_add_table [OF ok(1) r none pa r(1,3)] frame(6) card_Suc_Diff1 [OF frames_finite [OF ok(2)] pa(3)] by simp
  next
    case out
    then show ?thesis
      using that [of "Inl ()" m b] False ok by (simp add: user_walk_or_alloc_def same_translations_def)
  qed
qed

section \<open>Writing a leaf entry\<close>

definition leaf_view :: "u64 \<Rightarrow> (u64 \<times> u64) option" where
  "leaf_view e = (if is_present e then Some (phys_addr e, e) else None)"

lemma translate_leaf:
  "leaf_table r va m = Some pt \<Longrightarrow> translate_user_page r va m = leaf_view (m pt (pt_index va))"
  "leaf_table r va m = None \<Longrightarrow> translate_user_page r va m = None"
  by (simp_all add: translate_user_page_def leaf_view_def Let_def)

lemma reach_set_leaf:
  assumes ok: "separate m R" and r: "r \<in> R" "va < USER_HALF_TOP" "leaf_table r va m = Some pt"
    and r': "r' \<in> R" "user_path js"
  shows "reach (set_entry pt j e m) r' js = reach m r' js"
  using r'(2)
proof (induction js rule: rev_induct)
  case (snoc x js)
  note p = user_path_snoc [OF snoc.prems]
  have "t \<noteq> pt" if "reach m r' js = Some t" for t
    using separateD [OF ok r'(1) r(1) p user_path_of [OF r(2)], of pt] that r(3) snoc.prems
    by (auto simp: leaf_table_reach user_path_def path_of_def)
  then show ?case using snoc.IH [OF p] by (auto simp: reach_snoc next_table_def set_entry_def split: option.split)
qed simp

lemma translate_set_leaf:
  assumes ok: "separate m R" and r: "r \<in> R" "va < USER_HALF_TOP" "leaf_table r va m = Some pt"
    and r': "r' \<in> R" "va' < USER_HALF_TOP"
  shows "translate_user_page r' va' (set_entry pt (pt_index va) e m) =
    (if r' = r \<and> page_of va' = page_of va then leaf_view e else translate_user_page r' va' m)"
proof -
  have lt: "leaf_table r' va' (set_entry pt (pt_index va) e m) = leaf_table r' va' m"
    using reach_set_leaf [OF ok r r'(1) user_path_of [OF r'(2)]] by (simp add: leaf_table_reach)
  note sp = same_page [OF r'(2) r(2)]
  show ?thesis
  proof (cases "leaf_table r' va' m")
    case None
    then show ?thesis using lt r(3) sp by (auto simp: translate_leaf(2) leaf_table_reach)
  next
    case (Some t)
    have "t = pt \<longleftrightarrow> r' = r \<and> path_of va' = path_of va"
      using separateD [OF ok r'(1) r(1) user_path_of [OF r'(2)] user_path_of [OF r(2)], of pt] Some r(3)
      by (auto simp: leaf_table_reach)
    then have c: "t = pt \<and> pt_index va' = pt_index va \<longleftrightarrow> r' = r \<and> page_of va' = page_of va" using sp by blast
    have "translate_user_page r' va' (set_entry pt (pt_index va) e m) = leaf_view (set_entry pt (pt_index va) e m t (pt_index va'))"
      using lt Some by (simp add: translate_leaf(1))
    then show ?thesis using c translate_leaf(1) [OF Some] by (auto simp: set_entry_def)
  qed
qed

lemma paging_set_leaf:
  assumes ok: "paging_ok m R b" and r: "r \<in> R" "va < USER_HALF_TOP" "leaf_table r va m = Some pt"
  shows "paging_ok (set_entry pt j e m) R b"
proof -
  have "separate m R" "allocated m R b" using ok by (auto simp: paging_ok_def)
  then show ?thesis
    using reach_set_leaf [OF \<open>separate m R\<close> r]
    unfolding paging_ok_def separate_def allocated_def by (metis (no_types, lifting))
qed

section \<open>Mapping, unmapping and protecting a page\<close>

text \<open>Walking one more level, as a step of the mapping.\<close>

lemma map_walk:
  assumes ok: "paging_ok m R b" "frames_ok b" and r: "r \<in> R" "va < USER_HALF_TOP"
  obtains res m' b' where
      "map_user_page r va pa fl m b =
        (case res of Inl _ \<Rightarrow> ret (Inl (), m', b')
         | Inr pt \<Rightarrow> ret (Inr (), set_entry pt (pt_index va) (new_page pa fl OR USER) m', b'))"
      "paging_ok m' R b'" "frames_ok b'" "same_translations R m m'"
      "\<And>pt. res = Inr pt \<Longrightarrow> leaf_table r va m' = Some pt" "res = Inl () \<Longrightarrow> card (free_frames b) < 3"
proof -
  let ?i1 = "pml4_index va" and ?i2 = "pdpt_index va" and ?i3 = "pd_index va"
  have p: "user_path ([] @ [?i1])" "user_path ([?i1] @ [?i2])" "user_path ([?i1, ?i2] @ [?i3])"
    using user_path_of [OF r(2)] by (auto simp: user_path_def path_of_def)
  have st: "same_translations R m m2" if "same_translations R m m1" "same_translations R m1 m2" for m1 m2
    using that by (simp add: same_translations_def)
  obtain r1 m1 b1 where 1: "user_walk_or_alloc r ?i1 m b = ret (r1, m1, b1)" "paging_ok m1 R b1" "frames_ok b1"
    "same_translations R m m1" "\<And>t. r1 = Inr t \<Longrightarrow> reach m1 r ([] @ [?i1]) = Some t" "r1 = Inl () \<Longrightarrow> free_frames b = {}"
    "card (free_frames b) \<le> Suc (card (free_frames b1))"
    by (rule walk_or_alloc_ok [OF ok r(1) reach.simps(1) p(1)], rule that) simp_all
  show thesis
  proof (cases r1)
    case (Inl u)
    then show thesis using 1 by (intro that [of m1 b1 "Inl ()"]) (auto simp: map_user_page_def)
  next
    case (Inr t1)
    obtain r2 m2 b2 where 2: "user_walk_or_alloc t1 ?i2 m1 b1 = ret (r2, m2, b2)" "paging_ok m2 R b2" "frames_ok b2"
      "same_translations R m1 m2" "\<And>t. r2 = Inr t \<Longrightarrow> reach m2 r ([?i1] @ [?i2]) = Some t" "r2 = Inl () \<Longrightarrow> free_frames b1 = {}"
      "card (free_frames b1) \<le> Suc (card (free_frames b2))"
      by (rule walk_or_alloc_ok [OF 1(2,3) r(1) 1(5) [OF Inr, unfolded append_Nil] p(2)], rule that) simp_all
    show thesis
    proof (cases r2)
      case (Inl u)
      then show thesis
        using 1 2 Inr st by (intro that [of m2 b2 "Inl ()"]) (auto simp: map_user_page_def)
    next
      case (Inr t2)
      obtain r3 m3 b3 where 3: "user_walk_or_alloc t2 ?i3 m2 b2 = ret (r3, m3, b3)" "paging_ok m3 R b3" "frames_ok b3"
        "same_translations R m2 m3" "\<And>t. r3 = Inr t \<Longrightarrow> reach m3 r ([?i1, ?i2] @ [?i3]) = Some t" "r3 = Inl () \<Longrightarrow> free_frames b2 = {}"
        "card (free_frames b2) \<le> Suc (card (free_frames b3))"
        by (rule walk_or_alloc_ok [OF 2(2,3) r(1) 2(5) [OF Inr, unfolded append_Cons append_Nil] p(3)], rule that) simp_all
      have "same_translations R m m3" using st [OF st [OF 1(4) 2(4)] 3(4)] .
      moreover have "r3 = Inl () \<Longrightarrow> card (free_frames b) < 3" using 1(7) 2(7) 3(6) by simp
      ultimately show thesis
        using 1(1) 2(1) 3(1,2,3,5) \<open>r1 = Inr t1\<close> Inr
        by (intro that [of m3 b3 r3]) (auto simp: map_user_page_def leaf_table_reach path_of_def split: sum.split)
    qed
  qed
qed

lemma map_user_page_ok:
  assumes ok: "paging_ok m R b" "frames_ok b" and r: "r \<in> R" "va < USER_HALF_TOP"
  shows "\<exists>res m' b'. map_user_page r va pa fl m b = ret (res, m', b') \<and> paging_ok m' R b' \<and> frames_ok b' \<and>
    (\<forall>r' \<in> R. \<forall>va' < USER_HALF_TOP. translate_user_page r' va' m' =
       (if res = Inr () \<and> r' = r \<and> page_of va' = page_of va
        then Some (pa AND PHYS_MASK, new_page pa fl OR USER) else translate_user_page r' va' m)) \<and>
    (res = Inl () \<longrightarrow> card (free_frames b) < 3)"
proof -
  obtain res m' b' where w: "map_user_page r va pa fl m b =
        (case res of Inl _ \<Rightarrow> ret (Inl (), m', b')
         | Inr pt \<Rightarrow> ret (Inr (), set_entry pt (pt_index va) (new_page pa fl OR USER) m', b'))"
      "paging_ok m' R b'" "frames_ok b'" "same_translations R m m'"
      "\<And>pt. res = Inr pt \<Longrightarrow> leaf_table r va m' = Some pt" "res = Inl () \<Longrightarrow> card (free_frames b) < 3"
    by (rule map_walk [OF assms, of pa fl], rule that) simp_all
  show ?thesis
  proof (cases res)
    case (Inl u)
    then show ?thesis using w by (intro exI [of _ "Inl ()"] exI [of _ m'] exI [of _ b']) (auto simp: same_translations_def)
  next
    case (Inr pt)
    note lt = w(5) [OF Inr]
    have v: "leaf_view (new_page pa fl OR USER) = Some (pa AND PHYS_MASK, new_page pa fl OR USER)"
      by (simp add: leaf_view_def new_page_fields)
    have sep: "separate m' R" using w(2) by (simp add: paging_ok_def)
    let ?m = "set_entry pt (pt_index va) (new_page pa fl OR USER) m'"
    have "translate_user_page r' va' ?m =
       (if r' = r \<and> page_of va' = page_of va then Some (pa AND PHYS_MASK, new_page pa fl OR USER)
        else translate_user_page r' va' m)" if "r' \<in> R" "va' < USER_HALF_TOP" for r' va'
      using translate_set_leaf [OF sep r lt that, of "new_page pa fl OR USER"] w(4) that v
      by (simp add: same_translations_def)
    then show ?thesis
      using w(1,3) Inr paging_set_leaf [OF w(2) r lt]
      by (intro exI [of _ "Inr ()"] exI [of _ ?m] exI [of _ b']) auto
  qed
qed

lemma unmap_user_page_ok:
  assumes ok: "paging_ok m R b" and r: "r \<in> R" "va < USER_HALF_TOP"
  shows "paging_ok (unmap_user_page r va m) R b"
    and "r' \<in> R \<Longrightarrow> va' < USER_HALF_TOP \<Longrightarrow> translate_user_page r' va' (unmap_user_page r va m) =
       (if r' = r \<and> page_of va' = page_of va then None else translate_user_page r' va' m)"
proof -
  have sep: "separate m R" using ok by (simp add: paging_ok_def)
  show "paging_ok (unmap_user_page r va m) R b"
    using ok paging_set_leaf [OF ok r] by (auto simp: unmap_user_page_def split: option.split)
  assume r': "r' \<in> R" "va' < USER_HALF_TOP"
  show "translate_user_page r' va' (unmap_user_page r va m) =
       (if r' = r \<and> page_of va' = page_of va then None else translate_user_page r' va' m)"
  proof (cases "leaf_table r va m")
    case None
    then show ?thesis
      using same_page [OF r'(2) r(2)] by (auto simp: unmap_user_page_def leaf_table_reach translate_leaf(2))
  next
    case (Some pt)
    then show ?thesis
      using translate_set_leaf [OF sep r Some r', of 0] by (simp add: unmap_user_page_def leaf_view_def)
  qed
qed

lemma protect_user_page_ok:
  assumes ok: "paging_ok m R b" and r: "r \<in> R" "va < USER_HALF_TOP" and p: "protect_user_page r va fl m = (res, m')"
  shows "paging_ok m' R b"
    and "r' \<in> R \<Longrightarrow> va' < USER_HALF_TOP \<Longrightarrow> translate_user_page r' va' m' =
       (if res = Inr () \<and> r' = r \<and> page_of va' = page_of va
        then map_option (\<lambda>(a, _). (a, new_page a fl OR USER)) (translate_user_page r va m)
        else translate_user_page r' va' m)"
    and "res = Inr () \<longleftrightarrow> translate_user_page r va m \<noteq> None"
proof -
  have sep: "separate m R" using ok by (simp add: paging_ok_def)
  have pa: "phys_addr (new_page (phys_addr e) fl OR USER) = phys_addr e" for e
    by (simp add: new_page_fields) (simp add: phys_addr_def and.assoc)
  have cases: "(leaf_table r va m = None \<or> (\<exists>pt. leaf_table r va m = Some pt \<and> \<not> is_present (m pt (pt_index va)))) \<and>
      res = Inl NotMapped \<and> m' = m \<and> translate_user_page r va m = None \<or>
    (\<exists>pt e. leaf_table r va m = Some pt \<and> e = m pt (pt_index va) \<and> is_present e \<and> res = Inr () \<and>
       m' = set_entry pt (pt_index va) (new_page (phys_addr e) fl OR USER) m \<and>
       translate_user_page r va m = Some (phys_addr e, e))"
    using p by (auto simp: protect_user_page_def translate_user_page_def Let_def split: option.splits if_splits)
  show "paging_ok m' R b" using cases ok paging_set_leaf [OF ok r] by auto
  show "res = Inr () \<longleftrightarrow> translate_user_page r va m \<noteq> None" using cases by auto
  assume r': "r' \<in> R" "va' < USER_HALF_TOP"
  from cases show "translate_user_page r' va' m' =
       (if res = Inr () \<and> r' = r \<and> page_of va' = page_of va
        then map_option (\<lambda>(a, _). (a, new_page a fl OR USER)) (translate_user_page r va m)
        else translate_user_page r' va' m)"
  proof (elim disjE exE conjE)
    fix pt e
    assume "leaf_table r va m = Some pt" "res = Inr ()" "translate_user_page r va m = Some (phys_addr e, e)"
      "m' = set_entry pt (pt_index va) (new_page (phys_addr e) fl OR USER) m"
    then show ?thesis
      using translate_set_leaf [OF sep r _ r', of pt "new_page (phys_addr e) fl OR USER"]
      by (simp add: leaf_view_def new_page_fields(1) pa)
  qed simp_all
qed

end
