(* ===== verification/Cap_Calls.thy ===== *)
theory Cap_Calls
  imports Syscall_Core Paging
begin

text \<open>
  The system calls on capabilities: \<open>kernel/src/syscall/cap.rs\<close>. The creation calls allocate a kernel
  object and insert the first capability to it, the others copy, move, delete and revoke
  capabilities. The derivation lock and the locks of the CSpaces are not modelled: each call runs
  undisturbed. Boxes come from the kernel heap, whose next address is \<open>brk\<close>; exhaustion of that heap
  aborts the kernel and is not modelled.

  The theory \<open>Cap_Safety\<close> shows what these calls guarantee together.
\<close>

unbundle bit_operations_syntax

section \<open>Creation\<close>

definition caller_space :: "kernel \<Rightarrow> (syscall_error, ptr) result run" where
  "caller_space k = and_then (caller_tcb k) (\<lambda>t. do {
     cs \<leftarrow> caller_cspace t k;
     (case cs of None \<Rightarrow> ret (Inl InvalidCapability) | Some c \<Rightarrow> ret (Inr c))
   })"

text \<open>The address of a new box.\<close>

definition alloc_box :: "kernel \<Rightarrow> ptr \<times> kernel" where
  "alloc_box k = (brk k, k\<lparr>brk := brk k + 1\<rparr>)"

text \<open>The common end of the creation calls: box the object and insert a capability to it. When the
  insertion fails the object is leaked.\<close>

definition install_object :: "ptr \<Rightarrow> cap_tag \<Rightarrow> rights \<Rightarrow> kobject \<Rightarrow> kernel \<Rightarrow> outcome run" where
  "install_object cspace t r ob k = do {
     let (p, k) = alloc_box k;
     let k = put_object p (KernelObject_new ob) k;
     (res, st) \<leftarrow> ptr_insert_cap cspace t r p (kcaps k);
     let k = k\<lparr>kcaps := st\<rparr>;
     (case res of
        Inl _ \<Rightarrow> fails ErrOutOfMemory k
      | Inr idx \<Rightarrow> ret (Done (Inr (of_nat idx)) k))
   }"

definition sys_cap_create_endpoint :: "trap_frame \<Rightarrow> kernel \<Rightarrow> outcome run" where
  "sys_cap_create_endpoint tf k =
     attempt (caller_space k) k (\<lambda>cspace.
       let (e, k) = alloc_box k; k = put_endpoint e EndpointState_new k
       in install_object cspace TagEndpoint (SEND OR RECEIVE OR GRANT) (EndpointObj (Some e)) k)"

definition sys_cap_create_signal :: "trap_frame \<Rightarrow> kernel \<Rightarrow> outcome run" where
  "sys_cap_create_signal tf k =
     attempt (caller_space k) k (\<lambda>cspace.
       let (s, k) = alloc_box k; k = put_signal s SignalState_new k
       in install_object cspace TagSignal (SIGNAL OR WAIT) (SignalObj (Some s)) k)"

text \<open>\<open>AddressSpace::new_user\<close>: one frame for the root table, which starts empty; running out of
  frames is fatal. The entries of the kernel half, copied from the current root, are not modelled.\<close>

definition new_user :: "kernel \<Rightarrow> (aspace \<times> kernel) run" where
  "new_user k = do {
     (f, b) \<leftarrow> buddy_alloc 0 (frames k);
     (case f of
        None \<Rightarrow> panic
      | Some phys \<Rightarrow> ret (\<lparr>root_phys = phys, active_cpus = 0\<rparr>, k\<lparr>frames := b, ptables := zero_table phys (ptables k)\<rparr>))
   }"

definition sys_cap_create_aspace :: "trap_frame \<Rightarrow> kernel \<Rightarrow> outcome run" where
  "sys_cap_create_aspace tf k =
     attempt (caller_space k) k (\<lambda>cspace. do {
       (a, k) \<leftarrow> new_user k;
       let (p, k) = alloc_box k;
       let k = k\<lparr>aspaces := (aspaces k)(p \<mapsto> a)\<rparr>;
       install_object cspace TagAddressSpace (MAP OR READ) (AddressSpaceObj (Some p)) k
     })"

definition DEFAULT_SLOTS :: nat where "DEFAULT_SLOTS = 256"
definition MAX_SLOTS :: nat where "MAX_SLOTS = 16384"

definition sys_cap_create_cspace :: "trap_frame \<Rightarrow> kernel \<Rightarrow> outcome run" where
  "sys_cap_create_cspace tf k =
     attempt (caller_space k) k (\<lambda>cspace.
       let requested = unat (arg 0 tf);
           slots = (if requested = 0 then DEFAULT_SLOTS else min requested MAX_SLOTS);
           (i, st) = alloc_cspace_id (kcaps k);
           (c, k) = alloc_box (k\<lparr>kcaps := st\<rparr>);
           k = k\<lparr>kcaps := add_cspace c i slots (kcaps k)\<rparr>
       in install_object cspace TagCSpace (INSERT OR DELETE OR DERIVE) (CSpaceObj (Some c)) k)"

definition INIT_PRIORITY :: nat where "INIT_PRIORITY = 15"

definition new_tcb :: "nat \<Rightarrow> ptr option \<Rightarrow> ptr option \<Rightarrow> nat \<Rightarrow> tcb" where
  "new_tcb kstack_top a cs tid =
     \<lparr>state = Created, priority = INIT_PRIORITY, slice_remaining = TIME_SLICE_TICKS,
      cpu_affinity = AFFINITY_ANY, preferred_cpu = 0, run_queue_next = None, ipc_state = IpcNone,
      ipc_msg = default_message, reply_tcb = None, ipc_wait_next = None, is_user = True,
      kernel_stack_top = kstack_top, address_space = a, tcb_cspace = cs, ipc_buffer = 0, wakeup_value = 0,
      blocked_on_object = None, thread_id = tid, context_saved = True, death_notification = None,
      sleep_deadline = 0, magic = TCB_MAGIC, saved_frame = None, iopb = None\<rparr>"

text \<open>The address space and the CSpace of the new thread are named by capabilities of the caller. The
  thread keeps the pointers without a reference count.\<close>

definition sys_cap_create_thread :: "trap_frame \<Rightarrow> kernel \<Rightarrow> outcome run" where
  "sys_cap_create_thread tf k =
     attempt (caller_space k) k (\<lambda>cspace.
     attempt (lookup_cap (Some cspace) (arg32 0 tf) TagAddressSpace MAP k) k (\<lambda>as_slot.
     attempt (slot_object as_slot) k (\<lambda>p. do {
       a \<leftarrow> as_aspace p k;
       attempt (lookup_cap (Some cspace) (arg32 1 tf) TagCSpace INSERT k) k (\<lambda>cs_slot.
       attempt (slot_object cs_slot) k (\<lambda>q. do {
         cs \<leftarrow> as_cspace q k;
         (f, b) \<leftarrow> buddy_alloc STACK_ORDER (frames k);
         let k = k\<lparr>frames := b\<rparr>;
         (case f of
            None \<Rightarrow> fails ErrOutOfMemory k
          | Some phys \<Rightarrow>
              let top = DIRECT_MAP_BASE + phys + KERNEL_STACK_PAGES * PAGE_SIZE;
                  (tid, k) = alloc_thread_id k;
                  (t, k) = alloc_box k;
                  k = k\<lparr>tcbs := (tcbs k)(t \<mapsto> new_tcb top a cs tid)\<rparr>
              in install_object cspace TagThread (CONTROL OR OBSERVE) (ThreadObj (Some t)) k)
       }))
     })))"

definition sys_cap_create_event_queue :: "trap_frame \<Rightarrow> kernel \<Rightarrow> outcome run" where
  "sys_cap_create_event_queue tf k =
     (let cap = arg32 0 tf in
      if cap = 0 \<or> cap > EVENT_QUEUE_MAX_CAPACITY then fails InvalidArgument k
      else attempt (caller_space k) k (\<lambda>cspace. do {
        q \<leftarrow> EventQueueState_new cap;
        let (p, k) = alloc_box k;
        let k = put_event_queue p q k;
        install_object cspace TagEventQueue (POST OR RECV) (EventQueueObj (Some p)) k
      }))"

definition sys_cap_create_wait_set :: "trap_frame \<Rightarrow> kernel \<Rightarrow> outcome run" where
  "sys_cap_create_wait_set tf k =
     attempt (caller_space k) k (\<lambda>cspace.
       let (w, k) = alloc_box k; k = put_wait_set w WaitSetState_new k
       in install_object cspace TagWaitSet (MODIFY OR WAIT) (WaitSetObj (Some w)) k)"

section \<open>Copying\<close>

text \<open>Reading the source slot of a copy: it must be live and name an object.\<close>

definition source_cap :: "ptr \<Rightarrow> nat \<Rightarrow> kernel \<Rightarrow> (syscall_error, capability_slot \<times> ptr) result run" where
  "source_cap cspace idx k = do {
     s \<leftarrow> ptr_slot cspace idx (kcaps k);
     (case s of
        None \<Rightarrow> ret (Inl InvalidCapability)
      | Some s \<Rightarrow>
          if tag s = TagNull then ret (Inl InvalidCapability)
          else (case object s of None \<Rightarrow> ret (Inl InvalidCapability) | Some ob \<Rightarrow> ret (Inr (s, ob))))
   }"

text \<open>The destination CSpace of a copy or move. A null CSpace pointer in the object is dereferenced
  by the callers.\<close>

definition dest_space :: "ptr \<Rightarrow> nat \<Rightarrow> kernel \<Rightarrow> (syscall_error, ptr) result run" where
  "dest_space cspace idx k =
     and_then (lookup_cap (Some cspace) idx TagCSpace INSERT k) (\<lambda>s.
     and_then (slot_object s) (\<lambda>p. do {
       c \<leftarrow> as_cspace p k;
       (case c of None \<Rightarrow> panic | Some c \<Rightarrow> ret (Inr c))
     }))"

fun insert_error :: "cap_error \<Rightarrow> syscall_error" where
  "insert_error WxViolation = ErrWxViolation"
| "insert_error _ = ErrOutOfMemory"

fun insert_at_error :: "cap_error \<Rightarrow> syscall_error" where
  "insert_at_error WxViolation = ErrWxViolation"
| "insert_at_error InvalidIndex = InvalidArgument"
| "insert_at_error _ = ErrOutOfMemory"

text \<open>The end of a successful insertion: set the token, link the new slot below its source.\<close>

definition link_copy :: "ptr \<Rightarrow> nat \<Rightarrow> ptr \<Rightarrow> nat \<Rightarrow> u64 \<Rightarrow> cap_state \<Rightarrow> cap_state run" where
  "link_copy src src_idx dest new_idx tok st = do {
     st \<leftarrow> (if tok \<noteq> 0 then ptr_modify dest new_idx (\<lambda>s. s\<lparr>token := tok\<rparr>) st else ret st);
     src_cs \<leftarrow> cspace_at src st;
     dest_cs \<leftarrow> cspace_at dest st;
     parent \<leftarrow> SlotId_new (cs_id src_cs) src_idx;
     child \<leftarrow> SlotId_new (cs_id dest_cs) new_idx;
     link_child parent child st
   }"

text \<open>Inserting a copy of the capability \<open>s\<close> to the object \<open>ob\<close>: the reference is taken first and
  given back when the insertion fails.\<close>

definition copy_cap :: "ptr \<Rightarrow> nat \<Rightarrow> ptr \<Rightarrow> cap_tag \<Rightarrow> rights \<Rightarrow> u64 \<Rightarrow> ptr \<Rightarrow> kernel \<Rightarrow> outcome run" where
  "copy_cap src src_idx dest t r tok ob k = do {
     k \<leftarrow> inc_ref ob k;
     (res, st) \<leftarrow> ptr_insert_cap dest t r ob (kcaps k);
     let k = k\<lparr>kcaps := st\<rparr>;
     (case res of
        Inl e \<Rightarrow> do { (_, k) \<leftarrow> dec_ref ob k; fails (insert_error e) k }
      | Inr new_idx \<Rightarrow> do {
          st \<leftarrow> link_copy src src_idx dest new_idx tok (kcaps k);
          ret (Done (Inr (of_nat new_idx)) (k\<lparr>kcaps := st\<rparr>))
        })
   }"

definition sys_cap_copy :: "trap_frame \<Rightarrow> kernel \<Rightarrow> outcome run" where
  "sys_cap_copy tf k =
     attempt (caller_space k) k (\<lambda>cspace.
     attempt (source_cap cspace (arg32 0 tf) k) k (\<lambda>(s, ob).
     attempt (dest_space cspace (arg32 1 tf) k) k (\<lambda>dest.
       copy_cap cspace (arg32 0 tf) dest (tag s) (ucast (arg 2 tf) AND rights s) (token s) ob k)))"

definition sys_cap_derive :: "trap_frame \<Rightarrow> kernel \<Rightarrow> outcome run" where
  "sys_cap_derive tf k =
     attempt (caller_space k) k (\<lambda>cspace.
     attempt (source_cap cspace (arg32 0 tf) k) k (\<lambda>(s, ob).
       copy_cap cspace (arg32 0 tf) cspace (tag s) (ucast (arg 1 tf) AND rights s) (token s) ob k))"

definition sys_cap_derive_token :: "trap_frame \<Rightarrow> kernel \<Rightarrow> outcome run" where
  "sys_cap_derive_token tf k =
     (let token_value = arg 2 tf in
      if token_value = 0 then fails InvalidArgument k
      else attempt (caller_space k) k (\<lambda>cspace.
        attempt (source_cap cspace (arg32 0 tf) k) k (\<lambda>(s, ob).
          if token s \<noteq> 0 then fails InvalidArgument k
          else copy_cap cspace (arg32 0 tf) cspace (tag s) (ucast (arg 1 tf) AND rights s) token_value ob k)))"

definition sys_cap_insert :: "trap_frame \<Rightarrow> kernel \<Rightarrow> outcome run" where
  "sys_cap_insert tf k =
     attempt (caller_space k) k (\<lambda>cspace.
     attempt (source_cap cspace (arg32 0 tf) k) k (\<lambda>(s, ob).
     attempt (dest_space cspace (arg32 1 tf) k) k (\<lambda>dest. do {
       k \<leftarrow> inc_ref ob k;
       (res, st) \<leftarrow> ptr_insert_cap_at dest (arg32 2 tf) (tag s) (ucast (arg 3 tf) AND rights s) ob (kcaps k);
       let k = k\<lparr>kcaps := st\<rparr>;
       (case res of
          Inl e \<Rightarrow> do { (_, k) \<leftarrow> dec_ref ob k; fails (insert_at_error e) k }
        | Inr _ \<Rightarrow> do {
            st \<leftarrow> link_copy cspace (arg32 0 tf) dest (arg32 2 tf) (token s) (kcaps k);
            ret (Done (Inr 0) (k\<lparr>kcaps := st\<rparr>))
          })
     })))"

section \<open>Moving, deleting, revoking\<close>

text \<open>With a destination index the capability is placed there, otherwise in the next free slot.\<close>

definition sys_cap_move :: "trap_frame \<Rightarrow> kernel \<Rightarrow> outcome run" where
  "sys_cap_move tf k =
     (let src_idx = arg32 0 tf; dest_idx = arg32 2 tf in
      attempt (caller_space k) k (\<lambda>cspace.
      attempt (dest_space cspace (arg32 1 tf) k) k (\<lambda>dest.
        if dest_idx = 0 then do {
          (res, st) \<leftarrow> move_cap_between_cspaces cspace src_idx dest (kcaps k);
          let k = k\<lparr>kcaps := st\<rparr>;
          (case res of Inl e \<Rightarrow> fails e k | Inr i \<Rightarrow> ret (Done (Inr (of_nat i)) k))
        }
        else attempt (source_cap cspace src_idx k) k (\<lambda>(s, ob). do {
          src_cs \<leftarrow> cspace_at cspace (kcaps k);
          dest_cs \<leftarrow> cspace_at dest (kcaps k);
          (res, st) \<leftarrow> ptr_insert_cap_at dest dest_idx (tag s) (rights s) ob (kcaps k);
          let k = k\<lparr>kcaps := st\<rparr>;
          (case res of
             Inl _ \<Rightarrow> fails InvalidArgument k
           | Inr _ \<Rightarrow> do {
               src_id \<leftarrow> SlotId_new (cs_id src_cs) src_idx;
               dst_id \<leftarrow> SlotId_new (cs_id dest_cs) dest_idx;
               st \<leftarrow> relink_moved cspace src_idx dest dest_idx src_id dst_id (token s) st;
               ret (Done (Inr (of_nat dest_idx)) (k\<lparr>kcaps := st\<rparr>))
             })
        }))))"

definition drop_ref :: "ptr \<Rightarrow> kernel \<Rightarrow> kernel run" where
  "drop_ref p k = do {
     (remaining, k) \<leftarrow> dec_ref p k;
     if remaining = 0 then dealloc_object p k else ret k
   }"

definition sys_cap_delete :: "trap_frame \<Rightarrow> kernel \<Rightarrow> outcome run" where
  "sys_cap_delete tf k =
     (let idx = arg32 0 tf in
      attempt (caller_space k) k (\<lambda>cspace. do {
        cs \<leftarrow> cspace_at cspace (kcaps k);
        r \<leftarrow> slot cs idx;
        (case r of
           None \<Rightarrow> fails InvalidCapability k
         | Some s \<Rightarrow>
             if tag s = TagNull then ret (Done (Inr 0) k)
             else (case object s of
                None \<Rightarrow> fails InvalidCapability k
              | Some ob \<Rightarrow> do {
                  node \<leftarrow> SlotId_new (cs_id cs) idx;
                  st \<leftarrow> delete_node cspace idx node (deriv_parent s) (kcaps k);
                  k \<leftarrow> drop_ref ob (k\<lparr>kcaps := st\<rparr>);
                  ret (Done (Inr 0) k)
                }))
      }))"

definition sys_cap_revoke :: "trap_frame \<Rightarrow> kernel \<Rightarrow> outcome run" where
  "sys_cap_revoke tf k =
     (let idx = arg32 0 tf in
      attempt (caller_space k) k (\<lambda>cspace. do {
        cs \<leftarrow> cspace_at cspace (kcaps k);
        r \<leftarrow> slot cs idx;
        (case r of
           None \<Rightarrow> fails InvalidCapability k
         | Some s \<Rightarrow>
             if tag s = TagNull then fails InvalidCapability k
             else do {
               root \<leftarrow> SlotId_new (cs_id cs) idx;
               (objs, st) \<leftarrow> revoke_subtree root (kcaps k);
               k \<leftarrow> release_objects objs (k\<lparr>kcaps := st\<rparr>);
               ret (Done (Inr 0) k)
             })
      }))"

end
