(* ===== verification/Kernel_Frame.thy ===== *)
theory Kernel_Frame
  imports Syscall_Core
begin

text \<open>
  What the scheduler and the IPC operations leave alone. \<open>core k\<close> is the part of the state that only
  system calls on capabilities and on thread attributes change: the CSpaces, the kernel objects, the
  configuration, and of every thread the attributes collected in \<open>typing\<close>. One lemma per operation, all
  in the collection \<open>frame\<close>: an operation that returns has the same core afterwards.
\<close>

named_theorems frame "operations that keep the core of the state"

section \<open>The core\<close>

definition typing :: "tcb \<Rightarrow> nat \<times> nat \<times> u64 \<times> ptr option \<times> (u64 \<times> u64) option" where
  "typing x = (priority x, cpu_affinity x, magic x, tcb_cspace x,
     map_option (\<lambda>f. (tf_cs f, tf_ss f)) (saved_frame x))"

definition typings :: "tcb_heap \<Rightarrow> ptr \<Rightarrow> (nat \<times> nat \<times> u64 \<times> ptr option \<times> (u64 \<times> u64) option) option" where
  "typings h p = map_option typing (h p)"

definition core :: "kernel \<Rightarrow> cap_state \<times> (ptr \<Rightarrow> kernel_object option) \<times> nat \<times> nat \<times> ptr \<times>
    (ptr \<Rightarrow> (nat \<times> nat \<times> u64 \<times> ptr option \<times> (u64 \<times> u64) option) option)" where
  "core k = (kcaps k, objects k, cpu_count k, this_cpu k, brk k, typings (tcbs k))"

lemma typings_upd: "h p = Some x \<Longrightarrow> typing y = typing x \<Longrightarrow> typings (h(p \<mapsto> y)) = typings h"
  by (auto simp: typings_def)

lemma upd_tcb_frame:
  "upd_tcb t f k = Some k' \<Longrightarrow> (\<And>x. typing (f x) = typing x) \<Longrightarrow> core k' = core k"
  by (auto simp: upd_tcb_def core_def typings_upd split: option.splits)

lemma put_frame [simp]:
  "core (put_endpoint p e k) = core k" "core (put_signal p s k) = core k" "core (put_event_queue p q k) = core k"
  "core (put_wait_set p w k) = core k" "core (put_sched c sc k) = core k"
  by (simp_all add: put_defs core_def)

lemma core_fields [simp]:
  "core (k\<lparr>frames := b\<rparr>) = core k" "core (k\<lparr>aspaces := a\<rparr>) = core k" "core (k\<lparr>endpoints := e\<rparr>) = core k"
  "core (k\<lparr>signals := sg\<rparr>) = core k" "core (k\<lparr>irq_table := it\<rparr>) = core k" "core (k\<lparr>ipis_sent := i\<rparr>) = core k"
  "core (k\<lparr>cpu_root := r\<rparr>) = core k" "core (k\<lparr>trap_stack := ts\<rparr>) = core k" "core (k\<lparr>memory := m\<rparr>) = core k"
  "core (k\<lparr>sleep_list := sl, sleep_count := n\<rparr>) = core k" "core (k\<lparr>cpu_load := l\<rparr>) = core k"
  "core (k\<lparr>ptables := pt\<rparr>) = core k" "core (load_iopb c iob k) = core k"
  "core (k\<lparr>irq_masked := im\<rparr>) = core k" "core (k\<lparr>irq_acked := ia\<rparr>) = core k"
  by (simp_all add: core_def load_iopb_def)

lemma core_heap: "typings h = typings (tcbs k) \<Longrightarrow> core (k\<lparr>tcbs := h\<rparr>) = core k"
  by (simp add: core_def)

lemma core_put_heap [simp]:
  "core ((put_endpoint e ep k)\<lparr>tcbs := h\<rparr>) = core (k\<lparr>tcbs := h\<rparr>)" "core ((put_signal p s k)\<lparr>tcbs := h\<rparr>) = core (k\<lparr>tcbs := h\<rparr>)"
  by (simp_all add: put_defs core_def)

lemma core_upd_heap:
  "h p = Some x \<Longrightarrow> typings h = typings (tcbs k) \<Longrightarrow> typing y = typing x \<Longrightarrow> core (k\<lparr>tcbs := h(p \<mapsto> y)\<rparr>) = core k"
  by (simp add: core_def typings_upd)

lemma core_tcbs: "core a = core b \<Longrightarrow> typings (tcbs a) = typings (tcbs b)"
  by (simp add: core_def)

lemmas run_simps = Option.bind_eq_Some_conv Let_def

lemma and_then_Inr: "and_then r f = Some (Inr b) \<longleftrightarrow> (\<exists>a. r = Some (Inr a) \<and> f a = Some (Inr b))"
  by (cases r; cases "the r") auto

lemma attempt_Some:
  "attempt r k f = Some out \<longleftrightarrow>
    (\<exists>e. r = Some (Inl e) \<and> out = Done (Inl e) k) \<or> (\<exists>a. r = Some (Inr a) \<and> f a = Some out)"
  by (cases r; cases "the r") auto

section \<open>Queues\<close>

lemma typing_links [simp]:
  "typing (x\<lparr>run_queue_next := n\<rparr>) = typing x" "typing (x\<lparr>ipc_wait_next := n\<rparr>) = typing x"
  "typing (x\<lparr>preferred_cpu := c\<rparr>) = typing x"
  by (simp_all add: typing_def)

lemma typings_upd' [simp]: "typings (h(p \<mapsto> y)) = (typings h)(p \<mapsto> typing y)"
  by (auto simp: typings_def)

lemma typings_idem: "h p = Some x \<Longrightarrow> (typings h)(p \<mapsto> typing x) = typings h"
  by (auto simp: typings_def)

lemma rq_enqueue_frame: "rq_enqueue q t h = Some (q', h') \<Longrightarrow> typings h' = typings h"
  by (cases "rq_tail q") (auto simp: rq_enqueue_def run_simps typings_idem split: if_splits)

lemma rq_dequeue_frame: "rq_dequeue q h = Some (r, q', h') \<Longrightarrow> typings h' = typings h"
  by (cases "rq_head q") (auto simp: rq_dequeue_def run_simps typings_idem)

lemma rq_unlink_frame: "rq_unlink prev c q h = Some (q', h') \<Longrightarrow> typings h' = typings h"
  by (cases prev) (auto simp: rq_unlink_def run_simps typings_idem split: if_split_asm)

lemma rq_remove_loop_frame:
  assumes "rq_remove_loop t prev cur q h = Some r"
  shows "typings (snd (snd r)) = typings h"
  by (rule rq_remove_loop.raw_induct [OF _ assms, where P = "\<lambda>t prev cur q h r. typings (snd (snd r)) = typings h"])
    (auto split: option.splits if_splits dest: rq_unlink_frame)

lemma rq_remove_frame: "rq_remove t q h = Some (b, q', h') \<Longrightarrow> typings h' = typings h"
  by (auto simp: rq_remove_def dest: rq_remove_loop_frame)

lemma ep_enqueue_frame: "ep_enqueue q t h = Some (q', h') \<Longrightarrow> typings h' = typings h"
  by (cases q; cases "snd q") (auto simp: ep_enqueue_def run_simps typings_idem split: if_splits)

lemma ep_enqueue_upd_frame:
  assumes "ep_enqueue q t (h(c \<mapsto> y)) = Some (q', h')" "h c = Some x" "typing y = typing x"
  shows "typings h' = typings h"
  using ep_enqueue_frame [OF assms(1)] typings_idem [of h c x] assms(2,3) by simp

lemma ep_dequeue_frame: "ep_dequeue q h = Some (r, q', h') \<Longrightarrow> typings h' = typings h"
  by (cases q; cases "fst q") (auto simp: ep_dequeue_def run_simps typings_idem)

lemma ep_unlink_frame: "ep_unlink prev c q h = Some (q', h') \<Longrightarrow> typings h' = typings h"
  by (cases q; cases prev) (auto simp: ep_unlink_def run_simps typings_idem split: if_split_asm)

lemma unlink_loop_frame:
  assumes "unlink_loop t prev cur q h = Some r"
  shows "typings (snd (snd r)) = typings h"
  by (rule unlink_loop.raw_induct [OF _ assms, where P = "\<lambda>t prev cur q h r. typings (snd (snd r)) = typings h"])
    (auto split: option.splits if_splits dest: ep_unlink_frame)

lemma unlink_queue_frame: "unlink_from_wait_queue t q h = Some (b, q', h') \<Longrightarrow> typings h' = typings h"
  by (auto simp: unlink_from_wait_queue_def dest: unlink_loop_frame)

section \<open>The scheduler\<close>

lemma put_queue_frame: "typings h = typings (tcbs k) \<Longrightarrow> core (put_queue c p q h k) = core k"
  by (simp add: put_queue_def core_def put_defs)

lemma bits_frame [simp]:
  "core (set_bit_ne c p k) = core k" "core (clear_bit_ne c p k) = core k" "core (increment_load c k) = core k"
  "core (decrement_load c k) = core k" "core (set_current c t k) = core k"
  by (simp_all add: set_bit_ne_def clear_bit_ne_def increment_load_def decrement_load_def set_current_def)

lemma load_heap [simp]: "tcbs (increment_load c k) = tcbs k"
  by (simp add: increment_load_def)

lemma sched_enqueue_frame [frame]: "sched_enqueue c t p k = Some k' \<Longrightarrow> core k' = core k"
  by (auto simp: sched_enqueue_def run_simps put_queue_frame dest!: rq_enqueue_frame split: if_splits)

lemma dequeue_highest_frame [frame]: "dequeue_highest c k = Some (r, k') \<Longrightarrow> core k' = core k"
  by (auto simp: dequeue_highest_def run_simps put_queue_frame dest!: rq_dequeue_frame split: if_splits)

lemma remove_and_clear_frame [frame]: "remove_and_clear c p t k = Some k' \<Longrightarrow> core k' = core k"
  by (auto simp: remove_and_clear_def run_simps put_queue_frame dest!: rq_remove_frame split: if_splits)

lemma remove_from_queue_frame [frame]: "remove_from_queue c t p k = Some k' \<Longrightarrow> core k' = core k"
  by (auto simp: remove_from_queue_def dest: frame split: if_splits)

lemma change_priority_frame [frame]: "change_priority c t old new k = Some k' \<Longrightarrow> core k' = core k"
  by (auto simp: change_priority_def run_simps put_queue_frame dest!: rq_enqueue_frame frame split: if_splits)

lemma wake_idle_cpu_frame [frame]: "wake_idle_cpu c k = Some k' \<Longrightarrow> core k' = core k"
  by (auto simp: wake_idle_cpu_def run_simps split: if_splits)

lemma enqueue_and_wake_frame [frame]: "enqueue_and_wake t c p k = Some k' \<Longrightarrow> core k' = core k"
  by (auto simp: enqueue_and_wake_def run_simps dest!: frame upd_tcb_frame split: if_splits)

lemma ready_waiter_frame:
  "ready_waiter f t k = Some k' \<Longrightarrow> (\<And>x. typing (f x) = typing x) \<Longrightarrow> core k' = core k"
  by (auto simp: ready_waiter_def run_simps dest!: frame upd_tcb_frame split: if_splits)

lemma wake_thread_frame [frame]: "wake_thread t k = Some k' \<Longrightarrow> core k' = core k"
  by (auto simp: wake_thread_def run_simps dest!: frame split: if_splits)


lemma requeue_frame [frame]: "requeue c t k = Some k' \<Longrightarrow> core k' = core k"
  by (auto simp: requeue_def run_simps typing_def dest!: frame upd_tcb_frame split: if_split_asm)

lemma pick_next_frame [frame]:
  assumes "pick_next c k = Some (r, k')"
  shows "core k' = core k"
proof -
  have "core (snd (r, k')) = core k"
    by (rule pick_next.raw_induct [OF _ assms, where P = "\<lambda>c k r. core (snd r) = core k"])
      (auto split: option.splits if_splits dest: frame)
  then show ?thesis by simp
qed

lemma upd_aspace_frame [frame]: "upd_aspace a f k = Some k' \<Longrightarrow> core k' = core k"
  by (auto simp: upd_aspace_def split: option.splits)

lemma activate_frame [frame]: "activate a k = Some k' \<Longrightarrow> core k' = core k"
  by (auto simp: activate_def split: option.splits)

lemma switch_address_space_frame [frame]: "switch_address_space a b k = Some k' \<Longrightarrow> core k' = core k"
  by (cases a; cases b) (auto simp: switch_address_space_def run_simps dest!: frame split: if_split_asm)

lemma switch_to_frame [frame]: "switch_to c cur new k = Some k' \<Longrightarrow> core k' = core k"
  by (cases cur) (auto simp: switch_to_def run_simps typing_def dest!: frame upd_tcb_frame split: if_split_asm)

lemma schedule_frame [frame]: "schedule b k = Some k' \<Longrightarrow> core k' = core k"
  by (cases "current (scheds k (this_cpu k))")
    (auto simp: schedule_def run_simps typing_def dest!: frame upd_tcb_frame split: if_split_asm option.split_asm)

section \<open>Inter-process communication\<close>

lemma waitset_notify_frame [frame]: "waitset_notify w i k = Some k' \<Longrightarrow> core k' = core k"
  by (auto simp: waitset_notify_def run_simps typing_def dest!: ready_waiter_frame split: if_split_asm option.split_asm)

lemma waitset_wait_frame [frame]: "waitset_wait w t k = Some (r, k') \<Longrightarrow> core k' = core k"
  by (auto simp: waitset_wait_def run_simps typing_def dest!: upd_tcb_frame split: option.split_asm)

lemma waitset_add_frame [frame]: "waitset_add w src stag tok k = Some (r, k') \<Longrightarrow> core k' = core k"
  by (auto simp: waitset_add_def run_simps typing_def dest!: ready_waiter_frame split: option.split_asm if_split_asm)

lemma waitset_remove_frame [frame]: "waitset_remove w src k = Some (r, k') \<Longrightarrow> core k' = core k"
  by (auto simp: waitset_remove_def run_simps split: option.split_asm)

lemma clear_source_frame [frame]: "clear_source_backpointer src stag k = Some k' \<Longrightarrow> core k' = core k"
  by (cases stag) (auto simp: clear_source_backpointer_def run_simps)

lemma clear_members_frame [frame]: "clear_members ms k = Some k' \<Longrightarrow> core k' = core k"
  by (induction ms k rule: clear_members.induct) (fastforce simp: run_simps dest: clear_source_frame)+

lemma wait_set_drop_frame [frame]: "wait_set_drop w k = Some k' \<Longrightarrow> core k' = core k"
  by (auto simp: wait_set_drop_def run_simps typing_def dest!: ready_waiter_frame frame split: option.split_asm)

lemma event_queue_post_frame [frame]: "event_queue_post q v k = Some (r, k') \<Longrightarrow> core k' = core k"
  by (auto simp: event_queue_post_def run_simps typing_def dest!: upd_tcb_frame frame split: option.split_asm if_split_asm)

lemma event_queue_recv_frame [frame]: "event_queue_recv q t k = Some (r, k') \<Longrightarrow> core k' = core k"
  by (auto simp: event_queue_recv_def run_simps typing_def dest!: upd_tcb_frame split: if_split_asm)

lemma event_queue_drop_frame [frame]: "event_queue_drop q k = Some k' \<Longrightarrow> core k' = core k"
  by (auto simp: event_queue_drop_def run_simps typing_def dest!: ready_waiter_frame split: option.split_asm)

lemma post_death_frame [frame]:
  assumes "post_death_notification t v k = Some k'"
  shows "core k' = core k"
proof -
  obtain x where x: "tcbs k t = Some x" using assms by (auto simp: post_death_notification_def run_simps)
  show ?thesis
  proof (cases "death_notification x")
    case None
    then show ?thesis using assms x by (simp add: post_death_notification_def)
  next
    case (Some q)
    then obtain r k1 where k1: "event_queue_post q v k = Some (r, k1)"
      using assms x by (auto simp: post_death_notification_def run_simps)
    then have "k' = k1 \<or> (\<exists>u c n. enqueue_and_wake u c n k1 = Some k')"
      using assms x Some by (cases r; cases "projr r") (auto simp: post_death_notification_def run_simps)
    then show ?thesis using k1 by (auto dest!: frame)
  qed
qed

lemma signal_send_frame [frame]: "signal_send s b k = Some (r, k') \<Longrightarrow> core k' = core k"
  unfolding signal_send_def
  by (auto simp: run_simps typing_def core_upd_heap dest!: frame split: option.splits if_splits)

lemma signal_wait_frame [frame]: "signal_wait s t k = Some (r, k') \<Longrightarrow> core k' = core k"
  by (auto simp: signal_wait_def run_simps typing_def dest!: upd_tcb_frame split: if_split_asm)

lemma endpoint_call_frame [frame]:
  assumes "endpoint_call e t m k = Some (r, k')"
  shows "core k' = core k"
proof -
  from assms obtain ep u a z h where ep: "endpoints k e = Some ep"
      "ep_dequeue (recv_head ep, recv_tail ep) (tcbs k) = Some (u, (a, z), h)"
    by (auto simp: endpoint_call_def run_simps)
  note h = ep_dequeue_frame [OF ep(2)]
  show ?thesis
  proof (cases u)
    case (Some s)
    then show ?thesis using assms ep h
      by (auto simp: endpoint_call_def run_simps typing_def core_upd_heap dest!: upd_tcb_frame split: if_split_asm)
  next
    case None
    then obtain y a' z' h' where y: "h t = Some y" "ep_enqueue (send_head ep, send_tail ep) t (h(t \<mapsto> y\<lparr>context_saved := False,
        ipc_msg := m, state := Blocked, ipc_state := BlockedOnSend, blocked_on_object := Some e\<rparr>)) = Some ((a', z'), h')"
      using assms ep by (auto simp: endpoint_call_def run_simps)
    have "typings h' = typings (tcbs k)" using ep_enqueue_upd_frame [OF y(2,1)] h by (simp add: typing_def)
    then show ?thesis using assms ep y None
      by (auto simp: endpoint_call_def run_simps core_heap dest!: frame split: option.splits if_split_asm)
  qed
qed

lemma endpoint_recv_frame [frame]:
  assumes "endpoint_recv e t k = Some (r, k')"
  shows "core k' = core k"
proof -
  from assms obtain ep u a z h where ep: "endpoints k e = Some ep"
      "ep_dequeue (send_head ep, send_tail ep) (tcbs k) = Some (u, (a, z), h)"
    by (auto simp: endpoint_recv_def run_simps)
  note h = ep_dequeue_frame [OF ep(2)]
  show ?thesis
  proof (cases u)
    case (Some s)
    then show ?thesis using assms ep h
      by (auto simp: endpoint_recv_def run_simps typing_def core_heap dest!: upd_tcb_frame)
  next
    case None
    then obtain y a' z' h' where y: "h t = Some y" "ep_enqueue (recv_head ep, recv_tail ep) t (h(t \<mapsto> y\<lparr>context_saved := False,
        state := Blocked, ipc_state := BlockedOnRecv, blocked_on_object := Some e\<rparr>)) = Some ((a', z'), h')"
      using assms ep by (auto simp: endpoint_recv_def run_simps)
    have "typings h' = typings (tcbs k)" using ep_enqueue_upd_frame [OF y(2,1)] h by (simp add: typing_def)
    then show ?thesis using assms ep y None by (auto simp: endpoint_recv_def run_simps core_heap)
  qed
qed

lemma endpoint_reply_frame [frame]: "endpoint_reply t m k = Some (r, k') \<Longrightarrow> core k' = core k"
  by (auto simp: endpoint_reply_def run_simps typing_def dest!: upd_tcb_frame split: option.split_asm)

section \<open>Interrupts and deallocation\<close>

lemma unregister_lines_core: "core (unregister_lines s ls k) = core k"
  by (induction s ls k rule: unregister_lines.induct) (auto simp: mask_line_def)

lemma line_frame [simp]:
  "core (mask_line i k) = core k" "core (unmask_line i k) = core k" "core (acknowledge i k) = core k"
  "core (unregister_signal s k) = core k"
  by (simp_all add: mask_line_def unmask_line_def acknowledge_def unregister_signal_def unregister_lines_core)

lemma irq_register_frame [frame]: "irq_register i s k = Some k' \<Longrightarrow> core k' = core k"
  by (auto simp: irq_register_def split: if_split_asm)

lemma irq_unregister_frame [frame]: "irq_unregister i k = Some k' \<Longrightarrow> core k' = core k"
  by (auto simp: irq_unregister_def split: if_split_asm)

lemma free_frames_at_frame [frame]: "free_frames_at a n k = Some k' \<Longrightarrow> core k' = core k"
  by (auto simp: free_frames_at_def run_simps)

lemma remove_from_cpus_frame [frame]: "remove_from_cpus cs t p k = Some k' \<Longrightarrow> core k' = core k"
  by (induction cs t p k rule: remove_from_cpus.induct)
    (fastforce simp: run_simps dest: remove_from_queue_frame)+

lemma leave_wait_set_frame [frame]: "leave_wait_set ws src k = Some k' \<Longrightarrow> core k' = core k"
  by (auto simp: leave_wait_set_def run_simps dest!: frame split: option.split_asm)

lemma wake_queue_frame [frame]:
  assumes "wake_queue cur k = Some k'"
  shows "core k' = core k"
  by (rule wake_queue.raw_induct [OF _ assms, where P = "\<lambda>cur k k'. core k' = core k"])
    (auto simp: typing_def split: option.splits dest!: ready_waiter_frame)

lemma unlink_blocked_frame [frame]:
  assumes "unlink_blocked t k = Some k'"
  shows "core k' = core k"
proof -
  obtain x where x: "tcbs k t = Some x" using assms by (auto simp: unlink_blocked_def run_simps)
  show ?thesis
  proof (cases "blocked_on_object x")
    case None
    then show ?thesis using assms x by (simp add: unlink_blocked_def)
  next
    case (Some ob)
    then show ?thesis using assms x
      by (cases "ipc_state x")
        (auto simp: unlink_blocked_def run_simps typing_def core_heap dest!: upd_tcb_frame unlink_queue_frame
          split: if_split_asm)
  qed
qed

text \<open>A deallocation may also remove a thread.\<close>

definition core_shrinks :: "kernel \<Rightarrow> kernel \<Rightarrow> bool" where
  "core_shrinks k k' \<longleftrightarrow> kcaps k' = kcaps k \<and> objects k' = objects k \<and> cpu_count k' = cpu_count k \<and>
     this_cpu k' = this_cpu k \<and> brk k' = brk k \<and> typings (tcbs k') \<subseteq>\<^sub>m typings (tcbs k)"

lemma core_shrinks_core: "core k' = core k \<Longrightarrow> core_shrinks k k'"
  by (simp add: core_def core_shrinks_def)

lemma dealloc_tcb_shrinks: "dealloc_tcb t k = Some k' \<Longrightarrow> core_shrinks k k'"
proof -
  assume "dealloc_tcb t k = Some k'"
  then obtain k1 where "core k1 = core k" "k' = k1\<lparr>tcbs := (tcbs k1)(t := None)\<rparr>"
    by (auto simp: dealloc_tcb_def run_simps typing_def dest!: frame upd_tcb_frame split: if_split_asm)
  then show ?thesis by (auto simp: core_shrinks_def core_def map_le_def typings_def fun_eq_iff)
qed

lemma dealloc_endpoint_frame [frame]: "dealloc_endpoint e k = Some k' \<Longrightarrow> core k' = core k"
  by (auto simp: dealloc_endpoint_def run_simps dest!: frame split: if_split_asm)

lemma dealloc_signal_frame [frame]: "dealloc_signal s k = Some k' \<Longrightarrow> core k' = core k"
  by (auto simp: dealloc_signal_def run_simps typing_def dest!: frame ready_waiter_frame
      split: if_split_asm option.split_asm)

lemma dealloc_others_frame [frame]:
  "dealloc_event_queue q k = Some k' \<Longrightarrow> core k' = core k"
  "dealloc_aspace a k = Some k' \<Longrightarrow> core k' = core k"
  "dealloc_interrupt i k = Some k' \<Longrightarrow> core k' = core k"
  by (auto simp: dealloc_event_queue_def dealloc_aspace_def dealloc_interrupt_def run_simps dest!: frame
      split: if_split_asm)

lemma dealloc_body_shrinks: "dealloc_body b k = Some k' \<Longrightarrow> core_shrinks k k'"
  by (auto simp: dealloc_body_def dealloc_tcb_shrinks intro: core_shrinks_core dest!: frame
      split: kobject.split_asm option.split_asm)

end
