(* ===== verification/Cap_Accounting.thy ===== *)
theory Cap_Accounting
  imports Cap_Calls Kernel_Frame
begin

text \<open>
  The accounting of references behind the system calls on capabilities. A kernel object is freed when
  its reference count reaches zero, so the calls are safe only if that count is the number of
  capabilities that name the object. \<open>accounts k M\<close> states this for the state \<open>k\<close> in which the
  references \<open>M\<close> were taken out of the CSpaces and are still to be given back. The lemmas follow the
  recursion of the deallocation, where a dying CSpace hands over the references of all its slots.
\<close>

section \<open>References held by capabilities\<close>

definition held :: "cap_map \<Rightarrow> ptr multiset" where
  "held h = obj_refs h (dom h)"

definition refs :: "kernel \<Rightarrow> ptr \<Rightarrow> nat" where
  "refs k p = (case objects k p of None \<Rightarrow> 0 | Some ob \<Rightarrow> unat (ref_count ob))"

definition balanced :: "kernel \<Rightarrow> ptr multiset \<Rightarrow> bool" where
  "balanced k M \<longleftrightarrow> (\<forall>p. refs k p = count (held (gcaps (kcaps k)) + M) p)"

definition cap_object :: "capability_slot \<Rightarrow> ptr multiset" where
  "cap_object s = (case object s of None \<Rightarrow> {#} | Some p \<Rightarrow> {#p#})"

lemma obj_ref_Some: "h x = Some s \<Longrightarrow> obj_ref h x = cap_object s"
  by (simp add: obj_ref_def cap_object_def)

lemma held_payload:
  assumes "same_payload h h'"
  shows "held h' = held h"
proof -
  have "h' x = None \<longleftrightarrow> h x = None" for x using same_payload_live [OF assms] .
  then have d: "dom h' = dom h" by (auto simp: dom_def)
  have "obj_ref h' x = obj_ref h x" for x
    using assms unfolding same_payload_def obj_ref_def payload_def
    by (cases "h x"; cases "h' x") (auto dest: spec [of _ x])
  then show ?thesis unfolding held_def d by (intro obj_refs_cong)
qed

lemma held_diff:
  assumes "finite (dom h)" "D \<subseteq> dom h"
  shows "held h = held (\<lambda>x. if x \<in> D then None else h x) + obj_refs h D"
proof -
  have d: "dom (\<lambda>x. if x \<in> D then None else h x) = dom h - D" by (auto split: if_splits)
  have "obj_refs (\<lambda>x. if x \<in> D then None else h x) (dom h - D) = obj_refs h (dom h - D)"
    by (rule obj_refs_cong) (simp add: obj_ref_def)
  then show ?thesis
    using sum.subset_diff [OF assms(2,1), of "obj_ref h"] by (simp add: held_def d obj_refs_def add.commute)
qed

lemma held_remove:
  assumes "finite (dom h)" "h x = Some s"
  shows "held h = held (h(x := None)) + cap_object s"
proof -
  have "(\<lambda>y. if y \<in> {x} then None else h y) = h(x := None)" by auto
  then show ?thesis using held_diff [OF assms(1), of "{x}"] assms(2) by (auto simp: obj_refs_def obj_ref_Some)
qed

lemma held_insert:
  assumes "finite (dom h)" "h x = None"
  shows "held (h(x \<mapsto> s)) = held h + cap_object s"
  using held_remove [of "h(x \<mapsto> s)" x s] assms by (simp add: fun_upd_idem)

section \<open>The capabilities of one CSpace\<close>

lemma cs_ok_bounds: "cs_ok cs \<Longrightarrow> caps cs i = Some s \<Longrightarrow> i < L1_SIZE * L2_SIZE"
  using caps_usable usable_in_range unfolding cs_ok_def cs_full_def by blast

lemma lookup_bound: "lookup_cspace st c = Some p \<Longrightarrow> c < MAX_CSPACES"
  by (simp add: lookup_cspace_def split: if_splits)

lemma gcaps_range:
  assumes "st_ok st"
  shows "dom (gcaps st) \<subseteq> (\<lambda>(c, i). \<lparr>cspace_id = c, index = i\<rparr>) ` ({..<MAX_CSPACES} \<times> {..<L1_SIZE * L2_SIZE})"
proof
  fix x assume "x \<in> dom (gcaps st)"
  then obtain s where "gcaps st x = Some s" by auto
  then obtain p cs where p: "lookup_cspace st (cspace_id x) = Some p" "cs_heap st p = Some cs" "caps cs (index x) = Some s"
    by (rule gcaps_cases)
  have "cs_ok cs" using assms p(2) by (simp add: st_ok_def)
  then have "(cspace_id x, index x) \<in> {..<MAX_CSPACES} \<times> {..<L1_SIZE * L2_SIZE}"
    using lookup_bound [OF p(1)] cs_ok_bounds p(3) by auto
  then show "x \<in> (\<lambda>(c, i). \<lparr>cspace_id = c, index = i\<rparr>) ` ({..<MAX_CSPACES} \<times> {..<L1_SIZE * L2_SIZE})"
    by (intro image_eqI [of _ _ "(cspace_id x, index x)"]) simp_all
qed

lemma gcaps_finite: "st_ok st \<Longrightarrow> finite (dom (gcaps st))"
  by (rule finite_subset [OF gcaps_range]) auto

lemma held_size:
  assumes "st_ok st"
  shows "size (held (gcaps st)) \<le> 2 ^ 26"
proof -
  have "size (held (gcaps st)) = (\<Sum>x \<in> dom (gcaps st). size (obj_ref (gcaps st) x))"
    unfolding held_def obj_refs_def by (rule size_multiset_sum)
  also have "\<dots> \<le> card (dom (gcaps st)) * 1"
    using sum_bounded_above [of "dom (gcaps st)" "\<lambda>x. size (obj_ref (gcaps st) x)" 1]
    by (simp add: obj_ref_def split: option.split)
  also have "\<dots> \<le> card ({..<MAX_CSPACES} \<times> {..<L1_SIZE * L2_SIZE})"
    using surj_card_le [OF _ gcaps_range [OF assms]] by simp
  also have "\<dots> \<le> 2 ^ 26" by (simp add: MAX_CSPACES_def L1_SIZE_def L2_SIZE_def)
  finally show ?thesis .
qed

lemma mset_map_filter: "mset (List.map_filter f xs) = (\<Sum>x \<leftarrow> xs. case f x of None \<Rightarrow> {#} | Some y \<Rightarrow> {#y#})"
  by (induction xs) (auto simp: List.map_filter_def split: option.splits)

lemma gcaps_unregister:
  "c < MAX_CSPACES \<Longrightarrow> gcaps (unregister_cspace c st) = (\<lambda>x. if cspace_id x = c then None else gcaps st x)"
  by (auto simp: gcaps_def unregister_cspace_def lookup_cspace_def fun_eq_iff)

lemma cspace_objects:
  assumes ok: "st_ok st" and p: "registered st p c" "cs_heap st p = Some cs"
  shows "mset (for_each_object cs) = obj_refs (gcaps st) {x \<in> dom (gcaps st). cspace_id x = c}"
proof -
  let ?N = "L1_SIZE * L2_SIZE" and ?id = "\<lambda>i. \<lparr>cspace_id = c, index = i\<rparr>"
  let ?f = "\<lambda>i. case Option.bind (caps cs i) object of None \<Rightarrow> {#} | Some y \<Rightarrow> {#y#}"
  have cs: "cs_ok cs" using ok p(2) by (simp add: st_ok_def)
  then obtain fl where "cs_rep cs fl" by (auto simp: cs_ok_def cs_full_def)
  from for_each_object_eq [OF this] have "mset (for_each_object cs) = (\<Sum>i \<leftarrow> [0..<?N]. ?f i)"
    by (simp add: mset_map_filter)
  also have "\<dots> = (\<Sum>i \<in> {..<?N}. ?f i)" by (simp add: interv_sum_list_conv_sum_set_nat atLeast0LessThan)
  also have "\<dots> = (\<Sum>i \<in> dom (caps cs). ?f i)"
    using cs_ok_bounds [OF cs] by (intro sum.mono_neutral_right) (auto split: option.splits Option.bind_splits)
  also have "\<dots> = (\<Sum>x \<in> ?id ` dom (caps cs). obj_ref (gcaps st) x)"
    using registered_gcaps [OF ok p] by (subst sum.reindex) (auto simp: inj_on_def obj_ref_def)
  also have "?id ` dom (caps cs) = {x \<in> dom (gcaps st). cspace_id x = c}"
    using registered_gcaps [OF ok p]
    by (auto simp: image_iff) (metis (mono_tags) domI slot_id.surjective old.unit.exhaust)
  finally show ?thesis by (simp add: obj_refs_def)
qed

lemma held_unregister:
  assumes ok: "st_ok st" and p: "registered st p c" "cs_heap st p = Some cs"
  shows "held (gcaps st) = held (gcaps (unregister_cspace c st)) + mset (for_each_object cs)"
proof -
  let ?D = "{x \<in> dom (gcaps st). cspace_id x = c}"
  have "c < MAX_CSPACES" using p(1) lookup_bound by (auto simp: registered_def)
  then have "gcaps (unregister_cspace c st) x = (if x \<in> ?D then None else gcaps st x)" for x
    by (cases "gcaps st x") (auto simp: gcaps_unregister)
  then have "gcaps (unregister_cspace c st) = (\<lambda>x. if x \<in> ?D then None else gcaps st x)" by auto
  then show ?thesis
    using held_diff [OF gcaps_finite [OF ok], of ?D] cspace_objects [OF assms] by auto
qed

section \<open>Accounts\<close>

text \<open>The CSpace objects with a reference name registered CSpaces, each its own.\<close>

definition names_space :: "kernel \<Rightarrow> ptr \<Rightarrow> ptr \<Rightarrow> bool" where
  "names_space k p c \<longleftrightarrow> (\<exists>ob. objects k p = Some ob \<and> body ob = CSpaceObj (Some c))"

definition spaces_ok :: "kernel \<Rightarrow> bool" where
  "spaces_ok k \<longleftrightarrow> (\<forall>p c. names_space k p c \<longrightarrow> refs k p \<noteq> 0 \<longrightarrow> (\<exists>i. registered (kcaps k) c i)) \<and>
     (\<forall>p q c. names_space k p c \<longrightarrow> names_space k q c \<longrightarrow> p = q)"

definition accounts :: "kernel \<Rightarrow> ptr multiset \<Rightarrow> bool" where
  "accounts k M \<longleftrightarrow> st_ok (kcaps k) \<and> spaces_ok k \<and> balanced k M"

text \<open>What a deallocation leaves: fewer registered CSpaces, fewer objects, fewer threads.\<close>

definition fewer :: "kernel \<Rightarrow> kernel \<Rightarrow> bool" where
  "fewer k k' \<longleftrightarrow> (\<forall>i p. lookup_cspace (kcaps k') i = Some p \<longrightarrow> lookup_cspace (kcaps k) i = Some p) \<and>
     cs_heap (kcaps k') \<subseteq>\<^sub>m cs_heap (kcaps k) \<and> (\<forall>p c. names_space k' p c \<longrightarrow> names_space k p c) \<and>
     (\<forall>p. refs k' p \<le> refs k p) \<and> typings (tcbs k') \<subseteq>\<^sub>m typings (tcbs k) \<and>
     cpu_count k' = cpu_count k \<and> this_cpu k' = this_cpu k"

lemma fewer_refl [simp]: "fewer k k"
  by (simp add: fewer_def)

lemma fewer_trans: "fewer a b \<Longrightarrow> fewer b c \<Longrightarrow> fewer a c"
  unfolding fewer_def by (intro conjI; elim conjE) (blast intro: map_le_trans | metis order_trans)+

lemma fewer_gcaps:
  assumes "fewer k k'"
  shows "gcaps (kcaps k') \<subseteq>\<^sub>m gcaps (kcaps k)"
  unfolding map_le_def
proof
  fix x assume "x \<in> dom (gcaps (kcaps k'))"
  then obtain s where s: "gcaps (kcaps k') x = Some s" by auto
  then obtain p cs where p: "lookup_cspace (kcaps k') (cspace_id x) = Some p" "cs_heap (kcaps k') p = Some cs"
      "caps cs (index x) = Some s"
    by (rule gcaps_cases)
  have "lookup_cspace (kcaps k) (cspace_id x) = Some p" using p(1) assms by (simp add: fewer_def)
  moreover have "cs_heap (kcaps k) p = Some cs" using p(2) assms by (metis domI fewer_def map_le_def)
  ultimately show "gcaps (kcaps k') x = gcaps (kcaps k) x" using s p(3) by (simp add: gcaps_def)
qed

lemma accounts_shrinks:
  assumes "core_shrinks k k'"
  shows "accounts k' M = accounts k M" "fewer k k'" "refs k' p = refs k p"
proof -
  have e: "kcaps k' = kcaps k" "objects k' = objects k" using assms by (auto simp: core_shrinks_def)
  then have "refs k' = refs k" "names_space k' = names_space k" by (auto simp: refs_def names_space_def fun_eq_iff)
  then show "accounts k' M = accounts k M" "fewer k k'" "refs k' p = refs k p"
    using assms e by (simp_all add: accounts_def spaces_ok_def balanced_def fewer_def core_shrinks_def)
qed

lemma drop_object_accounts:
  assumes "accounts k M" "refs k p = 0"
  shows "accounts (drop_object p k) M" "fewer k (drop_object p k)"
proof -
  have r: "refs (drop_object p k) = refs k" using assms(2) by (auto simp: refs_def drop_object_def fun_eq_iff)
  have n: "names_space (drop_object p k) q c \<Longrightarrow> names_space k q c" for q c
    by (auto simp: names_space_def drop_object_def split: if_splits)
  have "kcaps (drop_object p k) = kcaps k" by (simp add: drop_object_def)
  then show "accounts (drop_object p k) M"
    using assms(1) n unfolding accounts_def spaces_ok_def balanced_def r by (metis (no_types, lifting))
  show "fewer k (drop_object p k)" using n r by (simp add: fewer_def drop_object_def)
qed

lemma lookup_unregister:
  "lookup_cspace (unregister_cspace c st) i = (if i = c then None else lookup_cspace st i)"
  by (auto simp: lookup_cspace_def unregister_cspace_def)

lemma retire_accounts:
  assumes acc: "accounts k M" and r: "retire_cspace c k = Some (obs, k')"
    and p: "names_space k p c" "refs k p = 0" and reg: "registered (kcaps k) c i"
  shows "accounts k' (M + mset obs)" "fewer k k'" "lookup_cspace (kcaps k') j \<noteq> Some c" "refs k' = refs k"
proof -
  have ok: "st_ok (kcaps k)" using acc by (simp add: accounts_def)
  obtain cs where cs: "cs_heap (kcaps k) c = Some cs" "cs_id cs = i" using registered_cspace [OF ok reg] by auto
  have k': "k' = k\<lparr>kcaps := unregister_cspace i (kcaps k)\<rparr>" "obs = for_each_object cs"
    using r cs by (auto simp: retire_cspace_def cspace_at_def)
  show rf: "refs k' = refs k" by (simp add: refs_def k'(1) fun_eq_iff)
  have nm: "names_space k' = names_space k" by (simp add: names_space_def k'(1) fun_eq_iff)
  have hp: "cs_heap (unregister_cspace i (kcaps k)) = cs_heap (kcaps k)" by (simp add: unregister_cspace_def)
  have inj: "a = b" if "lookup_cspace (kcaps k) a = Some q" "lookup_cspace (kcaps k) b = Some q" for a b q
    using that ok reg_inj by (auto simp: st_ok_def)
  show "lookup_cspace (kcaps k') j \<noteq> Some c"
    using inj [of i c j] reg by (auto simp: k'(1) lookup_unregister registered_def)
  show "fewer k k'" by (simp add: fewer_def rf nm) (simp add: k'(1) hp lookup_unregister)
  have "st_ok (kcaps k')" using ok by (simp add: st_ok_def reg_wf_def k'(1) hp lookup_unregister)
  moreover have "balanced k' (M + mset obs)"
    using acc held_unregister [OF ok reg cs(1)] unfolding accounts_def balanced_def rf by (simp add: k' union_ac)
  moreover have "\<exists>j. registered (kcaps k') d j" if d: "names_space k' q d" "refs k' q \<noteq> 0" for q d
  proof -
    have "q \<noteq> p" using d(2) p(2) rf by auto
    then have "d \<noteq> c" using d(1) p(1) acc unfolding nm accounts_def spaces_ok_def by blast
    moreover obtain j where "registered (kcaps k) d j"
      using acc d unfolding nm rf accounts_def spaces_ok_def by blast
    ultimately show ?thesis using reg by (intro exI [of _ j]) (auto simp: k'(1) registered_def lookup_unregister)
  qed
  then have "spaces_ok k'" using acc unfolding accounts_def spaces_ok_def nm by blast
  ultimately show "accounts k' (M + mset obs)" by (simp add: accounts_def)
qed

lemma gcaps_drop_cspace:
  "(\<And>i. lookup_cspace (kcaps k) i \<noteq> Some c) \<Longrightarrow> gcaps (kcaps (drop_cspace c k)) = gcaps (kcaps k)"
  by (auto simp: gcaps_def fun_eq_iff drop_cspace_def split: Option.bind_splits)

lemma drop_cspace_accounts:
  assumes "accounts k M" "\<And>i. lookup_cspace (kcaps k) i \<noteq> Some c"
  shows "accounts (drop_cspace c k) M" "fewer k (drop_cspace c k)" "refs (drop_cspace c k) = refs k"
proof -
  have l: "lookup_cspace (kcaps (drop_cspace c k)) = lookup_cspace (kcaps k)"
    by (simp add: drop_cspace_def)
  have r: "refs (drop_cspace c k) = refs k" "names_space (drop_cspace c k) = names_space k"
    by (simp_all add: refs_def names_space_def drop_cspace_def fun_eq_iff)
  show "refs (drop_cspace c k) = refs k" by (rule r)
  have g: "gcaps (kcaps (drop_cspace c k)) = gcaps (kcaps k)" by (rule gcaps_drop_cspace [OF assms(2)])
  have "st_ok (kcaps (drop_cspace c k))"
    using assms unfolding accounts_def st_ok_def reg_wf_def l by (auto simp: drop_cspace_def)
  then show "accounts (drop_cspace c k) M"
    using assms(1) by (simp add: accounts_def spaces_ok_def balanced_def r g registered_def l)
  show "fewer k (drop_cspace c k)"
    by (simp add: fewer_def r l) (simp add: drop_cspace_def map_le_def)
qed

lemma dec_ref_accounts:
  assumes acc: "accounts k (M + {#p#})" and d: "dec_ref p k = Some (n, k')"
  shows "accounts k' M" "fewer k k'" "refs k' p = unat n" "names_space k' p c \<Longrightarrow> \<exists>i. registered (kcaps k') c i"
proof -
  obtain ob where ob: "objects k p = Some ob" "ref_count ob \<noteq> 0" "n = ref_count ob - 1"
      "k' = put_object p (ob\<lparr>ref_count := ref_count ob - 1\<rparr>) k"
    using d by (auto simp: dec_ref_def run_simps split: if_splits)
  have "unat (ref_count ob - 1) = unat (ref_count ob) - 1" using ob(2) by (rule unat_minus_one)
  then have r: "refs k' q = refs k q - (if q = p then 1 else 0)" for q
    using ob by (auto simp: refs_def put_object_def)
  have pos: "refs k p \<noteq> 0" using ob(1,2) by (simp add: refs_def unat_eq_0)
  show "refs k' p = unat n" using ob by (simp add: refs_def put_object_def)
  have nm: "names_space k' q d = names_space k q d" for q d
    using ob by (auto simp: names_space_def put_object_def)
  have kc: "kcaps k' = kcaps k" "tcbs k' = tcbs k" "cpu_count k' = cpu_count k" "this_cpu k' = this_cpu k"
    using ob(4) by (simp_all add: put_object_def)
  show "fewer k k'" using r by (simp add: fewer_def kc nm)
  have so: "spaces_ok k" using acc by (simp add: accounts_def)
  show "\<exists>i. registered (kcaps k') c i" if "names_space k' p c"
    using so that pos unfolding nm kc spaces_ok_def by blast
  have "spaces_ok k'" using so unfolding spaces_ok_def nm kc r by (metis (no_types, lifting) diff_is_0_eq' less_eq_nat.simps(1))
  moreover have "balanced k' M" using acc by (auto simp: accounts_def balanced_def r kc)
  ultimately show "accounts k' M" using acc by (simp add: accounts_def kc)
qed

section \<open>Deallocation\<close>

text \<open>Deallocating an object without references, and giving back a list of references.\<close>

definition dealloc_keeps :: "ptr + ptr list \<Rightarrow> kernel \<Rightarrow> kernel \<Rightarrow> bool" where
  "dealloc_keeps job k k' \<longleftrightarrow>
     (case job of
        Inl p \<Rightarrow> \<forall>M. accounts k M \<longrightarrow> refs k p = 0 \<longrightarrow>
          (\<forall>c. names_space k p c \<longrightarrow> (\<exists>i. registered (kcaps k) c i)) \<longrightarrow> accounts k' M \<and> fewer k k'
      | Inr ps \<Rightarrow> \<forall>M. accounts k (M + mset ps) \<longrightarrow> accounts k' M \<and> fewer k k')"

lemma dealloc_keeps_body:
  assumes "dealloc_body b k = Some k'"
  shows "dealloc_keeps (Inl p) k (drop_object p k')"
  using accounts_shrinks [OF dealloc_body_shrinks [OF assms]] drop_object_accounts [of k' _ p]
  by (auto simp: dealloc_keeps_def intro: fewer_trans)

lemma dealloc_keeps_space:
  assumes r: "retire_cspace c k = Some (obs, k1)" and k2: "dealloc_keeps (Inr obs) k1 k2" and p: "names_space k p c"
  shows "dealloc_keeps (Inl p) k (drop_object p (drop_cspace c k2))"
  unfolding dealloc_keeps_def sum.case
proof (intro allI impI)
  fix M assume acc: "accounts k M" and 0: "refs k p = 0"
    and "\<forall>c. names_space k p c \<longrightarrow> (\<exists>i. registered (kcaps k) c i)"
  then obtain i where "registered (kcaps k) c i" using p by blast
  note r = retire_accounts [OF acc r p 0 this]
  have k2: "accounts k2 M" "fewer k1 k2" using k2 r(1) by (auto simp: dealloc_keeps_def)
  have "lookup_cspace (kcaps k2) j \<noteq> Some c" for j using r(3) k2(2) by (auto simp: fewer_def)
  note d = drop_cspace_accounts [OF k2(1) this]
  have "refs (drop_cspace c k2) p = 0" using 0 r(4) k2(2) d(3) by (metis fewer_def le_zero_eq)
  note o = drop_object_accounts [OF d(1) this]
  show "accounts (drop_object p (drop_cspace c k2)) M \<and> fewer k (drop_object p (drop_cspace c k2))"
    using o r(2) k2(2) d(2) fewer_trans by blast
qed

lemma dealloc_keeps_Cons:
  assumes d: "dec_ref p k = Some (n, k1)" and k2: "if n = 0 then dealloc_keeps (Inl p) k1 k2 else k2 = k1"
    and k': "dealloc_keeps (Inr ps) k2 k'"
  shows "dealloc_keeps (Inr (p # ps)) k k'"
  unfolding dealloc_keeps_def sum.case
proof (intro allI impI)
  fix M assume "accounts k (M + mset (p # ps))"
  then have "accounts k ((M + mset ps) + {#p#})" by (simp add: union_ac)
  note a = dec_ref_accounts [OF this d]
  have "accounts k2 (M + mset ps) \<and> fewer k1 k2"
  proof (cases "n = 0")
    case True
    then have "refs k1 p = 0" using a(3) by simp
    then show ?thesis using True k2 a(1,4) by (auto simp: dealloc_keeps_def)
  next
    case False
    then show ?thesis using k2 a(1) by simp
  qed
  then show "accounts k' M \<and> fewer k k'" using k' a(2) fewer_trans by (auto simp: dealloc_keeps_def)
qed

lemma dealloc_go_keeps:
  assumes "dealloc_go job k = Some k'"
  shows "dealloc_keeps job k k'"
proof (rule dealloc_go.raw_induct [OF _ assms, where P = dealloc_keeps])
  fix go job k k'
  assume IH: "\<And>job k k'. go job k = Some k' \<Longrightarrow> dealloc_keeps job k k'"
    and run: "(case job of
        Inl p \<Rightarrow> (case objects k p of None \<Rightarrow> None
           | Some ob \<Rightarrow> (case body ob of
                  CSpaceObj (Some c) \<Rightarrow> (case retire_cspace c k of None \<Rightarrow> None
                     | Some (obs, k') \<Rightarrow> do { k'' \<leftarrow> go (Inr obs) k'; ret (drop_object p (drop_cspace c k'')) })
                | _ \<Rightarrow> (case dealloc_body (body ob) k of None \<Rightarrow> None | Some k' \<Rightarrow> Some (drop_object p k'))))
      | Inr obs \<Rightarrow> (case obs of [] \<Rightarrow> Some k
           | p # ps \<Rightarrow> (case dec_ref p k of None \<Rightarrow> None
                | Some (remaining, k') \<Rightarrow>
                    (if remaining = 0 then do { k'' \<leftarrow> go (Inl p) k'; go (Inr ps) k'' } else go (Inr ps) k')))) = Some k'"
  show "dealloc_keeps job k k'"
  proof (cases job)
    case (Inl p)
    then obtain ob where ob: "objects k p = Some ob" using run by (auto split: option.splits)
    show ?thesis
    proof (cases "\<exists>c. body ob = CSpaceObj (Some c)")
      case True
      then obtain c where c: "body ob = CSpaceObj (Some c)" by auto
      obtain obs k1 k2 where k: "retire_cspace c k = Some (obs, k1)" "go (Inr obs) k1 = Some k2"
          "k' = drop_object p (drop_cspace c k2)"
        using run Inl ob c by (auto simp: run_simps split: option.splits)
      have "names_space k p c" using ob c by (simp add: names_space_def)
      from dealloc_keeps_space [OF k(1) IH [OF k(2)] this] show ?thesis using Inl k(3) by simp
    next
      case False
      then obtain k1 where "dealloc_body (body ob) k = Some k1" "k' = drop_object p k1"
        using run Inl ob by (auto split: option.splits kobject.splits)
      then show ?thesis using Inl dealloc_keeps_body by blast
    qed
  next
    case (Inr obs)
    show ?thesis
    proof (cases obs)
      case Nil
      then show ?thesis using run Inr by (auto simp: dealloc_keeps_def)
    next
      case (Cons p ps)
      then obtain n k1 where d: "dec_ref p k = Some (n, k1)" using run Inr by (auto split: option.splits)
      obtain k2 where k2: "if n = 0 then go (Inl p) k1 = Some k2 else k2 = k1" "go (Inr ps) k2 = Some k'"
        using run Inr Cons d by (auto simp: run_simps split: if_splits)
      have "if n = 0 then dealloc_keeps (Inl p) k1 k2 else k2 = k1" using k2(1) IH by auto
      from dealloc_keeps_Cons [OF d this IH [OF k2(2)]] show ?thesis using Inr Cons by simp
    qed
  qed
qed

lemma release_accounts:
  assumes "release_objects ps k = Some k'" "accounts k (mset ps)"
  shows "accounts k' {#}" "fewer k k'"
  using dealloc_go_keeps [OF assms(1) [unfolded release_objects_def]] assms(2)
  by (auto simp: dealloc_keeps_def dest: spec [of _ "{#}"])

lemma drop_ref_release: "drop_ref p k = release_objects [p] k"
proof -
  have nil: "dealloc_go (Inr []) = Some" by (simp add: dealloc_go.simps fun_eq_iff)
  show ?thesis
    by (cases "dec_ref p k")
      (auto simp: drop_ref_def release_objects_def dealloc_object_def dealloc_go.simps [of "Inr [p]"] nil)
qed

end
