(* ===== verification/Cap_Safety.thy ===== *)
theory Cap_Safety
  imports Cap_Accounting
begin

text \<open>
  What the system calls on capabilities guarantee together: the reference counts stay exact, no call
  creates authority, and where the destruction of a CSpace breaks the derivation tree. The lemmas
  describe one call each on the map of live capabilities; the properties at the end are stated for all
  of them.
\<close>

unbundle bit_operations_syntax

section \<open>The invariant\<close>

definition cap_inv :: "kernel \<Rightarrow> bool" where
  "cap_inv k \<longleftrightarrow> accounts k {#} \<and> (\<exists>ch. tree_rep (gcaps (kcaps k)) ch {}) \<and>
     (\<forall>t x c. tcbs k t = Some x \<longrightarrow> tcb_cspace x = Some c \<longrightarrow> (\<exists>i. registered (kcaps k) c i)) \<and>
     (\<forall>p cs. cs_heap (kcaps k) p = Some cs \<longrightarrow> max_slots cs \<le> L1_SIZE * L2_SIZE)"

lemma cap_inv_ok: "cap_inv k \<Longrightarrow> st_ok (kcaps k)" "cap_inv k \<Longrightarrow> accounts k {#}"
  by (simp_all add: cap_inv_def accounts_def)

lemma cap_inv_update:
  assumes k: "cap_inv k" and st: "st_ok (kcaps k')" "same_spaces (kcaps k) (kcaps k')" "tree_rep (gcaps (kcaps k')) ch {}"
    and k': "tcbs k' = tcbs k" "\<And>p c. names_space k' p c = names_space k p c" "\<And>p. refs k' p \<noteq> 0 \<Longrightarrow> refs k p \<noteq> 0"
    and b: "balanced k' {#}"
  shows "cap_inv k'"
proof -
  have r: "registered (kcaps k') c i = registered (kcaps k) c i" for c i by (rule same_spaces_registered [OF st(2)])
  have "max_slots cs \<le> L1_SIZE * L2_SIZE" if "cs_heap (kcaps k') p = Some cs" for p cs
  proof -
    have "map_option (\<lambda>cs. (cs_id cs, max_slots cs)) (cs_heap (kcaps k) p) = Some (cs_id cs, max_slots cs)"
      using st(2) that unfolding same_spaces_def by (metis option.simps(9))
    then show ?thesis using k unfolding cap_inv_def by fastforce
  qed
  moreover have "spaces_ok k'" using k k'(2,3) by (auto simp: cap_inv_def accounts_def spaces_ok_def r)
  ultimately show ?thesis using k st b k'(1) by (auto simp: cap_inv_def accounts_def r)
qed

section \<open>Looking up the operands\<close>

lemma caller_space_registered:
  assumes "cap_inv k" "caller_space k = Some (Inr c)"
  shows "\<exists>i. registered (kcaps k) c i"
  using assms
  by (auto simp: caller_space_def and_then_Inr caller_tcb_def caller_cspace_def cap_inv_def run_simps
      split: option.splits)

lemma live_slot:
  assumes ok: "st_ok st" and c: "registered st c i" and s: "ptr_slot c j st = Some (Some s)" "tag s \<noteq> TagNull"
  shows "gcaps st \<lparr>cspace_id = i, index = j\<rparr> = Some s" "0 < j"
proof -
  show g: "gcaps st \<lparr>cspace_id = i, index = j\<rparr> = Some s"
    using ptr_slot_cap [OF ok c] s by (simp add: is_null_def)
  show "0 < j" using gcaps_index [OF ok g] by simp
qed

lemma source_cap_live:
  assumes ok: "st_ok (kcaps k)" and c: "registered (kcaps k) c i" and s: "source_cap c j k = Some (Inr (s, ob))"
  shows "gcaps (kcaps k) \<lparr>cspace_id = i, index = j\<rparr> = Some s" "object s = Some ob" "0 < j" "tag s \<noteq> TagNull"
proof -
  have "ptr_slot c j (kcaps k) = Some (Some s)" "tag s \<noteq> TagNull" and ob: "object s = Some ob"
    using s by (auto simp: source_cap_def run_simps split: option.splits if_splits)
  from live_slot [OF ok c this(1,2)] show "gcaps (kcaps k) \<lparr>cspace_id = i, index = j\<rparr> = Some s" "0 < j" by auto
  show "object s = Some ob" "tag s \<noteq> TagNull" by fact+
qed

lemma refs_held:
  assumes "accounts k {#}" "gcaps (kcaps k) x = Some s" "object s = Some p"
  shows "refs k p \<noteq> 0"
proof -
  have "held (gcaps (kcaps k)) = held ((gcaps (kcaps k))(x := None)) + {#p#}"
    using held_remove [OF gcaps_finite assms(2)] assms by (simp add: accounts_def cap_object_def)
  then show ?thesis using assms(1) by (simp add: accounts_def balanced_def)
qed

lemma dest_space_registered:
  assumes k: "cap_inv k" and c: "registered (kcaps k) c i" and d: "dest_space c j k = Some (Inr d)"
  shows "\<exists>i. registered (kcaps k) d i"
proof -
  obtain s where s: "lookup_cap (Some c) j TagCSpace INSERT k = Some (Inr s)"
    using d by (auto simp: dest_space_def and_then_Inr)
  then have "ptr_slot c j (kcaps k) = Some (Some s)" "tag s = TagCSpace"
    by (auto simp: lookup_cap_def ptr_slot_def run_simps split: option.splits if_splits)
  then have g: "gcaps (kcaps k) \<lparr>cspace_id = i, index = j\<rparr> = Some s"
    using live_slot [OF cap_inv_ok(1) [OF k] c] by simp
  obtain p ob where p: "object s = Some p" "objects k p = Some ob" "body ob = CSpaceObj (Some d)"
    using d s by (auto simp: dest_space_def and_then_Inr slot_object_def as_cspace_def run_simps
        split: option.splits kobject.splits)
  have "refs k p \<noteq> 0" "names_space k p d"
    using refs_held [OF cap_inv_ok(2) [OF k] g p(1)] p by (auto simp: names_space_def)
  then show ?thesis using k by (auto simp: cap_inv_def accounts_def spaces_ok_def)
qed

section \<open>Inserting a copy\<close>

lemma inc_ref_refs:
  assumes "accounts k {#}" "inc_ref p k = Some k'"
  shows "refs k' q = refs k q + (if q = p then 1 else 0)" "names_space k' q c = names_space k q c"
    "kcaps k' = kcaps k" "tcbs k' = tcbs k"
proof -
  obtain ob where ob: "objects k p = Some ob" "k' = put_object p (ob\<lparr>ref_count := ref_count ob + 1\<rparr>) k"
    using assms(2) by (auto simp: inc_ref_def run_simps)
  have "unat (ref_count ob) = count (held (gcaps (kcaps k))) p"
    using assms(1) ob(1) by (auto simp: accounts_def balanced_def refs_def dest: spec [of _ p])
  also have "\<dots> \<le> 2 ^ 26"
    using count_le_size [of "held (gcaps (kcaps k))" p] held_size assms(1) by (fastforce simp: accounts_def)
  finally have "unat (ref_count ob + 1) = unat (ref_count ob) + 1" by (simp add: unat_word_ariths)
  then show "refs k' q = refs k q + (if q = p then 1 else 0)" using ob by (auto simp: refs_def put_object_def)
  show "names_space k' q c = names_space k q c" "kcaps k' = kcaps k" "tcbs k' = tcbs k"
    using ob by (auto simp: names_space_def put_object_def)
qed

text \<open>A failed insertion gives the reference back.\<close>

lemma inc_dec_ref:
  assumes "accounts k {#}" "inc_ref p k = Some k1" "dec_ref p k1 = Some (n, k2)"
  shows "k2 = k"
proof -
  obtain ob where ob: "objects k p = Some ob" "k1 = put_object p (ob\<lparr>ref_count := ref_count ob + 1\<rparr>) k"
    using assms(2) by (auto simp: inc_ref_def run_simps)
  then have "k2 = put_object p ob k" using assms(3) by (auto simp: dec_ref_def put_object_def run_simps split: if_splits)
  then show ?thesis using ob(1) by (simp add: put_object_def fun_upd_idem)
qed

lemma link_copy_spec:
  assumes st: "st_ok st" "same_spaces st0 st" "gcaps st = (gcaps st0)(x \<mapsto> new_cap t r ob)" "t \<noteq> TagNull"
    and x: "x = \<lparr>cspace_id = c2, index = j\<rparr>" "gcaps st0 x = None" "0 < j" and t0: "tree_rep (gcaps st0) ch {}"
    and n: "n = \<lparr>cspace_id = c1, index = i\<rparr>" "gcaps st0 n = Some s" "0 < i"
    and reg: "registered st0 src c1" "registered st0 dest c2"
  shows "\<exists>st'. link_copy src i dest j tok st = ret st' \<and> st_ok st' \<and> same_spaces st0 st' \<and>
    same_payload ((gcaps st0)(x \<mapsto> (new_cap t r ob)\<lparr>token := tok\<rparr>)) (gcaps st') \<and>
    tree_rep (gcaps st') (ch(n := x # ch n)) {}"
proof -
  let ?s = "(new_cap t r ob)\<lparr>token := tok\<rparr>"
  have reg': "registered st src c1" "registered st dest c2" using reg same_spaces_registered [OF st(2)] by auto
  have "\<exists>st1. (if tok \<noteq> 0 then ptr_modify dest j (\<lambda>s. s\<lparr>token := tok\<rparr>) st else ret st) = ret st1 \<and> st_ok st1 \<and>
      same_spaces st st1 \<and> gcaps st1 = (gcaps st0)(x \<mapsto> ?s)"
  proof (cases "tok = 0")
    case True
    then have e: "?s = new_cap t r ob" by (simp add: new_cap_def)
    show ?thesis unfolding e using True st by simp
  next
    case False
    have "gcaps st \<lparr>cspace_id = c2, index = j\<rparr> = Some (new_cap t r ob)" using st(3) x(1) by simp
    from ptr_modify_cap [OF st(1) reg'(2) this, of "\<lambda>s. s\<lparr>token := tok\<rparr>"] False st(3,4) x(1)
    show ?thesis by (auto simp: new_cap_def is_null_def)
  qed
  then obtain st1 where st1: "(if tok \<noteq> 0 then ptr_modify dest j (\<lambda>s. s\<lparr>token := tok\<rparr>) st else ret st) = ret st1"
      "st_ok st1" "same_spaces st st1" "gcaps st1 = (gcaps st0)(x \<mapsto> ?s)" by blast
  have ids: "registered st1 src c1" "registered st1 dest c2" using reg' same_spaces_registered [OF st1(3)] by auto
  obtain a b where ab: "cs_heap st1 src = Some a" "cs_id a = c1" "cs_heap st1 dest = Some b" "cs_id b = c2"
    using registered_cspace [OF st1(2)] ids by metis
  have u: "unlinked ?s" by (simp add: unlinked_def new_cap_def)
  obtain st2 where st2: "link_child n x st1 = ret st2" "st_ok st2" "same_spaces st1 st2"
      "gcaps st2 = link_map n x (gcaps st1)" "tree_rep (gcaps st2) (ch(n := x # ch n)) {}"
    using link_fresh [OF st1(2) t0 st1(4) x(2) u n(2)] by blast
  have live: "\<forall>y. deriv_first_child s = Some y \<longrightarrow> gcaps st1 y \<noteq> None"
    using links_live [OF t0 n(2)] st1(4) by auto
  have "gcaps st1 n = Some s" "gcaps st1 x = Some ?s" using st1(4) n(2) x(2) by auto
  from link_map_payload [OF this live] have "same_payload ((gcaps st0)(x \<mapsto> ?s)) (gcaps st2)"
    unfolding st2(4) st1(4) .
  moreover have "link_copy src i dest j tok st = ret st2"
    using st1(1) ab st2(1) n(1,3) x(1,3) by (simp add: link_copy_def cspace_at_def SlotId_new_def)
  moreover have "same_spaces st0 st2" using st(2) st1(3) st2(3) same_spaces_trans by blast
  ultimately show ?thesis using st2(2,5) by blast
qed

section \<open>Confinement\<close>

text \<open>The capability \<open>s'\<close> gives no more than \<open>s\<close>: the same object, no new rights, and a token that is
  set stays.\<close>

definition covers :: "capability_slot \<Rightarrow> capability_slot \<Rightarrow> bool" where
  "covers s s' \<longleftrightarrow> object s' = object s \<and> tag s' = tag s \<and> contains (rights s) (rights s') \<and>
     (token s = 0 \<or> token s' = token s)"

definition confined :: "cap_map \<Rightarrow> cap_map \<Rightarrow> bool" where
  "confined h h' \<longleftrightarrow> (\<forall>x s'. h' x = Some s' \<longrightarrow> (\<exists>y s. h y = Some s \<and> covers s s'))"

lemma covers_refl [simp]: "covers s s"
  by (simp add: covers_def contains_def)

lemma confined_refl [simp]: "confined h h"
  by (auto simp: confined_def intro: covers_refl)

lemma confined_le: "confined h g \<Longrightarrow> g' \<subseteq>\<^sub>m g \<Longrightarrow> confined h g'"
  unfolding confined_def map_le_def by (metis domI)

lemma confined_payload: 
  assumes "confined h g" "same_payload g g'"
  shows "confined h g'"
  unfolding confined_def
proof (intro allI impI)
  fix x s' assume s': "g' x = Some s'"
  then have "map_option payload (g x) = Some (payload s')" using assms(2) unfolding same_payload_def by (metis option.simps(9))
  then obtain sx where sx: "g x = Some sx" "payload sx = payload s'" by auto
  obtain y s where y: "h y = Some s" "covers s sx" using assms(1) sx(1) unfolding confined_def by blast
  have "covers s s'" using y(2) sx(2) by (simp add: payload_def covers_def)
  then show "\<exists>y s. h y = Some s \<and> covers s s'" using y(1) by blast
qed

lemma confined_insert: "h y = Some s \<Longrightarrow> covers s s' \<Longrightarrow> confined h (h(x \<mapsto> s'))"
  unfolding confined_def using covers_refl by (metis fun_upd_apply option.inject)

lemma confined_remove: "confined h (h(x := None))"
  by (rule confined_le [OF confined_refl]) (auto simp: map_le_def)

section \<open>The calls\<close>

text \<open>One step of a call that frees nothing: the invariant stays and no authority appears.\<close>

definition safe_step :: "kernel \<Rightarrow> kernel \<Rightarrow> bool" where
  "safe_step k k' \<longleftrightarrow> cap_inv k' \<and> confined (gcaps (kcaps k)) (gcaps (kcaps k'))"

lemma safe_step_refl [simp]: "cap_inv k \<Longrightarrow> safe_step k k"
  by (simp add: safe_step_def)

text \<open>A new capability \<open>s'\<close> in slot \<open>x\<close>, paid for by one reference.\<close>

lemma copy_step:
  assumes k: "cap_inv k" and inc: "inc_ref ob k = Some k1"
    and st: "st_ok st" "same_spaces (kcaps k) st" "same_payload ((gcaps (kcaps k))(x \<mapsto> s')) (gcaps st)"
      "tree_rep (gcaps st) ch {}"
    and x: "gcaps (kcaps k) x = None" and n: "gcaps (kcaps k) n = Some s" "covers s s'" "object s = Some ob"
  shows "safe_step k (k1\<lparr>kcaps := st\<rparr>)"
proof -
  note i = inc_ref_refs [OF cap_inv_ok(2) [OF k] inc]
  let ?k = "k1\<lparr>kcaps := st\<rparr>"
  have r: "refs ?k p = refs k p + (if p = ob then 1 else 0)" "names_space ?k p c = names_space k p c" for p c
    using i(1,2) by (simp_all add: refs_def names_space_def)
  have "held (gcaps st) = held (gcaps (kcaps k)) + {#ob#}"
    using held_payload [OF st(3)] held_insert [OF gcaps_finite [OF cap_inv_ok(1) [OF k]] x] n(2,3)
    by (simp add: cap_object_def covers_def)
  then have b: "balanced ?k {#}" using cap_inv_ok(2) [OF k] r(1) by (simp add: accounts_def balanced_def)
  have "0 < refs k ob" using refs_held [OF cap_inv_ok(2) [OF k] n(1,3)] by simp
  then have "cap_inv ?k"
    using st(1,2,4) i(4) r(2) b by (intro cap_inv_update [OF k, where ch = ch]) (auto simp: r(1) split: if_splits)
  then show ?thesis
    using confined_payload [OF confined_insert [of "gcaps (kcaps k)" n, OF n(1,2)] st(3)] by (simp add: safe_step_def)
qed

lemma covers_copy:
  "object s = Some ob \<Longrightarrow> token s = 0 \<or> tok = token s \<Longrightarrow> covers s ((new_cap (tag s) (m AND rights s) ob)\<lparr>token := tok\<rparr>)"
  by (auto simp: covers_def new_cap_def contains_def word_bw_assocs) (simp_all add: and.left_commute)

lemma copy_cap_safe:
  assumes k: "cap_inv k" and reg: "registered (kcaps k) src c1" "registered (kcaps k) dest c2"
    and s: "source_cap src i k = Some (Inr (s, ob))" and tok: "token s = 0 \<or> tok = token s"
    and run: "copy_cap src i dest (tag s) (m AND rights s) tok ob k = Some (Done r k')"
  shows "safe_step k k'"
proof -
  note ok = cap_inv_ok [OF k]
  note sc = source_cap_live [OF ok(1) reg(1) s]
  obtain ch where t: "tree_rep (gcaps (kcaps k)) ch {}" using k by (auto simp: cap_inv_def)
  obtain k1 where k1: "inc_ref ob k = Some k1" using run by (auto simp: copy_cap_def run_simps)
  note kc = inc_ref_refs(3) [OF ok(2) k1]
  let ?r = "m AND rights s"
  show ?thesis
  proof (cases "ptr_room (kcaps k) dest = 0")
    case True
    have "ptr_insert_cap dest (tag s) ?r ob (kcaps k) = ret (Inl OutOfSlots, kcaps k)"
      by (rule ptr_insert_cap_full [OF ok(1) reg(2) sc(4) True])
    then have "\<exists>n. dec_ref ob (k1\<lparr>kcaps := kcaps k\<rparr>) = Some (n, k')"
      using run k1 kc by (auto simp: copy_cap_def fails_def run_simps)
    then have "\<exists>n. dec_ref ob k1 = Some (n, k')" using kc by (cases k1) simp
    then show ?thesis using inc_dec_ref [OF ok(2) k1] k by auto
  next
    case False
    then obtain j st where j: "ptr_insert_cap dest (tag s) ?r ob (kcaps k) = ret (Inr j, st)" "st_ok st"
        "same_spaces (kcaps k) st" "0 < j" "gcaps (kcaps k) \<lparr>cspace_id = c2, index = j\<rparr> = None"
        "gcaps st = (gcaps (kcaps k))(\<lparr>cspace_id = c2, index = j\<rparr> \<mapsto> new_cap (tag s) ?r ob)"
      using ptr_insert_cap_ok [OF ok(1) reg(2) sc(4), of ?r ob] by auto
    from link_copy_spec [OF j(2,3,6) sc(4) refl j(5,4) t refl sc(1,3) reg, of tok]
    obtain st' where st': "link_copy src i dest j tok st = ret st'" "st_ok st'" "same_spaces (kcaps k) st'"
        "same_payload ((gcaps (kcaps k))(\<lparr>cspace_id = c2, index = j\<rparr> \<mapsto> (new_cap (tag s) ?r ob)\<lparr>token := tok\<rparr>)) (gcaps st')"
        "tree_rep (gcaps st') (ch(\<lparr>cspace_id = c1, index = i\<rparr> :=
           \<lparr>cspace_id = c2, index = j\<rparr> # ch \<lparr>cspace_id = c1, index = i\<rparr>)) {}" by blast
    have "k' = k1\<lparr>kcaps := st'\<rparr>" using run k1 kc j(1) st'(1) by (simp add: copy_cap_def)
    then show ?thesis
      using copy_step [OF k k1 st'(2-5) j(5) sc(1) covers_copy [OF sc(2) tok] sc(2)] by simp
  qed
qed

text \<open>Insertion at a chosen index.\<close>

lemma ptr_insert_cap_at_spec:
  assumes k: "cap_inv k" and reg: "registered (kcaps k) p c" and t: "t \<noteq> TagNull"
    and run: "ptr_insert_cap_at p i t r ob (kcaps k) = Some (res, st)"
  shows "(\<exists>e. res = Inl e \<and> st = kcaps k) \<or>
    res = Inr () \<and> 0 < i \<and> gcaps (kcaps k) \<lparr>cspace_id = c, index = i\<rparr> = None \<and> st_ok st \<and> same_spaces (kcaps k) st \<and>
      gcaps st = (gcaps (kcaps k))(\<lparr>cspace_id = c, index = i\<rparr> \<mapsto> new_cap t r ob)"
proof -
  note ok = cap_inv_ok(1) [OF k]
  obtain cs where cs: "cs_heap (kcaps k) p = Some cs" "cs_ok cs" using registered_cspace [OF ok reg] by auto
  obtain fl where fl: "cs_full cs fl" using cs(2) by (auto simp: cs_ok_def)
  have "max_slots cs \<le> L1_SIZE * L2_SIZE" using k cs(1) by (simp add: cap_inv_def)
  note sp = insert_cap_at_spec [OF fl t this, of i r ob]
  show ?thesis
  proof (cases "0 < i \<and> i < max_slots cs \<and> caps cs i = None")
    case True
    then obtain cs' fl' where cs': "insert_cap_at i t r ob cs = ret (Inr (), cs')" "filled cs cs' i (new_cap t r ob) fl'"
        "cs_full cs' fl'"
      using sp by auto
    then have f: "cs_ok cs'" "cs_id cs' = cs_id cs" "max_slots cs' = max_slots cs" "caps cs' = (caps cs)(i \<mapsto> new_cap t r ob)"
      by (auto simp: cs_ok_def filled_def)
    have "res = Inr ()" "st = put_cspace p cs' (kcaps k)"
      using run cs(1) cs'(1) by (auto simp: ptr_insert_cap_at_def cspace_at_def)
    then show ?thesis
      using True registered_gcaps [OF ok reg cs(1), of i] put_cspace_ok(1,2) [OF ok reg cs(1) f(1-3)]
        put_cspace_upd [OF ok reg cs(1) f] by simp
  next
    case False
    then have "insert_cap_at i t r ob cs = ret (Inl InvalidIndex, cs)" using sp by auto
    then show ?thesis using run cs(1) by (auto simp: ptr_insert_cap_at_def cspace_at_def put_cspace_def fun_upd_idem)
  qed
qed

lemma insert_safe:
  assumes k: "cap_inv k" and reg: "registered (kcaps k) src c1" "registered (kcaps k) dest c2"
    and s: "source_cap src i k = Some (Inr (s, ob))" and k1: "inc_ref ob k = Some k1"
    and ins: "ptr_insert_cap_at dest j (tag s) (m AND rights s) ob (kcaps k) = Some (res, st)"
    and run: "case res of Inl e \<Rightarrow> \<exists>n. dec_ref ob (k1\<lparr>kcaps := st\<rparr>) = Some (n, k')
      | Inr _ \<Rightarrow> \<exists>st'. link_copy src i dest j (token s) st = Some st' \<and> k' = k1\<lparr>kcaps := st'\<rparr>"
  shows "safe_step k k'"
proof -
  note ok = cap_inv_ok [OF k]
  note sc = source_cap_live [OF ok(1) reg(1) s]
  obtain ch where t: "tree_rep (gcaps (kcaps k)) ch {}" using k by (auto simp: cap_inv_def)
  note kc = inc_ref_refs(3) [OF ok(2) k1]
  consider e where "res = Inl e" "st = kcaps k" |
      "res = Inr ()" "0 < j" "gcaps (kcaps k) \<lparr>cspace_id = c2, index = j\<rparr> = None" "st_ok st" "same_spaces (kcaps k) st"
      "gcaps st = (gcaps (kcaps k))(\<lparr>cspace_id = c2, index = j\<rparr> \<mapsto> new_cap (tag s) (m AND rights s) ob)"
    using ptr_insert_cap_at_spec [OF k reg(2) sc(4) ins] by metis
  then show ?thesis
  proof cases
    case 1
    then have "\<exists>n. dec_ref ob k1 = Some (n, k')" using run kc by (cases k1) auto
    then show ?thesis using inc_dec_ref [OF ok(2) k1] k by auto
  next
    case 2
    from link_copy_spec [OF 2(4,5,6) sc(4) refl 2(3,2) t refl sc(1,3) reg, of "token s"] obtain st' where
      st': "link_copy src i dest j (token s) st = ret st'" "st_ok st'" "same_spaces (kcaps k) st'"
        "same_payload ((gcaps (kcaps k))(\<lparr>cspace_id = c2, index = j\<rparr> \<mapsto>
           (new_cap (tag s) (m AND rights s) ob)\<lparr>token := token s\<rparr>)) (gcaps st')"
        "tree_rep (gcaps st') (ch(\<lparr>cspace_id = c1, index = i\<rparr> :=
           \<lparr>cspace_id = c2, index = j\<rparr> # ch \<lparr>cspace_id = c1, index = i\<rparr>)) {}" by blast
    have "k' = k1\<lparr>kcaps := st'\<rparr>" using run 2(1) st'(1) by simp
    then show ?thesis
      using copy_step [OF k k1 st'(2-5) 2(3) sc(1) _ sc(2)] covers_copy [OF sc(2), of "token s"] by simp
  qed
qed

text \<open>Moves: one node is renamed.\<close>

lemma move_step:
  assumes k: "cap_inv k" and st: "st_ok st" "same_spaces (kcaps k) st" "gcaps st = rename_map n m (gcaps (kcaps k))"
    and n: "gcaps (kcaps k) n = Some s" "gcaps (kcaps k) m = None"
  shows "safe_step k (k\<lparr>kcaps := st\<rparr>)"
proof -
  let ?h = "gcaps (kcaps k)" and ?k = "k\<lparr>kcaps := st\<rparr>"
  note fin = gcaps_finite [OF cap_inv_ok(1) [OF k]]
  obtain ch where "tree_rep ?h ch {}" using k by (auto simp: cap_inv_def)
  from rename_tree [OF this, of n m] have t: "tree_rep (gcaps st) (\<lambda>x. map (rename n m) (ch (rename n m x))) {}"
    unfolding st(3) .
  have nm: "n \<noteq> m" using n by auto
  have p: "same_payload (?h(n := None, m \<mapsto> s)) (gcaps st)"
    using n nm by (auto simp: st(3) same_payload_def rename_map_def rename_def option.map_comp comp_def payload_def
        map_links_def intro!: option.map_cong)
  have "held (gcaps st) = held ?h"
    using held_payload [OF p] held_insert [of "?h(n := None)" m s] held_remove [OF fin n(1)] fin n nm by simp
  then have b: "balanced ?k {#}" using cap_inv_ok(2) [OF k] by (simp add: accounts_def balanced_def refs_def)
  have "cap_inv ?k"
    using st(1,2) t b by (intro cap_inv_update [OF k]) (auto simp: refs_def names_space_def)
  moreover have "confined ?h (?h(n := None, m \<mapsto> s))"
    using n(1) covers_refl unfolding confined_def by (metis fun_upd_apply option.distinct(1) option.inject)
  ultimately show ?thesis using confined_payload [OF _ p] by (simp add: safe_step_def)
qed

lemma move_next_safe:
  assumes k: "cap_inv k" and reg: "registered (kcaps k) src c1" "registered (kcaps k) dest c2"
    and run: "move_cap_between_cspaces src i dest (kcaps k) = Some (res, st)"
  shows "safe_step k (k\<lparr>kcaps := st\<rparr>)"
proof -
  note ok = cap_inv_ok(1) [OF k]
  obtain ch where t: "tree_rep (gcaps (kcaps k)) ch {}" using k by (auto simp: cap_inv_def)
  show ?thesis
  proof (cases "\<exists>s ob. ptr_slot src i (kcaps k) = Some (Some s) \<and> tag s \<noteq> TagNull \<and> object s = Some ob")
    case True
    then obtain s ob where s: "ptr_slot src i (kcaps k) = Some (Some s)" "tag s \<noteq> TagNull" "object s = Some ob" by blast
    note g = live_slot(1) [OF ok reg(1) s(1,2)]
    show ?thesis
    proof (cases "ptr_room (kcaps k) dest = 0")
      case True
      then show ?thesis using move_cap_full [OF ok reg g s(3)] run k by simp
    next
      case False
      then show ?thesis using move_cap_ok [OF ok t reg g s(3)] run move_step [OF k _ _ _ g] by auto
    qed
  next
    case False
    obtain r where r: "ptr_slot src i (kcaps k) = Some r"
      using run by (auto simp: move_cap_between_cspaces_def run_simps)
    have "st = kcaps k"
    proof (cases r)
      case (Some s)
      then show ?thesis using run r False
        by (cases "object s") (auto simp: move_cap_between_cspaces_def split: if_split_asm)
    qed (use run r in \<open>simp add: move_cap_between_cspaces_def\<close>)
    then show ?thesis using k by simp
  qed
qed

lemma move_to_safe:
  assumes k: "cap_inv k" and reg: "registered (kcaps k) src c1" "registered (kcaps k) dest c2"
    and s: "source_cap src i k = Some (Inr (s, ob))"
    and ins: "ptr_insert_cap_at dest j (tag s) (rights s) ob (kcaps k) = Some (res, st)"
    and run: "case res of Inl e \<Rightarrow> st' = st
      | Inr _ \<Rightarrow> relink_moved src i dest j \<lparr>cspace_id = c1, index = i\<rparr> \<lparr>cspace_id = c2, index = j\<rparr> (token s) st = Some st'"
  shows "safe_step k (k\<lparr>kcaps := st'\<rparr>)"
proof -
  note ok = cap_inv_ok(1) [OF k]
  note sc = source_cap_live [OF ok reg(1) s]
  obtain ch where t: "tree_rep (gcaps (kcaps k)) ch {}" using k by (auto simp: cap_inv_def)
  consider e where "res = Inl e" "st = kcaps k" |
      "res = Inr ()" "0 < j" "gcaps (kcaps k) \<lparr>cspace_id = c2, index = j\<rparr> = None" "st_ok st" "same_spaces (kcaps k) st"
      "gcaps st = (gcaps (kcaps k))(\<lparr>cspace_id = c2, index = j\<rparr> \<mapsto> new_cap (tag s) (rights s) ob)"
    using ptr_insert_cap_at_spec [OF k reg(2) sc(4) ins] by metis
  then show ?thesis
  proof cases
    case 1
    then show ?thesis using run k by simp
  next
    case 2
    have "registered st src c1" "registered st dest c2" "\<not> is_null s"
      using reg same_spaces_registered [OF 2(5)] sc(4) by (auto simp: is_null_def)
    from relink_moved_spec [OF 2(4) t refl sc(1) refl 2(3,6) sc(2) this(3,1,2)] run 2(1)
    have "st_ok st'" "same_spaces st st'"
      "gcaps st' = rename_map \<lparr>cspace_id = c1, index = i\<rparr> \<lparr>cspace_id = c2, index = j\<rparr> (gcaps (kcaps k))" by auto
    then show ?thesis using move_step [OF k _ _ _ sc(1) 2(3)] same_spaces_trans [OF 2(5)] by blast
  qed
qed

text \<open>Calls that free: after the capabilities are gone their references are given back.\<close>

definition freeing_step :: "kernel \<Rightarrow> kernel \<Rightarrow> bool" where
  "freeing_step k k' \<longleftrightarrow> accounts k' {#} \<and> confined (gcaps (kcaps k)) (gcaps (kcaps k'))"

lemma safe_freeing: "safe_step k k' \<Longrightarrow> freeing_step k k'"
  by (simp add: safe_step_def freeing_step_def cap_inv_def)

lemma freeing_refl: "cap_inv k \<Longrightarrow> freeing_step k k"
  by (simp add: safe_freeing)

lemma release_step:
  assumes k: "cap_inv k" and st: "st_ok st" "same_spaces (kcaps k) st" "confined (gcaps (kcaps k)) (gcaps st)"
    "held (gcaps (kcaps k)) = held (gcaps st) + mset ps"
    and run: "release_objects ps (k\<lparr>kcaps := st\<rparr>) = Some k'"
  shows "freeing_step k k'"
proof -
  let ?k = "k\<lparr>kcaps := st\<rparr>"
  have r: "registered st c i = registered (kcaps k) c i" for c i by (rule same_spaces_registered [OF st(2)])
  have "spaces_ok ?k" using k by (simp add: cap_inv_def accounts_def spaces_ok_def names_space_def refs_def r)
  moreover have "balanced ?k (mset ps)"
    using k st(4) by (simp add: cap_inv_def accounts_def balanced_def refs_def)
  ultimately have "accounts ?k (mset ps)" using st(1) by (simp add: accounts_def)
  from release_accounts [OF run this] fewer_gcaps [of ?k k'] confined_le [OF st(3)] show ?thesis
    by (simp add: freeing_step_def)
qed

lemma delete_step:
  assumes k: "cap_inv k" and c: "registered (kcaps k) c i" "cs_id cs = i" "cs_heap (kcaps k) c = Some cs"
    and s: "slot cs j = Some (Some s)" "tag s \<noteq> TagNull" "object s = Some ob"
    and run: "delete_node c j \<lparr>cspace_id = i, index = j\<rparr> (deriv_parent s) (kcaps k) = Some st"
      "drop_ref ob (k\<lparr>kcaps := st\<rparr>) = Some k'"
  shows "freeing_step k k'"
proof -
  note ok = cap_inv_ok(1) [OF k]
  let ?h = "gcaps (kcaps k)" and ?n = "\<lparr>cspace_id = i, index = j\<rparr>"
  obtain ch where t: "tree_rep ?h ch {}" using k by (auto simp: cap_inv_def)
  have g: "?h ?n = Some s" using live_slot(1) [OF ok c(1)] s c(3) by (simp add: ptr_slot_def cspace_at_def)
  from delete_node_spec [OF ok t refl g c(1)] run(1) have st: "st_ok st" "same_spaces (kcaps k) st"
      "same_payload (?h(?n := None)) (gcaps st)" by auto
  have "held ?h = held (gcaps st) + mset [ob]"
    using held_remove [OF gcaps_finite [OF ok] g] held_payload [OF st(3)] s(3) by (simp add: cap_object_def)
  then show ?thesis
    using release_step [OF k st(1,2) confined_payload [OF confined_remove st(3)]] run(2) by (simp add: drop_ref_release)
qed

lemma sys_revoke_step:
  assumes k: "cap_inv k" and c: "registered (kcaps k) c i" "cs_heap (kcaps k) c = Some cs"
    and s: "slot cs j = Some (Some s)" "tag s \<noteq> TagNull"
    and run: "revoke_subtree \<lparr>cspace_id = i, index = j\<rparr> (kcaps k) = Some (ps, st)"
      "release_objects ps (k\<lparr>kcaps := st\<rparr>) = Some k'"
  shows "freeing_step k k'"
proof -
  note ok = cap_inv_ok(1) [OF k]
  let ?h = "gcaps (kcaps k)" and ?n = "\<lparr>cspace_id = i, index = j\<rparr>"
  obtain ch where t: "tree_rep ?h ch {}" using k by (auto simp: cap_inv_def)
  let ?D = "descendants ch ?n"
  have g: "?h ?n = Some s" using live_slot(1) [OF ok c(1)] s c(2) by (simp add: ptr_slot_def cspace_at_def)
  from revoke_subtree_spec [OF ok t g] run(1) have st: "st_ok st" "same_spaces (kcaps k) st" "mset ps = obj_refs ?h ?D"
    "gcaps st = (\<lambda>x. if x \<in> ?D then None else if x = ?n then Some (s\<lparr>deriv_first_child := None\<rparr>) else ?h x)" by auto
  have D: "?D \<subseteq> dom ?h" using tree_live [OF t] unfolding descendants_def edges_def
    by (auto dest!: tranclD2)
  let ?g = "\<lambda>x. if x \<in> ?D then None else ?h x"
  have p: "same_payload ?g (gcaps st)" unfolding st(4) using g by (auto simp: same_payload_def)
  have "held ?h = held (gcaps st) + mset ps"
    using held_diff [OF gcaps_finite [OF ok] D] held_payload [OF p] st(3) by simp
  moreover have "confined ?h ?g" by (rule confined_le [OF confined_refl]) (auto simp: map_le_def split: if_splits)
  ultimately show ?thesis using release_step [OF k st(1,2) confined_payload [OF _ p] _ run(2)] by blast
qed

section \<open>All calls\<close>

lemma cap_id: "st_ok st \<Longrightarrow> registered st c i \<Longrightarrow> cs_heap st c = Some cs \<Longrightarrow> cs_id cs = i"
  using registered_cspace by fastforce

lemma copy_call:
  assumes k: "cap_inv k" and run: "sys_cap_copy tf k = Some (Done r k')"
  shows "safe_step k k'"
proof -
  consider "k' = k" | src s ob dest where "caller_space k = Some (Inr src)" "source_cap src (arg32 0 tf) k = Some (Inr (s, ob))"
      "dest_space src (arg32 1 tf) k = Some (Inr dest)"
      "copy_cap src (arg32 0 tf) dest (tag s) (ucast (arg 2 tf) AND rights s) (token s) ob k = Some (Done r k')"
    using run by (auto simp: sys_cap_copy_def attempt_Some)
  then show ?thesis
  proof cases
    case 2
    obtain c1 c2 where "registered (kcaps k) src c1" "registered (kcaps k) dest c2"
      using 2 caller_space_registered [OF k] dest_space_registered [OF k] by metis
    from copy_cap_safe [OF k this 2(2) _ 2(4)] show ?thesis by simp
  qed (use k in simp)
qed

lemma derive_safe:
  assumes k: "cap_inv k" and src: "caller_space k = Some (Inr src)" and s: "source_cap src i k = Some (Inr (s, ob))"
    and tok: "token s = 0 \<or> tok = token s"
    and run: "copy_cap src i src (tag s) (m AND rights s) tok ob k = Some (Done r k')"
  shows "safe_step k k'"
proof -
  obtain c1 where "registered (kcaps k) src c1" using src caller_space_registered [OF k] by metis
  from copy_cap_safe [OF k this this s tok run] show ?thesis .
qed

lemma derive_call:
  assumes k: "cap_inv k" and run: "sys_cap_derive tf k = Some (Done r k')"
  shows "safe_step k k'"
proof -
  consider "k' = k" | src s ob where "caller_space k = Some (Inr src)" "source_cap src (arg32 0 tf) k = Some (Inr (s, ob))"
      "copy_cap src (arg32 0 tf) src (tag s) (ucast (arg 1 tf) AND rights s) (token s) ob k = Some (Done r k')"
    using run by (auto simp: sys_cap_derive_def attempt_Some)
  then show ?thesis
  proof cases
    case 2
    from derive_safe [OF k 2(1,2) _ 2(3)] show ?thesis by simp
  qed (use k in simp)
qed

lemma derive_token_call:
  assumes k: "cap_inv k" and run: "sys_cap_derive_token tf k = Some (Done r k')"
  shows "safe_step k k'"
proof -
  consider "k' = k" | src s ob where "caller_space k = Some (Inr src)" "source_cap src (arg32 0 tf) k = Some (Inr (s, ob))"
      "token s = 0" "copy_cap src (arg32 0 tf) src (tag s) (ucast (arg 1 tf) AND rights s) (arg 2 tf) ob k = Some (Done r k')"
    using run by (auto simp: sys_cap_derive_token_def attempt_Some fails_def Let_def split: if_split_asm)
  then show ?thesis
  proof cases
    case 2
    from derive_safe [OF k 2(1,2) _ 2(4)] show ?thesis using 2(3) by simp
  qed (use k in simp)
qed

lemma insert_call:
  assumes k: "cap_inv k" and run: "sys_cap_insert tf k = Some (Done r k')"
  shows "safe_step k k'"
proof -
  consider "k' = k" | src s ob dest where "caller_space k = Some (Inr src)" "source_cap src (arg32 0 tf) k = Some (Inr (s, ob))"
      "dest_space src (arg32 1 tf) k = Some (Inr dest)"
    using run by (auto simp: sys_cap_insert_def attempt_Some)
  then show ?thesis
  proof cases
    case 2
    obtain k1 res st where k1: "inc_ref ob k = Some k1"
      "ptr_insert_cap_at dest (arg32 2 tf) (tag s) (ucast (arg 3 tf) AND rights s) ob (kcaps k1) = Some (res, st)"
      using run 2 by (auto simp: sys_cap_insert_def run_simps)
    have "case res of Inl e \<Rightarrow> \<exists>n. dec_ref ob (k1\<lparr>kcaps := st\<rparr>) = Some (n, k')
        | Inr _ \<Rightarrow> \<exists>st'. link_copy src (arg32 0 tf) dest (arg32 2 tf) (token s) st = Some st' \<and> k' = k1\<lparr>kcaps := st'\<rparr>"
      using run 2 k1 by (cases res) (auto simp: sys_cap_insert_def run_simps fails_def)
    note res = this
    obtain c1 c2 where "registered (kcaps k) src c1" "registered (kcaps k) dest c2"
      using 2 caller_space_registered [OF k] dest_space_registered [OF k] by metis
    from insert_safe [OF k this 2(2) k1(1) _ res] k1(2) show ?thesis
      by (simp add: inc_ref_refs(3) [OF cap_inv_ok(2) [OF k] k1(1)])
  qed (use k in simp)
qed

lemma move_call:
  assumes k: "cap_inv k" and run: "sys_cap_move tf k = Some (Done r k')"
  shows "safe_step k k'"
proof -
  consider "k' = k" | src dest where "caller_space k = Some (Inr src)" "dest_space src (arg32 1 tf) k = Some (Inr dest)"
    using run by (auto simp: sys_cap_move_def attempt_Some Let_def)
  then show ?thesis
  proof cases
    case 2
    obtain c1 c2 where reg: "registered (kcaps k) src c1" "registered (kcaps k) dest c2"
      using 2 caller_space_registered [OF k] dest_space_registered [OF k] by metis
    show ?thesis
    proof (cases "arg32 2 tf = 0")
      case True
      then obtain res st where st: "move_cap_between_cspaces src (arg32 0 tf) dest (kcaps k) = Some (res, st)"
        using run 2 by (auto simp: sys_cap_move_def run_simps)
      then have "k' = k\<lparr>kcaps := st\<rparr>" using run 2 True by (cases res) (auto simp: sys_cap_move_def fails_def)
      then show ?thesis using move_next_safe [OF k reg st] by simp
    next
      case False
      consider "k' = k" | s ob where "source_cap src (arg32 0 tf) k = Some (Inr (s, ob))"
        using run 2 False by (auto simp: sys_cap_move_def attempt_Some Let_def)
      then show ?thesis
      proof cases
        case s: 2
        obtain a b where ab: "cs_heap (kcaps k) src = Some a" "cs_heap (kcaps k) dest = Some b"
          using registered_cspace [OF cap_inv_ok(1) [OF k]] reg by metis
        note ids = cap_id [OF cap_inv_ok(1) [OF k] reg(1) ab(1)] cap_id [OF cap_inv_ok(1) [OF k] reg(2) ab(2)]
        obtain res st where i: "ptr_insert_cap_at dest (arg32 2 tf) (tag s) (rights s) ob (kcaps k) = Some (res, st)"
          using run 2 False s ab by (auto simp: sys_cap_move_def run_simps cspace_at_def)
        obtain st' where "case res of Inl e \<Rightarrow> st' = st
            | Inr _ \<Rightarrow> relink_moved src (arg32 0 tf) dest (arg32 2 tf) \<lparr>cspace_id = c1, index = arg32 0 tf\<rparr>
                \<lparr>cspace_id = c2, index = arg32 2 tf\<rparr> (token s) st = Some st'" "k' = k\<lparr>kcaps := st'\<rparr>"
          using run 2 False s ab i ids
          by (cases res) (auto simp: sys_cap_move_def run_simps cspace_at_def fails_def SlotId_new_def split: if_split_asm)
        then show ?thesis using move_to_safe [OF k reg s i] by blast
      qed (use k in simp)
    qed
  qed (use k in simp)
qed

lemma delete_call:
  assumes k: "cap_inv k" and run: "sys_cap_delete tf k = Some (Done r k')"
  shows "freeing_step k k'"
proof -
  consider "k' = k" | c where "caller_space k = Some (Inr c)"
    using run by (auto simp: sys_cap_delete_def attempt_Some Let_def)
  then show ?thesis
  proof cases
    case 2
    obtain i where c: "registered (kcaps k) c i" using caller_space_registered [OF k 2] by blast
    obtain cs where cs: "cs_heap (kcaps k) c = Some cs" "cs_id cs = i"
      using registered_cspace [OF cap_inv_ok(1) [OF k] c] by auto
    obtain sl where sl: "slot cs (arg32 0 tf) = Some sl"
      using run 2 cs by (auto simp: sys_cap_delete_def cspace_at_def run_simps)
    show ?thesis
    proof (cases "\<exists>s ob. sl = Some s \<and> tag s \<noteq> TagNull \<and> object s = Some ob")
      case True
      then obtain s ob where s: "sl = Some s" "tag s \<noteq> TagNull" "object s = Some ob" by blast
      then obtain st where "delete_node c (arg32 0 tf) \<lparr>cspace_id = i, index = arg32 0 tf\<rparr> (deriv_parent s) (kcaps k) = Some st"
          "drop_ref ob (k\<lparr>kcaps := st\<rparr>) = Some k'"
        using run 2 cs sl by (auto simp: sys_cap_delete_def cspace_at_def SlotId_new_def run_simps split: if_split_asm)
      from delete_step [OF k c cs(2,1) sl [unfolded s(1)] s(2,3) this] show ?thesis .
    next
      case False
      then have "k' = k" using run 2 cs sl
        by (cases sl; cases "object (the sl)")
          (auto simp: sys_cap_delete_def cspace_at_def fails_def Let_def split: if_split_asm)
      then show ?thesis using k freeing_refl by simp
    qed
  qed (use k freeing_refl in simp)
qed

lemma revoke_call:
  assumes k: "cap_inv k" and run: "sys_cap_revoke tf k = Some (Done r k')"
  shows "freeing_step k k'"
proof -
  consider "k' = k" | c where "caller_space k = Some (Inr c)"
    using run by (auto simp: sys_cap_revoke_def attempt_Some Let_def)
  then show ?thesis
  proof cases
    case 2
    obtain i where c: "registered (kcaps k) c i" using caller_space_registered [OF k 2] by blast
    obtain cs where cs: "cs_heap (kcaps k) c = Some cs" "cs_id cs = i"
      using registered_cspace [OF cap_inv_ok(1) [OF k] c] by auto
    obtain sl where sl: "slot cs (arg32 0 tf) = Some sl"
      using run 2 cs by (auto simp: sys_cap_revoke_def cspace_at_def run_simps)
    show ?thesis
    proof (cases "\<exists>s. sl = Some s \<and> tag s \<noteq> TagNull")
      case True
      then obtain s where s: "sl = Some s" "tag s \<noteq> TagNull" by blast
      then obtain ps st where "revoke_subtree \<lparr>cspace_id = i, index = arg32 0 tf\<rparr> (kcaps k) = Some (ps, st)"
          "release_objects ps (k\<lparr>kcaps := st\<rparr>) = Some k'"
        using run 2 cs sl by (auto simp: sys_cap_revoke_def cspace_at_def SlotId_new_def run_simps split: if_split_asm)
      from sys_revoke_step [OF k c cs(1) sl [unfolded s(1)] s(2) this] show ?thesis .
    next
      case False
      then have "k' = k" using run 2 cs sl
        by (cases sl) (auto simp: sys_cap_revoke_def cspace_at_def fails_def)
      then show ?thesis using k freeing_refl by simp
    qed
  qed (use k freeing_refl in simp)
qed

definition copying_calls :: "(trap_frame \<Rightarrow> kernel \<Rightarrow> outcome run) set" where
  "copying_calls = {sys_cap_copy, sys_cap_derive, sys_cap_derive_token, sys_cap_insert, sys_cap_move}"

definition freeing_calls :: "(trap_frame \<Rightarrow> kernel \<Rightarrow> outcome run) set" where
  "freeing_calls = {sys_cap_delete, sys_cap_revoke}"

lemma copying_safe: "cap_inv k \<Longrightarrow> h \<in> copying_calls \<Longrightarrow> h tf k = Some (Done r k') \<Longrightarrow> safe_step k k'"
  using copy_call derive_call derive_token_call insert_call move_call by (auto simp: copying_calls_def)

lemma calls_step:
  "cap_inv k \<Longrightarrow> h \<in> copying_calls \<union> freeing_calls \<Longrightarrow> h tf k = Some (Done r k') \<Longrightarrow> freeing_step k k'"
  using copying_safe safe_freeing delete_call revoke_call by (auto simp: freeing_calls_def)

section \<open>A CSpace that dies\<close>

lemma dealloc_space_unregisters:
  assumes acc: "accounts k {#}" and p: "names_space k p c" "refs k p = 0" and reg: "registered (kcaps k) c i"
    and run: "dealloc_object p k = Some k'"
  shows "accounts k' {#}" "lookup_cspace (kcaps k') i = None"
proof -
  obtain obs k1 k2 where r: "retire_cspace c k = Some (obs, k1)" "dealloc_go (Inr obs) k1 = Some k2"
      "k' = drop_object p (drop_cspace c k2)"
    using run p(1) by (auto simp: dealloc_object_def names_space_def dealloc_go.simps [of "Inl p"] run_simps
        split: option.splits)
  have keep: "dealloc_keeps (Inl p) k k'"
    using dealloc_go_keeps [of "Inl p"] run by (simp add: dealloc_object_def)
  have "c' = c" if "names_space k p c'" for c' using that p(1) by (auto simp: names_space_def)
  then show "accounts k' {#}" using keep acc p(2) reg unfolding dealloc_keeps_def sum.case by blast
  have "accounts k1 ({#} + mset obs)" "\<And>j. lookup_cspace (kcaps k1) j \<noteq> Some c"
    using retire_accounts [OF acc r(1) p reg] by auto
  then have "fewer k1 k2" using dealloc_go_keeps [OF r(2)] unfolding dealloc_keeps_def sum.case by blast
  moreover have "lookup_cspace (kcaps k1) i = None"
    using r(1) registered_cspace [OF _ reg] acc
    by (auto simp: accounts_def retire_cspace_def cspace_at_def lookup_unregister)
  ultimately have "lookup_cspace (kcaps k2) i = None" unfolding fewer_def by (metis not_Some_eq)
  then show "lookup_cspace (kcaps k') i = None" by (simp add: r(3) drop_object_def drop_cspace_def)
qed

lemma revoke_stale:
  assumes ok: "st_ok st" and s: "gcaps st root = Some s" "deriv_first_child s = Some x"
    and dead: "lookup_cspace st (cspace_id x) = None"
  shows "\<exists>st'. revoke_subtree root st = ret ([], st') \<and> gcaps st' = (gcaps st)(root \<mapsto> s\<lparr>deriv_first_child := None\<rparr>)"
proof -
  obtain st' where st': "modify_slot root (\<lambda>s. s\<lparr>deriv_first_child := None\<rparr>) st = ret st'" "same_spaces st st'"
      "gcaps st' = (gcaps st)(root \<mapsto> s\<lparr>deriv_first_child := None\<rparr>)"
    using modify_link [OF ok s(1), of "\<lambda>s. s\<lparr>deriv_first_child := None\<rparr>"] by auto
  have d: "lookup_cspace st' (cspace_id x) = None"
    using dead same_spaces_registered [OF st'(2)] unfolding registered_def by (metis not_None_eq)
  then have "push_siblings st' (Some x) [] = ret [x]"
    by (simp add: push_siblings.simps [of _ "Some x"] push_siblings.simps [of _ None] resolve_slot_mut_def)
  moreover have "revoke_loop [x] st' [] = ret ([], st')"
    using d by (simp add: revoke_loop.simps [of "[x]"] revoke_loop.simps [of "[]"])
  ultimately show ?thesis using st' resolve_cap [OF s(1)] s(2) by (simp add: revoke_subtree_def)
qed

section \<open>Example states\<close>

text \<open>Thread 3 runs with the CSpace at 10. Object 7 is a signal with \<open>n\<close> references; object 9 is the CSpace
  at 20, with no reference left.\<close>

definition cap_kernel :: "nat \<Rightarrow> cap_state \<Rightarrow> kernel" where
  "cap_kernel n st = demo_kernel\<lparr>kcaps := st, tcbs := [3 \<mapsto> blank_tcb\<lparr>tcb_cspace := Some 10\<rparr>],
     objects := [7 \<mapsto> \<lparr>ref_count = of_nat n, body = SignalObj None\<rparr>, 9 \<mapsto> \<lparr>ref_count = 0, body = CSpaceObj (Some 20)\<rparr>]\<rparr>"

lemma cap_kernel_inv:
  assumes "st_ok st" "same_spaces two_spaces st" "tree_rep (gcaps st) ch {}" "held (gcaps st) = replicate_mset n 7" "n < 2 ^ 32"
  shows "cap_inv (cap_kernel n st)"
proof -
  have "registered st 10 1" using two_spaces_ok(3) same_spaces_registered [OF assms(2)] by simp
  moreover have "max_slots cs = 100" if "cs_heap st p = Some cs" for p cs
  proof -
    have "map_option (\<lambda>cs. (cs_id cs, max_slots cs)) (cs_heap two_spaces p) = Some (cs_id cs, max_slots cs)"
      using assms(2) that unfolding same_spaces_def by (metis option.simps(9))
    then show ?thesis by (auto simp: two_spaces_def empty_state_def CSpace_new_def split: if_splits)
  qed
  moreover have "unat (of_nat n :: u32) = n" using assms(5) by (simp add: unat_of_nat)
  ultimately show ?thesis using assms(1,3,4)
    by (auto simp: cap_inv_def accounts_def spaces_ok_def balanced_def refs_def names_space_def cap_kernel_def
        L1_SIZE_def L2_SIZE_def split: if_splits)
qed

lemma cap_kernel_caps [simp]: "kcaps (cap_kernel n st) = st"
  by (simp add: cap_kernel_def)

lemma cap_kernel_caller: "caller_space (cap_kernel n st) = ret (Inr 10)"
  by (simp add: caller_space_def caller_tcb_def current_tcb_def caller_cspace_def cap_kernel_def demo_kernel_def
      blank_kernel_def MAX_CPUS_def)

lemma caller_space_fields: "caller_space (k\<lparr>kcaps := st, objects := obs\<rparr>) = caller_space k"
  by (simp add: caller_space_def caller_tcb_def current_tcb_def caller_cspace_def)

definition index_frame :: "nat \<Rightarrow> trap_frame" where
  "index_frame i = zero_frame\<lparr>rdi := of_nat i, rsi := - 1\<rparr>"

lemma index_frame_arg: "st_ok st \<Longrightarrow> gcaps st \<lparr>cspace_id = c, index = i\<rparr> = Some s \<Longrightarrow> arg32 0 (index_frame i) = i"
proof -
  assume "st_ok st" "gcaps st \<lparr>cspace_id = c, index = i\<rparr> = Some s"
  then have "i < 16384" using gcaps_range [of st] by (force simp: L1_SIZE_def L2_SIZE_def)
  then show ?thesis by (simp add: arg32_def arg_def index_frame_def unsigned_ucast_eq unat_of_nat take_bit_eq_mod)
qed

text \<open>Room is left while fewer than 100 slots are taken.\<close>

lemma demo_room:
  assumes ok: "st_ok st" and sp: "same_spaces two_spaces st" and p: "registered st p c"
    and few: "card {x \<in> dom (gcaps st). cspace_id x = c} < 100"
  shows "0 < ptr_room st p"
proof -
  obtain cs where cs: "cs_heap st p = Some cs" using registered_cspace [OF ok p] by auto
  have "map_option (\<lambda>cs. (cs_id cs, max_slots cs)) (cs_heap two_spaces p) = Some (cs_id cs, max_slots cs)"
    using sp cs unfolding same_spaces_def by (metis option.simps(9))
  then have m: "max_slots cs = 100" by (auto simp: two_spaces_def empty_state_def CSpace_new_def split: if_splits)
  have "(\<lambda>i. \<lparr>cspace_id = c, index = i\<rparr>) ` dom (caps cs) \<subseteq> {x \<in> dom (gcaps st). cspace_id x = c}"
    using registered_gcaps [OF ok p cs] by auto
  moreover have "finite {x \<in> dom (gcaps st). cspace_id x = c}" using gcaps_finite [OF ok] by simp
  ultimately have "card ((\<lambda>i. \<lparr>cspace_id = c, index = i\<rparr>) ` dom (caps cs)) < 100"
    using le_less_trans [OF card_mono few] by blast
  then have "card (dom (caps cs)) < 100" by (simp add: card_image inj_on_def)
  then show ?thesis using cs m by (simp add: ptr_room_def room_def capacity_def L1_SIZE_def L2_SIZE_def)
qed

text \<open>One capability to object 7.\<close>

lemma demo_one_cap:
  "\<exists>i st. ptr_insert_cap 10 TagSignal WAIT 7 two_spaces = ret (Inr i, st) \<and> st_ok st \<and> same_spaces two_spaces st \<and> 0 < i \<and>
    gcaps st = [\<lparr>cspace_id = 1, index = i\<rparr> \<mapsto> new_cap TagSignal WAIT 7] \<and> cap_inv (cap_kernel 1 st)"
proof -
  obtain i st where i: "ptr_insert_cap 10 TagSignal WAIT 7 two_spaces = ret (Inr i, st)" "st_ok st"
      "same_spaces two_spaces st" "0 < i" "gcaps st = [\<lparr>cspace_id = 1, index = i\<rparr> \<mapsto> new_cap TagSignal WAIT 7]"
    using ptr_insert_cap_ok [OF two_spaces_ok(1,3) _ two_spaces_ok(5), of TagSignal WAIT 7]
    by (auto simp: two_spaces_ok(2))
  have "tree_rep (gcaps st) (\<lambda>_. []) {}" unfolding i(5)
    by (rule tree_insert [OF tree_empty]) (simp_all add: unlinked_def new_cap_def)
  moreover have "held (gcaps st) = replicate_mset 1 7"
    unfolding i(5) by (simp add: held_def obj_refs_def obj_ref_def new_cap_def)
  ultimately show ?thesis using i cap_kernel_inv [of st "\<lambda>_. []" 1] by auto
qed

lemma demo_delete:
  assumes st: "st_ok st" "same_spaces two_spaces st" "0 < i"
    "gcaps st = [\<lparr>cspace_id = 1, index = i\<rparr> \<mapsto> new_cap TagSignal WAIT 7]"
  shows "\<exists>k'. sys_cap_delete (index_frame i) (cap_kernel 1 st) = ret (Done (Inr 0) k') \<and> objects k' 7 = None"
proof -
  let ?n = "\<lparr>cspace_id = 1, index = i\<rparr>" and ?s = "new_cap TagSignal WAIT 7"
  have r: "registered st 10 1" using two_spaces_ok(3) same_spaces_registered [OF st(2)] by simp
  obtain cs where cs: "cs_heap st 10 = Some cs" "cs_id cs = 1" using registered_cspace [OF st(1) r] by auto
  have g: "gcaps st ?n = Some ?s" using st(4) by simp
  have sl: "slot cs i = ret (Some ?s)"
    using ptr_slot_cap [OF st(1) r] g cs(1) by (simp add: ptr_slot_def cspace_at_def)
  have "tree_rep (gcaps st) (\<lambda>_. []) {}" unfolding st(4)
    by (rule tree_insert [OF tree_empty]) (simp_all add: unlinked_def new_cap_def)
  from delete_node_spec [OF st(1) this refl g r] obtain st' where
    st': "delete_node 10 i ?n (deriv_parent ?s) st = ret st'" by auto
  have "\<exists>k'. drop_ref 7 ((cap_kernel 1 st)\<lparr>kcaps := st'\<rparr>) = ret k' \<and> objects k' 7 = None"
    by (simp add: drop_ref_def dec_ref_def cap_kernel_def put_object_def dealloc_object_def dealloc_go.simps
        dealloc_body_def drop_object_def)
  then show ?thesis
    using sl st' cs index_frame_arg [OF st(1) g] st(3) cap_kernel_caller [of 1 st]
    by (auto simp: sys_cap_delete_def cspace_at_def new_cap_def SlotId_new_def cap_kernel_def)
qed

lemma demo_derive:
  assumes st: "st_ok st" "same_spaces two_spaces st" "0 < i"
    "gcaps st = [\<lparr>cspace_id = 1, index = i\<rparr> \<mapsto> new_cap TagSignal WAIT 7]"
  shows "\<exists>r k'. sys_cap_derive (index_frame i) (cap_kernel 1 st) = ret (Done (Inr r) k')"
proof -
  let ?n = "\<lparr>cspace_id = 1, index = i\<rparr>" and ?s = "new_cap TagSignal WAIT 7" and ?k = "cap_kernel 1 st"
  have r: "registered st 10 1" using two_spaces_ok(3) same_spaces_registered [OF st(2)] by simp
  have g: "gcaps st ?n = Some ?s" using st(4) by simp
  have "ptr_slot 10 i st = ret (Some ?s)" using ptr_slot_cap [OF st(1) r] g by simp
  then have src: "source_cap 10 i ?k = ret (Inr (?s, 7))" by (simp add: source_cap_def new_cap_def)
  have room: "0 < ptr_room st 10"
    by (rule demo_room [OF st(1,2) r]) (simp add: st(4) Collect_conv_if)
  have t: "tree_rep (gcaps st) (\<lambda>_. []) {}" unfolding st(4)
    by (rule tree_insert [OF tree_empty]) (simp_all add: unlinked_def new_cap_def)
  let ?r = "ucast (arg 1 (index_frame i)) AND rights ?s"
  obtain j st1 where j: "ptr_insert_cap 10 TagSignal ?r 7 st = ret (Inr j, st1)" "st_ok st1" "same_spaces st st1" "0 < j"
      "gcaps st \<lparr>cspace_id = 1, index = j\<rparr> = None"
      "gcaps st1 = (gcaps st)(\<lparr>cspace_id = 1, index = j\<rparr> \<mapsto> new_cap TagSignal ?r 7)"
    using ptr_insert_cap_ok [OF st(1) r _ room, of TagSignal ?r 7] by auto
  obtain st2 where "link_copy 10 i 10 j 0 st1 = ret st2"
    using link_copy_spec [OF j(2,3,6) _ refl j(5,4) t refl g st(3) r r, of 0] by auto
  then show ?thesis
    using src j(1) index_frame_arg [OF st(1) g] cap_kernel_caller [of 1 st]
    by (simp add: sys_cap_derive_def copy_cap_def inc_ref_def put_object_def cap_kernel_def new_cap_def)
qed

text \<open>A further copy below the capability \<open>root\<close>, in one of the two CSpaces.\<close>

lemma demo_copy:
  assumes st: "st_ok st" "same_spaces two_spaces st" "tree_rep (gcaps st) ch {}" "held (gcaps st) = replicate_mset n 7"
    and root: "gcaps st \<lparr>cspace_id = 1, index = i\<rparr> = Some s" "0 < i" "object s = Some 7"
    and p: "registered st p c" "card {x \<in> dom (gcaps st). cspace_id x = c} < 100"
  shows "\<exists>j st'. st_ok st' \<and> same_spaces two_spaces st' \<and> held (gcaps st') = replicate_mset (Suc n) 7 \<and>
    dom (gcaps st') = insert \<lparr>cspace_id = c, index = j\<rparr> (dom (gcaps st)) \<and> \<lparr>cspace_id = c, index = j\<rparr> \<notin> dom (gcaps st) \<and>
    map_option object (gcaps st' \<lparr>cspace_id = 1, index = i\<rparr>) = Some (Some 7) \<and>
    tree_rep (gcaps st') (ch(\<lparr>cspace_id = 1, index = i\<rparr> := \<lparr>cspace_id = c, index = j\<rparr> # ch \<lparr>cspace_id = 1, index = i\<rparr>)) {}"
proof -
  let ?n = "\<lparr>cspace_id = 1, index = i\<rparr>" and ?s = "new_cap TagSignal WAIT 7"
  have r: "registered st 10 1" using two_spaces_ok(3) same_spaces_registered [OF st(2)] by simp
  obtain j st1 where j: "st_ok st1" "same_spaces st st1" "0 < j" "gcaps st \<lparr>cspace_id = c, index = j\<rparr> = None"
      "gcaps st1 = (gcaps st)(\<lparr>cspace_id = c, index = j\<rparr> \<mapsto> ?s)"
    using ptr_insert_cap_ok [OF st(1) p(1) _ demo_room [OF st(1,2) p], of TagSignal WAIT 7] by auto
  let ?m = "\<lparr>cspace_id = c, index = j\<rparr>"
  obtain st2 where st2: "st_ok st2" "same_spaces st st2" "same_payload ((gcaps st)(?m \<mapsto> ?s\<lparr>token := 0\<rparr>)) (gcaps st2)"
      "tree_rep (gcaps st2) (ch(?n := ?m # ch ?n)) {}"
    using link_copy_spec [OF j(1,2,5) _ refl j(4,3) st(3) refl root(1,2) r p(1), of 0] by auto
  have "held (gcaps st2) = replicate_mset (Suc n) 7"
    using held_payload [OF st2(3)] held_insert [OF gcaps_finite [OF st(1)] j(4)] st(4)
    by (simp add: cap_object_def new_cap_def)
  moreover have "dom (gcaps st2) = insert ?m (dom (gcaps st))"
    using same_payload_live [OF st2(3)] by (auto simp: dom_def split: if_splits)
  moreover have "map_option payload (gcaps st2 ?n) = Some (payload s)"
    using st2(3) root(1) j(4) by (auto simp: same_payload_def)
  then have "map_option object (gcaps st2 ?n) = Some (Some 7)" using root(3) by (auto simp: payload_def)
  moreover have "same_spaces two_spaces st2" using st(2) st2(2) same_spaces_trans by blast
  ultimately show ?thesis using st2(1,4) j(4) by blast
qed

lemma demo_two_children:
  "\<exists>i j l st ch. st_ok st \<and> same_spaces two_spaces st \<and> held (gcaps st) = replicate_mset 3 7 \<and>
    {x \<in> dom (gcaps st). cspace_id x = 2} = {\<lparr>cspace_id = 2, index = l\<rparr>} \<and>
    tree_rep (gcaps st) ch {} \<and> ch \<lparr>cspace_id = 1, index = i\<rparr> = [\<lparr>cspace_id = 2, index = l\<rparr>, \<lparr>cspace_id = 1, index = j\<rparr>]"
proof -
  obtain i st where i: "st_ok st" "same_spaces two_spaces st" "0 < i"
      "gcaps st = [\<lparr>cspace_id = 1, index = i\<rparr> \<mapsto> new_cap TagSignal WAIT 7]"
    using demo_one_cap by blast
  let ?n = "\<lparr>cspace_id = 1, index = i\<rparr>"
  have reg: "registered st' 10 1" "registered st' 20 2" if "same_spaces two_spaces st'" for st'
    using two_spaces_ok(3,4) same_spaces_registered [OF that] by auto
  have t: "tree_rep (gcaps st) (\<lambda>_. []) {}" unfolding i(4)
    by (rule tree_insert [OF tree_empty]) (simp_all add: unlinked_def new_cap_def)
  have h: "held (gcaps st) = replicate_mset 1 7" unfolding i(4) by (simp add: held_def obj_refs_def obj_ref_def new_cap_def)
  obtain j st1 where j: "st_ok st1" "same_spaces two_spaces st1" "held (gcaps st1) = replicate_mset 2 7"
      "dom (gcaps st1) = {\<lparr>cspace_id = 1, index = j\<rparr>, ?n}" "map_option object (gcaps st1 ?n) = Some (Some 7)"
      "tree_rep (gcaps st1) ((\<lambda>_. [])(?n := [\<lparr>cspace_id = 1, index = j\<rparr>])) {}"
    using demo_copy [OF i(1,2) t h _ i(3) _ reg(1) [OF i(2)]] i(4)
    by (auto simp: new_cap_def Collect_conv_if numeral_2_eq_2)
  obtain s where s: "gcaps st1 ?n = Some s" "object s = Some 7" using j(5) by auto
  have none: "{x \<in> dom (gcaps st1). cspace_id x = 2} = {}" unfolding j(4) by auto
  have few: "card {x \<in> dom (gcaps st1). cspace_id x = 2} < 100" by (subst none) simp
  let ?ch = "(\<lambda>_. [])(?n := [\<lparr>cspace_id = 1, index = j\<rparr>])"
  obtain l st2 where l: "st_ok st2" "same_spaces two_spaces st2" "held (gcaps st2) = replicate_mset (Suc 2) 7"
      "dom (gcaps st2) = insert \<lparr>cspace_id = 2, index = l\<rparr> (dom (gcaps st1))"
      "tree_rep (gcaps st2) (?ch(?n := \<lparr>cspace_id = 2, index = l\<rparr> # ?ch ?n)) {}"
    using demo_copy [OF j(1,2,6,3) s(1) i(3) s(2) reg(2) [OF j(2)] few] by (elim exE conjE) (rule that)
  have "{x \<in> dom (gcaps st2). cspace_id x = 2} = {\<lparr>cspace_id = 2, index = l\<rparr>}" using l(4) none by auto
  moreover have "held (gcaps st2) = replicate_mset 3 7" using l(3) by (simp add: eval_nat_numeral)
  moreover have "(?ch(?n := \<lparr>cspace_id = 2, index = l\<rparr> # ?ch ?n)) ?n = [\<lparr>cspace_id = 2, index = l\<rparr>, \<lparr>cspace_id = 1, index = j\<rparr>]"
    by simp
  ultimately show ?thesis using l(1,2,5) by blast
qed

lemma demo_dealloc:
  assumes st: "st_ok st" "same_spaces two_spaces st" "held (gcaps st) = replicate_mset 3 7"
    and one: "{x \<in> dom (gcaps st). cspace_id x = 2} = {y}"
  shows "\<exists>k1. dealloc_object 9 (cap_kernel 3 st) = ret k1 \<and> caller_space k1 = ret (Inr 10) \<and> registered (kcaps k1) 10 1 \<and>
    gcaps (kcaps k1) = (\<lambda>x. if cspace_id x = 2 then None else gcaps st x)"
proof -
  have reg: "registered st 10 1" "registered st 20 2"
    using two_spaces_ok(3,4) same_spaces_registered [OF st(2)] by auto
  obtain cs where cs: "cs_heap st 20 = Some cs" "cs_id cs = 2" using registered_cspace [OF st(1) reg(2)] by auto
  have "mset (for_each_object cs) = obj_ref (gcaps st) y"
    using cspace_objects [OF st(1) reg(2) cs(1)] one by (simp add: obj_refs_def)
  moreover have "mset (for_each_object cs) \<subseteq># replicate_mset 3 7"
    using held_unregister [OF st(1) reg(2) cs(1)] st(3) by (metis mset_subset_eq_add_right)
  ultimately have "for_each_object cs = [] \<or> for_each_object cs = [7]"
    by (auto simp: obj_ref_def split: option.splits dest: mset_subset_eqD)
  let ?k = "(cap_kernel 3 st)\<lparr>kcaps := unregister_cspace 2 st\<rparr>"
  have "\<exists>obs. dealloc_go (Inr (for_each_object cs)) ?k = ret (?k\<lparr>objects := obs\<rparr>)"
  proof (cases "for_each_object cs = []")
    case True
    have "?k = ?k\<lparr>objects := objects ?k\<rparr>" by simp
    moreover have "dealloc_go (Inr (for_each_object cs)) ?k = ret ?k" using True by (simp add: dealloc_go.simps)
    ultimately show ?thesis by metis
  next
    case False
    then have "for_each_object cs = [7]" using \<open>for_each_object cs = [] \<or> for_each_object cs = [7]\<close> by simp
    then show ?thesis by (auto simp: dealloc_go.simps dec_ref_def cap_kernel_def put_object_def)
  qed
  then obtain obs where "dealloc_go (Inr (for_each_object cs)) ?k = ret (?k\<lparr>objects := obs\<rparr>)" by blast
  moreover have "retire_cspace 20 (cap_kernel 3 st) = ret (for_each_object cs, ?k)"
    using cs by (simp add: retire_cspace_def cspace_at_def)
  moreover have "objects (cap_kernel 3 st) 9 = Some \<lparr>ref_count = 0, body = CSpaceObj (Some 20)\<rparr>" by (simp add: cap_kernel_def)
  ultimately have run: "dealloc_object 9 (cap_kernel 3 st) = ret (drop_object 9 (drop_cspace 20 (?k\<lparr>objects := obs\<rparr>)))"
    by (simp add: dealloc_object_def dealloc_go.simps [of "Inl 9"])
  have "lookup_cspace st a \<noteq> Some 20" if "a \<noteq> 2" for a
    using that st(1) reg(2) reg_inj [of st a 20 2] by (auto simp: st_ok_def registered_def)
  then have "gcaps (kcaps (drop_cspace 20 (?k\<lparr>objects := obs\<rparr>))) = gcaps (unregister_cspace 2 st)"
    by (subst gcaps_drop_cspace) (simp_all add: lookup_unregister)
  then show ?thesis
    using run reg cap_kernel_caller [of 3 st]
    by (auto simp: drop_object_def gcaps_unregister MAX_CSPACES_def drop_cspace_def registered_def lookup_unregister
        caller_space_fields)
qed

section \<open>Properties\<close>

text \<open>(C34) Reference counts are exact. In a state where every reference count is the number of
  capabilities that name the object, a call that copies, derives, inserts or moves a capability keeps
  the whole invariant, and a call that deletes or revokes, with all the deallocations it triggers,
  leaves every count exact. So a capability never names a freed object.\<close>

theorem capability_calls_balanced:
  assumes "cap_inv k" "h \<in> copying_calls \<union> freeing_calls" "h tf k = ret (Done r k')"
  shows "(h \<in> copying_calls \<longrightarrow> cap_inv k') \<and>
    (\<forall>p. refs k' p = count (held (gcaps (kcaps k'))) p) \<and>
    (\<forall>x s p. gcaps (kcaps k') x = Some s \<longrightarrow> object s = Some p \<longrightarrow> objects k' p \<noteq> None)"
proof (intro conjI impI allI)
  have acc: "accounts k' {#}" using calls_step [OF assms] by (simp add: freeing_step_def)
  then show "refs k' p = count (held (gcaps (kcaps k'))) p" for p by (simp add: accounts_def balanced_def)
  show "cap_inv k'" if "h \<in> copying_calls" using copying_safe [OF assms(1) that assms(3)] by (simp add: safe_step_def)
  show "objects k' p \<noteq> None" if "gcaps (kcaps k') x = Some s" "object s = Some p" for x s p
    using refs_held [OF acc that] by (cases "objects k' p") (simp_all add: refs_def)
qed

theorem capability_calls_balanced_witness:
  "\<exists>i st k'. ptr_insert_cap 10 TagSignal WAIT 7 two_spaces = ret (Inr i, st) \<and>
     sys_cap_delete (index_frame i) (cap_kernel 1 st) = ret (Done (Inr 0) k') \<and> objects k' 7 = None \<and>
     (\<forall>p. refs k' p = count (held (gcaps (kcaps k'))) p)"
proof -
  obtain i st where i: "ptr_insert_cap 10 TagSignal WAIT 7 two_spaces = ret (Inr i, st)" "st_ok st"
      "same_spaces two_spaces st" "0 < i" "gcaps st = [\<lparr>cspace_id = 1, index = i\<rparr> \<mapsto> new_cap TagSignal WAIT 7]"
      "cap_inv (cap_kernel 1 st)"
    using demo_one_cap by blast
  obtain k' where k': "sys_cap_delete (index_frame i) (cap_kernel 1 st) = ret (Done (Inr 0) k')" "objects k' 7 = None"
    using demo_delete [OF i(2-5)] by blast
  have "sys_cap_delete \<in> copying_calls \<union> freeing_calls" by (simp add: freeing_calls_def)
  from capability_calls_balanced [OF i(6) this k'(1)] show ?thesis using i(1) k' by blast
qed

text \<open>(C35) No call creates authority. Every capability that exists after a call on capabilities is
  covered by one that existed before it: it names the same object, it has no right the older one
  lacks, and it carries the older one's token unless that had none.\<close>

theorem capability_calls_confined:
  assumes "cap_inv k" "h \<in> copying_calls \<union> freeing_calls" "h tf k = ret (Done r k')"
  shows "\<forall>x s'. gcaps (kcaps k') x = Some s' \<longrightarrow> (\<exists>y s. gcaps (kcaps k) y = Some s \<and> covers s s')"
  using calls_step [OF assms] by (simp add: freeing_step_def confined_def)

theorem capability_calls_confined_witness:
  "\<exists>i st r k'. ptr_insert_cap 10 TagSignal WAIT 7 two_spaces = ret (Inr i, st) \<and>
     sys_cap_derive (index_frame i) (cap_kernel 1 st) = ret (Done (Inr r) k') \<and>
     (\<forall>x s'. gcaps (kcaps k') x = Some s' \<longrightarrow> object s' = Some 7)"
proof -
  obtain i st where i: "ptr_insert_cap 10 TagSignal WAIT 7 two_spaces = ret (Inr i, st)" "st_ok st"
      "same_spaces two_spaces st" "0 < i" "gcaps st = [\<lparr>cspace_id = 1, index = i\<rparr> \<mapsto> new_cap TagSignal WAIT 7]"
      "cap_inv (cap_kernel 1 st)"
    using demo_one_cap by blast
  obtain r k' where k': "sys_cap_derive (index_frame i) (cap_kernel 1 st) = ret (Done (Inr r) k')"
    using demo_derive [OF i(2-5)] by blast
  have "sys_cap_derive \<in> copying_calls \<union> freeing_calls" by (simp add: copying_calls_def)
  from capability_calls_confined [OF i(6) this k'] have "\<forall>x s'. gcaps (kcaps k') x = Some s' \<longrightarrow> object s' = Some 7"
    using i(5) by (auto simp: cap_kernel_def covers_def new_cap_def split: if_splits)
  then show ?thesis using i(1) k' by blast
qed

text \<open>(C36) Revocation after the death of a CSpace. The CSpace object \<open>p\<close> has lost its last reference and
  is deallocated. If the most recently derived child of a capability was in that CSpace, then revoking
  the capability reports success and removes nothing: every other descendant stays live, and the
  capability no longer knows its children, so no later call can revoke them either.\<close>

theorem revoke_misses_after_cspace_death:
  assumes "accounts k {#}" "names_space k p c" "refs k p = 0" "registered (kcaps k) c i" "dealloc_object p k = ret k1"
    and "caller_space k1 = ret (Inr d)" "registered (kcaps k1) d j" "root = \<lparr>cspace_id = j, index = arg32 0 tf\<rparr>"
    and "gcaps (kcaps k1) root = Some s" "deriv_first_child s = Some x" "cspace_id x = i"
  shows "\<exists>k2. sys_cap_revoke tf k1 = ret (Done (Inr 0) k2) \<and>
    gcaps (kcaps k2) = (gcaps (kcaps k1))(root \<mapsto> s\<lparr>deriv_first_child := None\<rparr>)"
proof -
  note d = dealloc_space_unregisters [OF assms(1-5)]
  have ok: "st_ok (kcaps k1)" using d(1) by (simp add: accounts_def)
  obtain st where st: "revoke_subtree root (kcaps k1) = ret ([], st)"
      "gcaps st = (gcaps (kcaps k1))(root \<mapsto> s\<lparr>deriv_first_child := None\<rparr>)"
    using revoke_stale [OF ok assms(9,10)] d(2) assms(11) by auto
  obtain cs where cs: "cs_heap (kcaps k1) d = Some cs" "cs_id cs = j" using registered_cspace [OF ok assms(7)] by auto
  have sl: "slot cs (arg32 0 tf) = ret (Some s)" "\<not> is_null s"
    using ptr_slot_cap [OF ok assms(7)] assms(8,9) cs(1) by (auto simp: ptr_slot_def cspace_at_def)
  have "0 < arg32 0 tf" using gcaps_index [OF ok assms(9)] assms(8) by simp
  moreover have "release_objects [] (k1\<lparr>kcaps := st\<rparr>) = ret (k1\<lparr>kcaps := st\<rparr>)"
    by (simp add: release_objects_def dealloc_go.simps)
  ultimately have "sys_cap_revoke tf k1 = ret (Done (Inr 0) (k1\<lparr>kcaps := st\<rparr>))"
    using assms(6,8) cs sl st(1) by (simp add: sys_cap_revoke_def cspace_at_def is_null_def SlotId_new_def)
  then show ?thesis using st(2) by auto
qed

text \<open>A capability in CSpace 1 with two children, the later one in CSpace 2.\<close>

theorem revoke_misses_after_cspace_death_witness:
  "\<exists>st ch root y k1 k2 tf. tree_rep (gcaps st) ch {} \<and> y \<in> set (ch root) \<and> dealloc_object 9 (cap_kernel 3 st) = ret k1 \<and>
     sys_cap_revoke tf k1 = ret (Done (Inr 0) k2) \<and> gcaps (kcaps k2) y \<noteq> None"
proof -
  obtain i j l st ch where st: "st_ok st" "same_spaces two_spaces st" "held (gcaps st) = replicate_mset 3 7"
    "{x \<in> dom (gcaps st). cspace_id x = 2} = {\<lparr>cspace_id = 2, index = l\<rparr>}" and t: "tree_rep (gcaps st) ch {}"
    "ch \<lparr>cspace_id = 1, index = i\<rparr> = [\<lparr>cspace_id = 2, index = l\<rparr>, \<lparr>cspace_id = 1, index = j\<rparr>]"
    using demo_two_children by blast
  let ?n = "\<lparr>cspace_id = 1, index = i\<rparr>" and ?y = "\<lparr>cspace_id = 1, index = j\<rparr>"
  obtain k1 where k1: "dealloc_object 9 (cap_kernel 3 st) = ret k1" "caller_space k1 = ret (Inr 10)"
      "registered (kcaps k1) 10 1" "gcaps (kcaps k1) = (\<lambda>x. if cspace_id x = 2 then None else gcaps st x)"
    using demo_dealloc [OF st] by blast
  have y: "?y \<in> set (ch ?n)" using t(2) by simp
  from tree_live [OF t(1) y] obtain s where s: "gcaps st ?n = Some s" "gcaps st ?y \<noteq> None" by auto
  have fc: "deriv_first_child s = Some \<lparr>cspace_id = 2, index = l\<rparr>" using tree_first [OF t(1) s(1)] t(2) by simp
  have acc: "accounts (cap_kernel 3 st) {#}" using cap_kernel_inv [OF st(1,2) t(1) st(3)] by (simp add: cap_inv_def)
  have "names_space (cap_kernel 3 st) 9 20" "refs (cap_kernel 3 st) 9 = 0" "registered (kcaps (cap_kernel 3 st)) 20 2"
    using two_spaces_ok(4) same_spaces_registered [OF st(2)] by (simp_all add: names_space_def refs_def) (simp_all add: cap_kernel_def)
  from revoke_misses_after_cspace_death [OF acc this k1(1,2,3) refl, of "index_frame i" s] fc s(1)
  obtain k2 where "sys_cap_revoke (index_frame i) k1 = ret (Done (Inr 0) k2)"
      "gcaps (kcaps k2) = (gcaps (kcaps k1))(?n \<mapsto> s\<lparr>deriv_first_child := None\<rparr>)"
    by (auto simp: index_frame_arg [OF st(1) s(1)] k1(4))
  then show ?thesis using t(1) y k1(1,4) s(2) by (intro exI [of _ st] exI [of _ ch] exI [of _ ?n] exI [of _ ?y]) auto
qed

end
