(* ===== verification/Ipc_Calls.thy ===== *)
theory Ipc_Calls
  imports Syscall_Core Kernel_Frame
begin

text \<open>
  The system calls on IPC objects: \<open>kernel/src/syscall/ipc.rs\<close>. Messages travel through the page that a
  thread registered as its IPC buffer; capabilities named by a message are moved between the CSpaces
  of the two threads. A call that blocks ends with \<open>Yielded\<close>, and the part of the handler after
  \<open>schedule\<close> is a definition of its own, which runs when the thread is selected again.

  Debug assertions are panics, as everywhere in the development. An access to user memory that is not mapped is not modelled:
  every address of an address space holds a byte.
\<close>

unbundle bit_operations_syntax

section \<open>The IPC buffer\<close>

definition read_user :: "nat \<Rightarrow> nat \<Rightarrow> kernel \<Rightarrow> u64 list" where
  "read_user a n k = map (\<lambda>i. user_word k (a + 8 * i)) [0..<n]"

text \<open>The words read fill the front of the message's data array.\<close>

definition read_ipc_buf :: "nat \<Rightarrow> nat \<Rightarrow> u64 list \<Rightarrow> kernel \<Rightarrow> (syscall_error, u64 list) result run" where
  "read_ipc_buf buf n dst k =
     (if buf = 0 then ret (Inl InvalidArgument) else ret (Inr (read_user buf n k @ drop n dst)))"

definition write_ipc_buf :: "nat \<Rightarrow> nat \<Rightarrow> u64 list \<Rightarrow> kernel \<Rightarrow> kernel" where
  "write_ipc_buf buf n src k = (if buf = 0 \<or> n = 0 then k else write_user buf (take n src) k)"

definition write_cap_results :: "nat \<Rightarrow> nat \<Rightarrow> nat list \<Rightarrow> kernel \<Rightarrow> kernel" where
  "write_cap_results buf n indices k =
     (if buf = 0 \<or> n = 0 then k
      else write_user (buf + 8 * MSG_DATA_WORDS_MAX) (of_nat n # map of_nat (take n indices)) k)"

section \<open>Capability transfer\<close>

definition unpack_cap_slots :: "u64 \<Rightarrow> nat \<Rightarrow> nat list" where
  "unpack_cap_slots packed n =
     map (\<lambda>i. if i < n then unat (drop_bit (i * 16) packed AND 0xFFFF) else 0) [0..<MSG_CAP_SLOTS_MAX]"

fun check_slots :: "ptr \<Rightarrow> nat list \<Rightarrow> cap_state \<Rightarrow> (syscall_error, unit) result run" where
  "check_slots c [] st = ret (Inr ())"
| "check_slots c (i # is) st = do {
     s \<leftarrow> ptr_slot c i st;
     (case s of
        None \<Rightarrow> ret (Inl InvalidCapability)
      | Some s \<Rightarrow> if tag s = TagNull then ret (Inl InvalidCapability) else check_slots c is st)
   }"

text \<open>The batch of moves. A move that fails, as the second move of a slot that a message names twice does, hits
  the debug assertion.\<close>

fun move_slots :: "ptr \<Rightarrow> nat list \<Rightarrow> ptr \<Rightarrow> cap_state \<Rightarrow> (nat list \<times> cap_state) run" where
  "move_slots src [] dst st = ret ([], st)"
| "move_slots src (i # is) dst st = do {
     (res, st) \<leftarrow> move_cap_between_cspaces src i dst st;
     (case res of
        Inl _ \<Rightarrow> panic
      | Inr j \<Rightarrow> do { (js, st) \<leftarrow> move_slots src is dst st; ret (j # js, st) })
   }"

definition transfer_caps ::
  "ptr option \<Rightarrow> nat list \<Rightarrow> ptr option \<Rightarrow> cap_state \<Rightarrow> ((syscall_error, nat \<times> nat list) result \<times> cap_state) run" where
  "transfer_caps src slots dst st =
     (let n = min (length slots) MSG_CAP_SLOTS_MAX in
      if n = 0 then ret (Inr (0, replicate MSG_CAP_SLOTS_MAX 0), st)
      else do {
        src \<leftarrow> src;
        chk \<leftarrow> check_slots src (take n slots) st;
        (case chk of
           Inl e \<Rightarrow> ret (Inl e, st)
         | Inr _ \<Rightarrow> do {
             dst \<leftarrow> dst;
             cs \<leftarrow> cspace_at dst st;
             (r, cs) \<leftarrow> pre_allocate n cs;
             let st = put_cspace dst cs st;
             (case r of
                Inl _ \<Rightarrow> ret (Inl ErrOutOfMemory, st)
              | Inr _ \<Rightarrow> do {
                  (js, st) \<leftarrow> move_slots src (take n slots) dst st;
                  ret (Inr (n, js @ replicate (MSG_CAP_SLOTS_MAX - n) 0), st)
                })
           })
      })"

section \<open>Calls, receives, replies\<close>

text \<open>The data words and the capability slots of an outgoing message, read from the sender's buffer and
  checked in its CSpace.\<close>

definition fill_message :: "tcb \<Rightarrow> nat \<Rightarrow> nat \<Rightarrow> u64 \<Rightarrow> message \<Rightarrow> kernel \<Rightarrow> (syscall_error, message) result run" where
  "fill_message x n nc packed msg k =
     and_then (if n > 0 then read_ipc_buf (ipc_buffer x) n (msg_data msg) k else ret (Inr (msg_data msg))) (\<lambda>d.
       let msg = msg\<lparr>data_count := n, msg_data := d\<rparr> in
       if nc > 0 then do {
         c \<leftarrow> tcb_cspace x;
         let indices = unpack_cap_slots packed nc;
         and_then (check_slots c (take nc indices) (kcaps k)) (\<lambda>_.
           ret (Inr (msg\<lparr>cap_slots := indices, cap_count := nc\<rparr>)))
       } else ret (Inr msg))"

definition sys_ipc_call :: "trap_frame \<Rightarrow> kernel \<Rightarrow> outcome run" where
  "sys_ipc_call tf k =
     (let n = min (unat (arg 2 tf)) MSG_DATA_WORDS_MAX; nc = min (unat (arg 3 tf)) MSG_CAP_SLOTS_MAX in
      attempt (caller_tcb k) k (\<lambda>t. do {
        x \<leftarrow> tcbs k t;
        attempt (lookup_cap (tcb_cspace x) (arg32 0 tf) TagEndpoint (if nc > 0 then SEND OR GRANT else SEND) k) k (\<lambda>s.
        attempt (slot_object s) k (\<lambda>p. do {
          e \<leftarrow> as_endpoint p k;
          attempt (fill_message x n nc (arg 4 tf) ((Message_new (arg 1 tf))\<lparr>msg_token := token s\<rparr>) k) k (\<lambda>msg. do {
            (r, k) \<leftarrow> endpoint_call e t msg k;
            k \<leftarrow> (case r of Inl _ \<Rightarrow> ret k | Inr server \<Rightarrow> wake_thread server k);
            yields (ResumeCall t) False k
          })
        }))
      }))"

text \<open>The reply was put into the message of the caller, which now runs in its own address space.\<close>

definition resume_call :: "ptr \<Rightarrow> kernel \<Rightarrow> outcome run" where
  "resume_call t k = do {
     x \<leftarrow> tcbs k t;
     let msg = ipc_msg x;
     let k = (if data_count msg > 0 then write_ipc_buf (ipc_buffer x) (data_count msg) (msg_data msg) k else k);
     let k = write_cap_results (ipc_buffer x) (cap_count msg) (cap_slots msg) k;
     k \<leftarrow> upd_frame t (set_ipc_return 0 (label msg)) k;
     ret (Done (Inr 0) k)
   }"

text \<open>Delivering the data words and the registers of a message to the server.\<close>

definition deliver_data :: "ptr \<Rightarrow> tcb \<Rightarrow> message \<Rightarrow> kernel \<Rightarrow> outcome run" where
  "deliver_data t x msg k = do {
     let k = (if data_count msg > 0 then write_ipc_buf (ipc_buffer x) (data_count msg) (msg_data msg) k else k);
     k \<leftarrow> upd_frame t (set_ipc_return_with_token 0 (label msg) (msg_token msg)) k;
     ret (Done (Inr 0) k)
   }"

definition sent_slots :: "message \<Rightarrow> nat list run" where
  "sent_slots msg = (if cap_count msg > length (cap_slots msg) then panic else ret (take (cap_count msg) (cap_slots msg)))"

definition sys_ipc_recv :: "trap_frame \<Rightarrow> kernel \<Rightarrow> outcome run" where
  "sys_ipc_recv tf k =
     attempt (caller_tcb k) k (\<lambda>t. do {
       x \<leftarrow> tcbs k t;
       attempt (lookup_cap (tcb_cspace x) (arg32 0 tf) TagEndpoint RECEIVE k) k (\<lambda>s.
       attempt (slot_object s) k (\<lambda>p. do {
         e \<leftarrow> as_endpoint p k;
         (r, k) \<leftarrow> endpoint_recv e t k;
         (case r of
            Inl _ \<Rightarrow> yields (ResumeRecv t) False k
          | Inr (caller, msg) \<Rightarrow>
              if cap_count msg > 0 then do {
                y \<leftarrow> tcbs k caller;
                slots \<leftarrow> sent_slots msg;
                (res, st) \<leftarrow> transfer_caps (tcb_cspace y) slots (tcb_cspace x) (kcaps k);
                let k = k\<lparr>kcaps := st\<rparr>;
                (case res of
                   Inl err \<Rightarrow> fails err k
                 | Inr (n, js) \<Rightarrow> deliver_data t x msg (write_cap_results (ipc_buffer x) n js k))
              } else deliver_data t x msg k)
       }))
     })"

text \<open>A server that was waiting: when the transfer fails, the message is delivered without its
  capabilities.\<close>

definition resume_recv :: "ptr \<Rightarrow> kernel \<Rightarrow> outcome run" where
  "resume_recv t k = do {
     x \<leftarrow> tcbs k t;
     let msg = ipc_msg x;
     if cap_count msg > 0 then do {
       caller \<leftarrow> reply_tcb x;
       y \<leftarrow> tcbs k caller;
       slots \<leftarrow> sent_slots msg;
       (res, st) \<leftarrow> transfer_caps (tcb_cspace y) slots (tcb_cspace x) (kcaps k);
       let k = k\<lparr>kcaps := st\<rparr>;
       deliver_data t x msg (case res of Inl _ \<Rightarrow> k | Inr (n, js) \<Rightarrow> write_cap_results (ipc_buffer x) n js k)
     } else deliver_data t x msg k
   }"

definition sys_ipc_reply :: "trap_frame \<Rightarrow> kernel \<Rightarrow> outcome run" where
  "sys_ipc_reply tf k =
     (let n = min (unat (arg 1 tf)) MSG_DATA_WORDS_MAX; nc = min (unat (arg 2 tf)) MSG_CAP_SLOTS_MAX in
      attempt (caller_tcb k) k (\<lambda>t. do {
        x \<leftarrow> tcbs k t;
        attempt (fill_message x n nc (arg 3 tf) (Message_new (arg 0 tf)) k) k (\<lambda>msg. do {
          (r, k) \<leftarrow> endpoint_reply t msg k;
          (case r of
             None \<Rightarrow> fails InvalidCapability k
           | Some caller \<Rightarrow>
               if nc > 0 then do {
                 y \<leftarrow> tcbs k caller;
                 (res, st) \<leftarrow> transfer_caps (tcb_cspace x) (take nc (cap_slots msg)) (tcb_cspace y) (kcaps k);
                 let k = k\<lparr>kcaps := st\<rparr>;
                 (case res of
                    Inl err \<Rightarrow> fails err k
                  | Inr (m, js) \<Rightarrow> do {
                      k \<leftarrow> upd_tcb caller (\<lambda>y. y\<lparr>ipc_msg := (ipc_msg y)\<lparr>cap_slots := js, cap_count := m\<rparr>\<rparr>) k;
                      k \<leftarrow> wake_thread caller k;
                      ret (Done (Inr 0) k)
                    })
               } else do { k \<leftarrow> wake_thread caller k; ret (Done (Inr 0) k) })
        })
      }))"

section \<open>Signals and event queues\<close>

text \<open>The operand of these calls: an object of the expected kind, with the needed right.\<close>

definition with_object ::
  "nat \<Rightarrow> cap_tag \<Rightarrow> rights \<Rightarrow> (ptr \<Rightarrow> kernel \<Rightarrow> ptr run) \<Rightarrow> kernel \<Rightarrow> (ptr \<Rightarrow> ptr \<Rightarrow> outcome run) \<Rightarrow> outcome run" where
  "with_object idx t r cast k f =
     attempt (caller_tcb k) k (\<lambda>caller. do {
       x \<leftarrow> tcbs k caller;
       attempt (lookup_cap (tcb_cspace x) idx t r k) k (\<lambda>s.
       attempt (slot_object s) k (\<lambda>p. do { q \<leftarrow> cast p k; f caller q }))
     })"

definition sys_signal_send :: "trap_frame \<Rightarrow> kernel \<Rightarrow> outcome run" where
  "sys_signal_send tf k =
     (if arg 1 tf = 0 then fails InvalidArgument k
      else with_object (arg32 0 tf) TagSignal SIGNAL as_signal k (\<lambda>_ s. do {
        (woken, k) \<leftarrow> signal_send s (arg 1 tf) k;
        k \<leftarrow> (case woken of None \<Rightarrow> ret k | Some t \<Rightarrow> wake_thread t k);
        ret (Done (Inr 0) k)
      }))"

definition sys_signal_wait :: "trap_frame \<Rightarrow> kernel \<Rightarrow> outcome run" where
  "sys_signal_wait tf k =
     with_object (arg32 0 tf) TagSignal WAIT as_signal k (\<lambda>t s. do {
       (r, k) \<leftarrow> signal_wait s t k;
       (case r of Inr b \<Rightarrow> ret (Done (Inr b) k) | Inl _ \<Rightarrow> yields (ResumeSignalWait t) False k)
     })"

definition take_wakeup :: "ptr \<Rightarrow> kernel \<Rightarrow> (u64 \<times> kernel) run" where
  "take_wakeup t k = do {
     x \<leftarrow> tcbs k t;
     k \<leftarrow> upd_tcb t (\<lambda>x. x\<lparr>wakeup_value := 0\<rparr>) k;
     ret (wakeup_value x, k)
   }"

definition resume_signal_wait :: "ptr \<Rightarrow> kernel \<Rightarrow> outcome run" where
  "resume_signal_wait t k = do { (b, k) \<leftarrow> take_wakeup t k; ret (Done (Inr b) k) }"

text \<open>The null check of the state pointer is missing in both event queue calls.\<close>

definition event_queue_ptr :: "ptr \<Rightarrow> kernel \<Rightarrow> ptr run" where
  "event_queue_ptr p k = do { q \<leftarrow> as_event_queue p k; q }"

definition sys_event_post :: "trap_frame \<Rightarrow> kernel \<Rightarrow> outcome run" where
  "sys_event_post tf k =
     with_object (arg32 0 tf) TagEventQueue POST event_queue_ptr k (\<lambda>_ q. do {
       (r, k) \<leftarrow> event_queue_post q (arg 1 tf) k;
       (case r of
          Inl _ \<Rightarrow> fails QueueFull k
        | Inr None \<Rightarrow> ret (Done (Inr 0) k)
        | Inr (Some t) \<Rightarrow> do { k \<leftarrow> wake_thread t k; ret (Done (Inr 0) k) })
     })"

text \<open>The payload goes to the second return register.\<close>

definition return_second :: "ptr \<Rightarrow> u64 \<Rightarrow> kernel \<Rightarrow> outcome run" where
  "return_second t v k = do { k \<leftarrow> upd_frame t (set_ipc_return 0 v) k; ret (Done (Inr 0) k) }"

definition sys_event_recv :: "trap_frame \<Rightarrow> kernel \<Rightarrow> outcome run" where
  "sys_event_recv tf k =
     with_object (arg32 0 tf) TagEventQueue RECV event_queue_ptr k (\<lambda>t q. do {
       (r, k) \<leftarrow> event_queue_recv q t k;
       (case r of Inr v \<Rightarrow> return_second t v k | Inl _ \<Rightarrow> yields (ResumeEventRecv t) False k)
     })"

definition resume_second :: "ptr \<Rightarrow> kernel \<Rightarrow> outcome run" where
  "resume_second t k = do { (v, k) \<leftarrow> take_wakeup t k; return_second t v k }"

section \<open>Wait sets\<close>

text \<open>Sources of a wait set, and the right that adding one needs.\<close>

definition source_kind :: "cap_tag \<Rightarrow> (wait_set_source_tag \<times> rights) option" where
  "source_kind t = (case t of
     TagEndpoint \<Rightarrow> Some (SrcEndpoint, RECEIVE) | TagSignal \<Rightarrow> Some (SrcSignal, WAIT)
   | TagEventQueue \<Rightarrow> Some (SrcEventQueue, RECV) | _ \<Rightarrow> None)"

definition source_state :: "wait_set_source_tag \<Rightarrow> ptr \<Rightarrow> kernel \<Rightarrow> ptr option run" where
  "source_state stag p k = do {
     ob \<leftarrow> objects k p;
     (case (stag, body ob) of
        (SrcEndpoint, EndpointObj e) \<Rightarrow> ret e
      | (SrcSignal, SignalObj s) \<Rightarrow> ret s
      | (SrcEventQueue, EventQueueObj q) \<Rightarrow> ret q
      | _ \<Rightarrow> panic)
   }"

definition find_source :: "bool \<Rightarrow> ptr \<Rightarrow> nat \<Rightarrow> kernel \<Rightarrow> (syscall_error, ptr option \<times> wait_set_source_tag) result run" where
  "find_source check_rights c idx k = do {
     s \<leftarrow> ptr_slot c idx (kcaps k);
     (case s of
        None \<Rightarrow> ret (Inl InvalidCapability)
      | Some s \<Rightarrow>
          (case source_kind (tag s) of
             None \<Rightarrow> ret (Inl InvalidCapability)
           | Some (stag, r) \<Rightarrow>
               if check_rights \<and> \<not> contains (rights s) r then ret (Inl InsufficientRights)
               else and_then (slot_object s) (\<lambda>p. do { q \<leftarrow> source_state stag p k; ret (Inr (q, stag)) })))
   }"

definition source_wait_set :: "wait_set_source_tag \<Rightarrow> ptr \<Rightarrow> kernel \<Rightarrow> ptr option run" where
  "source_wait_set stag p k = (case stag of
     SrcEndpoint \<Rightarrow> map_option ep_wait_set (endpoints k p)
   | SrcSignal \<Rightarrow> map_option sig_wait_set (signals k p)
   | SrcEventQueue \<Rightarrow> map_option eq_wait_set (event_queues k p))"

definition attach_source :: "wait_set_source_tag \<Rightarrow> ptr \<Rightarrow> ptr \<Rightarrow> nat \<Rightarrow> kernel \<Rightarrow> kernel run" where
  "attach_source stag p ws i k = (case stag of
     SrcEndpoint \<Rightarrow> do { e \<leftarrow> endpoints k p; ret (put_endpoint p (e\<lparr>ep_wait_set := Some ws, ep_member_idx := i\<rparr>) k) }
   | SrcSignal \<Rightarrow> do {
       s \<leftarrow> signals k p;
       ret (put_signal p (s\<lparr>sig_wait_set := Some ws, sig_member_idx := i, has_observer := True\<rparr>) k)
     }
   | SrcEventQueue \<Rightarrow> do {
       q \<leftarrow> event_queues k p;
       ret (put_event_queue p (q\<lparr>eq_wait_set := Some ws, eq_member_idx := i\<rparr>) k)
     })"

definition detach_source :: "wait_set_source_tag \<Rightarrow> ptr \<Rightarrow> kernel \<Rightarrow> kernel run" where
  "detach_source stag p k = (case stag of
     SrcEndpoint \<Rightarrow> do { e \<leftarrow> endpoints k p; ret (put_endpoint p (e\<lparr>ep_wait_set := None, ep_member_idx := 0\<rparr>) k) }
   | SrcSignal \<Rightarrow> do { s \<leftarrow> signals k p; ret (put_signal p (s\<lparr>sig_wait_set := None, sig_member_idx := 0\<rparr>) k) }
   | SrcEventQueue \<Rightarrow> do {
       q \<leftarrow> event_queues k p;
       ret (put_event_queue p (q\<lparr>eq_wait_set := None, eq_member_idx := 0\<rparr>) k)
     })"

definition sys_wait_set_add :: "trap_frame \<Rightarrow> kernel \<Rightarrow> outcome run" where
  "sys_wait_set_add tf k =
     attempt (caller_tcb k) k (\<lambda>t. do {
       x \<leftarrow> tcbs k t;
       attempt (lookup_cap (tcb_cspace x) (arg32 0 tf) TagWaitSet MODIFY k) k (\<lambda>s.
       attempt (slot_object s) k (\<lambda>p. do {
         ws \<leftarrow> as_wait_set p k;
         c \<leftarrow> tcb_cspace x;
         attempt (find_source True c (arg32 1 tf) k) k (\<lambda>(src, stag). do {
           src \<leftarrow> src;
           old \<leftarrow> source_wait_set stag src k;
           if old \<noteq> None then fails InvalidArgument k
           else do {
             (r, k) \<leftarrow> waitset_add ws src stag (arg 2 tf) k;
             (case r of
                Inl _ \<Rightarrow> fails InvalidArgument k
              | Inr i \<Rightarrow> do { k \<leftarrow> attach_source stag src ws i k; ret (Done (Inr 0) k) })
           }
         })
       }))
     })"

definition sys_wait_set_remove :: "trap_frame \<Rightarrow> kernel \<Rightarrow> outcome run" where
  "sys_wait_set_remove tf k =
     attempt (caller_tcb k) k (\<lambda>t. do {
       x \<leftarrow> tcbs k t;
       attempt (lookup_cap (tcb_cspace x) (arg32 0 tf) TagWaitSet MODIFY k) k (\<lambda>s.
       attempt (slot_object s) k (\<lambda>p. do {
         ws \<leftarrow> as_wait_set p k;
         c \<leftarrow> tcb_cspace x;
         attempt (find_source False c (arg32 1 tf) k) k (\<lambda>(src, stag).
           (case src of
              None \<Rightarrow> fails InvalidCapability k
            | Some src \<Rightarrow> do {
                (r, k) \<leftarrow> waitset_remove ws src k;
                (case r of
                   Inl _ \<Rightarrow> fails InvalidCapability k
                 | Inr _ \<Rightarrow> do { k \<leftarrow> detach_source stag src k; ret (Done (Inr 0) k) })
              }))
       }))
     })"

definition sys_wait_set_wait :: "trap_frame \<Rightarrow> kernel \<Rightarrow> outcome run" where
  "sys_wait_set_wait tf k =
     with_object (arg32 0 tf) TagWaitSet WAIT as_wait_set k (\<lambda>t ws. do {
       (r, k) \<leftarrow> waitset_wait ws t k;
       (case r of Inr v \<Rightarrow> return_second t v k | Inl _ \<Rightarrow> yields (ResumeWaitSetWait t) False k)
     })"

end
