(* ===== verification/Mem_Calls.thy ===== *)
theory Mem_Calls
  imports Cap_Calls Paging
begin

text \<open>
  The system calls on memory: \<open>kernel/src/syscall/mem.rs\<close>, \<open>sys_mmio_map\<close> and \<open>sys_mmio_split\<close> of
  \<open>syscall/hw.rs\<close>, \<open>sys_aspace_query\<close> of \<open>syscall/sysinfo.rs\<close>, on top of the methods of \<open>AddressSpace\<close>.

  The invariant is that the page tables of all address spaces are separate and that no page of any
  address space is both writable and executable. A call changes the translations of the address
  space it names and of the requested range only.
\<close>

unbundle bit_operations_syntax

section \<open>Methods of an address space\<close>

text \<open>A null pointer is dereferenced by all of them.\<close>

definition root_of :: "ptr option \<Rightarrow> kernel \<Rightarrow> nat run" where
  "root_of a k = do { a \<leftarrow> a; s \<leftarrow> aspaces k a; ret (root_phys s) }"

definition map_page :: "ptr option \<Rightarrow> u64 \<Rightarrow> u64 \<Rightarrow> page_flags \<Rightarrow> kernel \<Rightarrow> ((unit, unit) result \<times> kernel) run" where
  "map_page a virt phys fl k = do {
     root \<leftarrow> root_of a k;
     (r, m, b) \<leftarrow> map_user_page root virt phys fl (ptables k) (frames k);
     ret (r, k\<lparr>ptables := m, frames := b\<rparr>)
   }"

definition unmap_page :: "ptr option \<Rightarrow> u64 \<Rightarrow> kernel \<Rightarrow> kernel run" where
  "unmap_page a virt k = do {
     root \<leftarrow> root_of a k;
     ret (k\<lparr>ptables := unmap_user_page root virt (ptables k)\<rparr>)
   }"

definition protect_page :: "ptr option \<Rightarrow> u64 \<Rightarrow> page_flags \<Rightarrow> kernel \<Rightarrow> ((paging_error, unit) result \<times> kernel) run" where
  "protect_page a virt fl k = do {
     root \<leftarrow> root_of a k;
     let (r, m) = protect_user_page root virt fl (ptables k);
     ret (r, k\<lparr>ptables := m\<rparr>)
   }"

definition query_page :: "ptr option \<Rightarrow> u64 \<Rightarrow> kernel \<Rightarrow> (u64 \<times> u64) option run" where
  "query_page a virt k = do { root \<leftarrow> root_of a k; ret (translate_user_page root virt (ptables k)) }"

section \<open>Operands\<close>

text \<open>The checks of a virtual range, shared by the calls on pages. The value is the size in bytes.\<close>

definition check_range :: "u64 \<Rightarrow> nat \<Rightarrow> (syscall_error, nat) result run" where
  "check_range virt n =
     (if virt AND 0xFFF \<noteq> 0 then ret (Inl InvalidAddress)
      else if virt \<ge> USER_HALF_TOP then ret (Inl InvalidAddress)
      else if n = 0 then ret (Inl InvalidArgument)
      else if n * PAGE_SIZE > U64_MAX then ret (Inl InvalidArgument)
      else if unat virt + n * PAGE_SIZE > U64_MAX then ret (Inl InvalidArgument)
      else if unat virt + n * PAGE_SIZE > unat USER_HALF_TOP then ret (Inl InvalidAddress)
      else ret (Inr (n * PAGE_SIZE)))"

definition as_frame :: "ptr \<Rightarrow> kernel \<Rightarrow> (nat \<times> nat) run" where
  "as_frame p k = do { ob \<leftarrow> objects k p; (case body ob of FrameObj b s \<Rightarrow> ret (b, s) | _ \<Rightarrow> panic) }"

definition as_mmio :: "ptr \<Rightarrow> kernel \<Rightarrow> (nat \<times> nat \<times> nat) run" where
  "as_mmio p k = do { ob \<leftarrow> objects k p; (case body ob of MmioRegionObj b s f \<Rightarrow> ret (b, s, f) | _ \<Rightarrow> panic) }"

definition aspace_operand :: "ptr option \<Rightarrow> nat \<Rightarrow> rights \<Rightarrow> kernel \<Rightarrow> (ptr option \<Rightarrow> outcome run) \<Rightarrow> outcome run" where
  "aspace_operand c idx r k f =
     attempt (lookup_cap c idx TagAddressSpace r k) k (\<lambda>s.
     attempt (slot_object s) k (\<lambda>p. do { a \<leftarrow> as_aspace p k; f a }))"

section \<open>Mapping\<close>

text \<open>The permissions of a mapping: the requested ones if any are requested, else all that the
  capability allows.\<close>

definition map_perms :: "u64 \<Rightarrow> rights \<Rightarrow> (syscall_error, bool \<times> bool) result run" where
  "map_perms prot r =
     (if prot \<noteq> 0 then
        let w = prot AND 2 \<noteq> 0; x = prot AND 4 \<noteq> 0 in
        if w \<and> \<not> contains r WRITE then ret (Inl InsufficientRights)
        else if x \<and> \<not> contains r EXECUTE then ret (Inl InsufficientRights)
        else ret (Inr (w, x))
      else ret (Inr (contains r WRITE, contains r EXECUTE)))"

fun map_pages :: "ptr option \<Rightarrow> page_flags \<Rightarrow> u64 \<Rightarrow> u64 \<Rightarrow> nat \<Rightarrow> kernel \<Rightarrow> outcome run" where
  "map_pages a fl virt phys 0 k = ret (Done (Inr 0) k)"
| "map_pages a fl virt phys (Suc n) k = do {
     (r, k) \<leftarrow> map_page a virt phys fl k;
     (case r of
        Inl _ \<Rightarrow> fails ErrOutOfMemory k
      | Inr _ \<Rightarrow> map_pages a fl (virt + of_nat PAGE_SIZE) (phys + of_nat PAGE_SIZE) n k)
   }"

definition sys_mem_map :: "trap_frame \<Rightarrow> kernel \<Rightarrow> outcome run" where
  "sys_mem_map tf k =
     (let virt_base = arg 2 tf; offset_pages = unat (arg 3 tf); page_count = unat (arg 4 tf) in
      attempt (check_range virt_base page_count) k (\<lambda>mapping_size.
      attempt (caller_space k) k (\<lambda>c.
      attempt (lookup_cap (Some c) (arg32 0 tf) TagFrame MAP k) k (\<lambda>s.
      attempt (slot_object s) k (\<lambda>p. do {
        (frame_phys, size) \<leftarrow> as_frame p k;
        if offset_pages * PAGE_SIZE > U64_MAX then fails InvalidArgument k
        else if offset_pages * PAGE_SIZE + mapping_size > U64_MAX then fails InvalidArgument k
        else if offset_pages * PAGE_SIZE + mapping_size > size then fails InvalidArgument k
        else attempt (map_perms (arg 5 tf) (rights s)) k (\<lambda>(w, x).
          if w \<and> x then fails ErrWxViolation k
          else aspace_operand (Some c) (arg32 1 tf) MAP k (\<lambda>a.
            map_pages a \<lparr>readable = True, writable = w, executable = x, uncacheable = False\<rparr>
              virt_base (of_nat (frame_phys + offset_pages * PAGE_SIZE)) page_count k))
      })))))"

definition sys_mmio_map :: "trap_frame \<Rightarrow> kernel \<Rightarrow> outcome run" where
  "sys_mmio_map tf k =
     (let virt_base = arg 2 tf in
      if virt_base AND 0xFFF \<noteq> 0 \<or> virt_base \<ge> USER_HALF_TOP then fails InvalidAddress k
      else attempt (caller_tcb k) k (\<lambda>t. do {
        y \<leftarrow> tcbs k t;
        attempt (lookup_cap (tcb_cspace y) (arg32 1 tf) TagMmioRegion MAP k) k (\<lambda>s.
        attempt (slot_object s) k (\<lambda>p. do {
          (mmio_phys, size, _) \<leftarrow> as_mmio p k;
          if size = 0 \<or> size mod PAGE_SIZE \<noteq> 0 then fails InvalidArgument k
          else if unat virt_base + size > U64_MAX then fails InvalidArgument k
          else if unat virt_base + size > unat USER_HALF_TOP then fails InvalidAddress k
          else aspace_operand (tcb_cspace y) (arg32 0 tf) MAP k (\<lambda>a.
            map_pages a \<lparr>readable = True, writable = contains (rights s) WRITE, executable = False, uncacheable = True\<rparr>
              virt_base (of_nat mmio_phys) (size div PAGE_SIZE) k)
        }))
      }))"

section \<open>Unmapping, protecting, querying\<close>

fun unmap_pages :: "ptr option \<Rightarrow> u64 \<Rightarrow> nat \<Rightarrow> kernel \<Rightarrow> outcome run" where
  "unmap_pages a virt 0 k = ret (Done (Inr 0) k)"
| "unmap_pages a virt (Suc n) k = do { k \<leftarrow> unmap_page a virt k; unmap_pages a (virt + of_nat PAGE_SIZE) n k }"

definition sys_mem_unmap :: "trap_frame \<Rightarrow> kernel \<Rightarrow> outcome run" where
  "sys_mem_unmap tf k =
     (let virt_base = arg 1 tf; page_count = unat (arg 2 tf) in
      attempt (check_range virt_base page_count) k (\<lambda>_.
      attempt (caller_space k) k (\<lambda>c.
        aspace_operand (Some c) (arg32 0 tf) MAP k (\<lambda>a. unmap_pages a virt_base page_count k))))"

fun protect_error :: "paging_error \<Rightarrow> syscall_error" where
  "protect_error NotMapped = InvalidAddress"
| "protect_error OutOfFrames = InvalidArgument"

fun protect_pages :: "ptr option \<Rightarrow> page_flags \<Rightarrow> u64 \<Rightarrow> nat \<Rightarrow> kernel \<Rightarrow> outcome run" where
  "protect_pages a fl virt 0 k = ret (Done (Inr 0) k)"
| "protect_pages a fl virt (Suc n) k = do {
     (r, k) \<leftarrow> protect_page a virt fl k;
     (case r of
        Inl e \<Rightarrow> fails (protect_error e) k
      | Inr _ \<Rightarrow> protect_pages a fl (virt + of_nat PAGE_SIZE) n k)
   }"

definition sys_mem_protect :: "trap_frame \<Rightarrow> kernel \<Rightarrow> outcome run" where
  "sys_mem_protect tf k =
     (let virt_base = arg 2 tf; page_count = unat (arg 3 tf); w = arg 4 tf AND 2 \<noteq> 0; x = arg 4 tf AND 4 \<noteq> 0 in
      attempt (check_range virt_base page_count) k (\<lambda>_.
      if w \<and> x then fails ErrWxViolation k
      else attempt (caller_space k) k (\<lambda>c.
      attempt (lookup_cap (Some c) (arg32 0 tf) TagFrame MAP k) k (\<lambda>s.
      attempt (slot_object s) k (\<lambda>_.
        if w \<and> \<not> contains (rights s) WRITE then fails InsufficientRights k
        else if x \<and> \<not> contains (rights s) EXECUTE then fails InsufficientRights k
        else aspace_operand (Some c) (arg32 1 tf) MAP k (\<lambda>a.
          protect_pages a \<lparr>readable = True, writable = w, executable = x, uncacheable = False\<rparr> virt_base page_count k))))))"

definition sys_aspace_query :: "trap_frame \<Rightarrow> kernel \<Rightarrow> outcome run" where
  "sys_aspace_query tf k =
     (let virt = arg 1 tf in
      if virt AND 0xFFF \<noteq> 0 then fails InvalidAddress k
      else if virt \<ge> USER_HALF_TOP then fails InvalidAddress k
      else attempt (caller_tcb k) k (\<lambda>t. do {
        y \<leftarrow> tcbs k t;
        aspace_operand (tcb_cspace y) (arg32 0 tf) READ k (\<lambda>a.
          if a = None then fails InvalidCapability k
          else do {
            q \<leftarrow> query_page a virt k;
            (case q of Some (phys, _) \<Rightarrow> ret (Done (Inr phys) k) | None \<Rightarrow> fails InvalidAddress k)
          })
      }))"

section \<open>Splitting\<close>

text \<open>The common part of \<open>sys_frame_split\<close> and \<open>sys_mmio_split\<close>: \<open>cast\<close> reads base and size of the region
  and gives the object that covers a part of it. The two parts take the place of the original in
  the derivation tree, and the original is deleted. When the second insertion fails the second
  object is leaked, when the first fails both are.\<close>

definition relink_parts :: "ptr \<Rightarrow> nat \<Rightarrow> slot_id \<Rightarrow> slot_id \<Rightarrow> slot_id \<Rightarrow> cap_state \<Rightarrow> cap_state run" where
  "relink_parts c idx orig part1 part2 st = do {
     s \<leftarrow> ptr_slot c idx st;
     let par = (case s of None \<Rightarrow> None | Some s \<Rightarrow> deriv_parent s);
     st \<leftarrow> reparent_children orig par st;
     st \<leftarrow> unlink_node orig st;
     st \<leftarrow> (case par of
        None \<Rightarrow> ret st
      | Some q \<Rightarrow> do { st \<leftarrow> link_child q part1 st; link_child q part2 st });
     ptr_free_slot c idx st
   }"

definition split_region ::
  "cap_tag \<Rightarrow> (ptr \<Rightarrow> kernel \<Rightarrow> (nat \<times> nat \<times> (nat \<Rightarrow> nat \<Rightarrow> kobject)) run) \<Rightarrow> trap_frame \<Rightarrow> kernel \<Rightarrow> outcome run" where
  "split_region t cast tf k =
     (let idx = arg32 0 tf; off = arg 1 tf in
      if off AND 0xFFF \<noteq> 0 then fails InvalidArgument k
      else if off = 0 then fails InvalidArgument k
      else attempt (caller_space k) k (\<lambda>c.
      attempt (lookup_cap (Some c) idx t MAP k) k (\<lambda>s.
      attempt (slot_object s) k (\<lambda>p. do {
        (base, size, mk) \<leftarrow> cast p k;
        cs \<leftarrow> cspace_at c (kcaps k);
        if unat off \<ge> size then fails InvalidArgument k
        else if size - unat off < PAGE_SIZE then fails InvalidArgument k
        else do {
          let (p1, k) = alloc_box k;
          let k = put_object p1 (KernelObject_new (mk base (unat off))) k;
          let (p2, k) = alloc_box k;
          let k = put_object p2 (KernelObject_new (mk (base + unat off) (size - unat off))) k;
          (r1, st) \<leftarrow> ptr_insert_cap c t (rights s) p1 (kcaps k);
          (case r1 of
             Inl _ \<Rightarrow> fails ErrOutOfMemory (k\<lparr>kcaps := st\<rparr>)
           | Inr slot1 \<Rightarrow> do {
               (r2, st) \<leftarrow> ptr_insert_cap c t (rights s) p2 st;
               (case r2 of
                  Inl _ \<Rightarrow> do {
                    st \<leftarrow> ptr_free_slot c slot1 st;
                    k \<leftarrow> dealloc_object p1 (k\<lparr>kcaps := st\<rparr>);
                    fails ErrOutOfMemory k
                  }
                | Inr slot2 \<Rightarrow> do {
                    orig \<leftarrow> SlotId_new (cs_id cs) idx;
                    part1 \<leftarrow> SlotId_new (cs_id cs) slot1;
                    part2 \<leftarrow> SlotId_new (cs_id cs) slot2;
                    st \<leftarrow> relink_parts c idx orig part1 part2 st;
                    k \<leftarrow> drop_ref p (k\<lparr>kcaps := st\<rparr>);
                    ret (Done (Inr (of_nat slot1 OR push_bit 32 (of_nat slot2))) k)
                  })
             })
        }
      }))))"

definition frame_region :: "ptr \<Rightarrow> kernel \<Rightarrow> (nat \<times> nat \<times> (nat \<Rightarrow> nat \<Rightarrow> kobject)) run" where
  "frame_region p k = do { (b, s) \<leftarrow> as_frame p k; ret (b, s, FrameObj) }"

definition mmio_region :: "ptr \<Rightarrow> kernel \<Rightarrow> (nat \<times> nat \<times> (nat \<Rightarrow> nat \<Rightarrow> kobject)) run" where
  "mmio_region p k = do { (b, s, f) \<leftarrow> as_mmio p k; ret (b, s, \<lambda>b s. MmioRegionObj b s f) }"

definition sys_frame_split :: "trap_frame \<Rightarrow> kernel \<Rightarrow> outcome run" where
  "sys_frame_split = split_region TagFrame frame_region"

definition sys_mmio_split :: "trap_frame \<Rightarrow> kernel \<Rightarrow> outcome run" where
  "sys_mmio_split = split_region TagMmioRegion mmio_region"

end
