(* ===== verification/Mem_Safety.thy ===== *)
theory Mem_Safety
  imports Mem_Calls Kernel_Frame
begin

text \<open>
  What the calls on pages guarantee. Page tables of different address spaces stay separate, a call
  changes only the range it was asked to change in the address space it was given a capability
  for, the pages it maps lie in the frame it was given and carry no right that the capability lacks,
  and no page is ever writable and executable. One result is negative: \<open>sys_mem_protect\<close> takes any
  frame capability as the authority for any page.
\<close>

unbundle bit_operations_syntax

section \<open>Ranges of pages\<close>

definition roots :: "kernel \<Rightarrow> nat set" where
  "roots k = {root_phys s | a s. aspaces k a = Some s}"

definition mem_ok :: "kernel \<Rightarrow> bool" where
  "mem_ok k \<longleftrightarrow> paging_ok (ptables k) (roots k) (frames k) \<and> frames_ok (frames k)"

definition page_no :: "u64 \<Rightarrow> nat" where
  "page_no va = unat va div PAGE_SIZE"

lemma page_of_no: "page_of va = page_of va' \<longleftrightarrow> page_no va = page_no va'"
proof -
  have "unat (page_of v) = page_no v" for v
    by (simp add: page_of_def page_no_def PAGE_SIZE_def drop_bit_eq_div unat_div)
  then show ?thesis by (metis word_unat_eq_iff)
qed

lemma root_of_roots: "root_of a k = Some r \<Longrightarrow> r \<in> roots k"
  by (auto simp: root_of_def roots_def run_simps)

lemma roots_fields [simp]: "roots (k\<lparr>ptables := m, frames := b\<rparr>) = roots k" "roots (k\<lparr>ptables := m\<rparr>) = roots k"
  by (simp_all add: roots_def)

lemma root_of_fields [simp]:
  "root_of a (k\<lparr>ptables := m, frames := b\<rparr>) = root_of a k" "root_of a (k\<lparr>ptables := m\<rparr>) = root_of a k"
  by (simp_all add: root_of_def)

text \<open>The range of \<open>n\<close> pages from \<open>virt\<close>; stepping to its next page.\<close>

definition in_user :: "u64 \<Rightarrow> nat \<Rightarrow> bool" where
  "in_user virt n \<longleftrightarrow> PAGE_SIZE dvd unat virt \<and> unat virt + n * PAGE_SIZE \<le> unat USER_HALF_TOP"

lemma unat_half: "unat USER_HALF_TOP = 2 ^ 47"
  by (simp add: USER_HALF_TOP_def)

lemma in_user_Suc:
  assumes "in_user virt (Suc n)"
  shows "virt < USER_HALF_TOP" "in_user (virt + of_nat PAGE_SIZE) n" "page_no (virt + of_nat PAGE_SIZE) = Suc (page_no virt)"
proof -
  have h: "unat virt + 4096 * n + 4096 \<le> 2 ^ 47" "4096 dvd unat virt"
    using assms unfolding in_user_def unat_half by (auto simp: PAGE_SIZE_def)
  then show "virt < USER_HALF_TOP" unfolding word_less_nat_alt unat_half by linarith
  have "unat (virt + 4096) = unat virt + 4096" using h(1) by (subst unat_add_lem [THEN iffD1]) auto
  then show "in_user (virt + of_nat PAGE_SIZE) n" "page_no (virt + of_nat PAGE_SIZE) = Suc (page_no virt)"
    using h unfolding in_user_def page_no_def unat_half by (auto simp: PAGE_SIZE_def)
qed

lemma aligned_page: "(virt :: u64) AND 0xFFF = 0 \<Longrightarrow> PAGE_SIZE dvd unat virt"
proof -
  assume h: "virt AND 0xFFF = 0"
  have "(0xFFF :: u64) = mask 12" by (simp add: mask_eq_exp_minus_1)
  then have "take_bit 12 virt = 0" using h by (simp add: take_bit_eq_mask)
  then have "unat (take_bit 12 virt) = 0" by simp
  then have "unat virt mod 4096 = 0" by (simp add: take_bit_eq_mod unat_mod)
  then show ?thesis by (simp add: PAGE_SIZE_def mod_eq_0_iff_dvd)
qed

lemma check_range_Inr: "check_range virt n = Some (Inr sz) \<Longrightarrow> in_user virt n \<and> 0 < n \<and> sz = n * PAGE_SIZE"
  using aligned_page [of virt] by (auto simp: check_range_def in_user_def split: if_splits)

text \<open>The physical address that a page of the range is mapped to.\<close>

definition range_pa :: "u64 \<Rightarrow> u64 \<Rightarrow> u64 \<Rightarrow> u64" where
  "range_pa phys virt va = phys + of_nat ((page_no va - page_no virt) * PAGE_SIZE)"

definition maps_range :: "nat set \<Rightarrow> nat \<Rightarrow> u64 \<Rightarrow> u64 \<Rightarrow> nat \<Rightarrow> page_flags \<Rightarrow> tables \<Rightarrow> tables \<Rightarrow> bool" where
  "maps_range R r virt phys n fl m m' \<longleftrightarrow>
     (\<forall>r' \<in> R. \<forall>va < USER_HALF_TOP. translate_user_page r' va m' =
        (if r' = r \<and> page_no virt \<le> page_no va \<and> page_no va < page_no virt + n then
           Some (range_pa phys virt va AND PHYS_MASK, new_page (range_pa phys virt va) fl OR USER)
         else translate_user_page r' va m))"

lemma map_pages_ok:
  assumes "mem_ok k" "root_of a k = Some r" "in_user virt n"
  shows "\<exists>res j m' b'. map_pages a fl virt phys n k = ret (Done res (k\<lparr>ptables := m', frames := b'\<rparr>)) \<and>
    mem_ok (k\<lparr>ptables := m', frames := b'\<rparr>) \<and> j \<le> n \<and>
    (res = Inr 0 \<and> j = n \<or> res = Inl ErrOutOfMemory) \<and>
    maps_range (roots k) r virt phys j fl (ptables k) m'"
  using assms
proof (induction n arbitrary: k virt phys)
  case 0
  then show ?case
    by (intro exI [of _ "Inr 0"] exI [of _ 0] exI [of _ "ptables k"] exI [of _ "frames k"]) (auto simp: maps_range_def)
next
  case (Suc n)
  note u = in_user_Suc [OF Suc.prems(3)]
  let ?R = "roots k"
  obtain r1 m1 b1 where 1: "map_user_page r virt phys fl (ptables k) (frames k) = ret (r1, m1, b1)"
    "paging_ok m1 ?R b1" "frames_ok b1"
    "\<forall>r' \<in> ?R. \<forall>va < USER_HALF_TOP. translate_user_page r' va m1 =
       (if r1 = Inr () \<and> r' = r \<and> page_of va = page_of virt
        then Some (phys AND PHYS_MASK, new_page phys fl OR USER) else translate_user_page r' va (ptables k))"
    "r1 = Inl () \<longrightarrow> card (free_frames (frames k)) < 3"
    using map_user_page_ok [OF _ _ root_of_roots [OF Suc.prems(2)] u(1), of "ptables k" "frames k" phys fl] Suc.prems(1)
    unfolding mem_ok_def by blast
  let ?k = "k\<lparr>ptables := m1, frames := b1\<rparr>"
  have ok: "mem_ok ?k" using 1(2,3) by (simp add: mem_ok_def)
  have mp: "map_page a virt phys fl k = ret (r1, ?k)" using Suc.prems(2) 1(1) by (simp add: map_page_def)
  show ?case
  proof (cases r1)
    case (Inl v)
    then have "maps_range ?R r virt phys 0 fl (ptables k) m1" using 1(4) by (auto simp: maps_range_def)
    then show ?thesis
      using mp ok 1(5) Inl
      by (intro exI [of _ "Inl ErrOutOfMemory"] exI [of _ 0] exI [of _ m1] exI [of _ b1]) (simp add: fails_def)
  next
    case (Inr v)
    let ?v = "virt + of_nat PAGE_SIZE" and ?p = "phys + of_nat PAGE_SIZE"
    have ro: "root_of a ?k = Some r" using Suc.prems(2) by simp
    obtain res j m' b' where 2: "map_pages a fl ?v ?p n ?k = ret (Done res (?k\<lparr>ptables := m', frames := b'\<rparr>))"
      "mem_ok (?k\<lparr>ptables := m', frames := b'\<rparr>)" "j \<le> n"
      "res = Inr 0 \<and> j = n \<or> res = Inl ErrOutOfMemory" "maps_range ?R r ?v ?p j fl m1 m'"
      using Suc.IH [OF ok ro u(2), of ?p] by auto
    have "maps_range ?R r virt phys (Suc j) fl (ptables k) m'"
      unfolding maps_range_def
    proof (intro ballI allI impI)
      fix r' va
      assume r': "r' \<in> ?R" "va < USER_HALF_TOP"
      have e: "range_pa ?p ?v va = range_pa phys virt va" if "page_no virt < page_no va"
      proof -
        have "page_no va - page_no virt = Suc (page_no va - Suc (page_no virt))" using that by simp
        then show ?thesis by (simp add: range_pa_def u(3) algebra_simps)
      qed
      have z: "range_pa phys virt va = phys" if "page_no va = page_no virt" using that by (simp add: range_pa_def)
      show "translate_user_page r' va m' =
        (if r' = r \<and> page_no virt \<le> page_no va \<and> page_no va < page_no virt + Suc j then
           Some (range_pa phys virt va AND PHYS_MASK, new_page (range_pa phys virt va) fl OR USER)
         else translate_user_page r' va (ptables k))"
        using bspec [OF 2(5) [unfolded maps_range_def] r'(1)] bspec [OF 1(4) r'(1)] r'(2) Inr e z u(3)
        by (cases "page_no va = page_no virt") (auto simp: page_of_no)
    qed
    then show ?thesis
      using mp Inr 2
      by (intro exI [of _ res] exI [of _ "Suc j"] exI [of _ m'] exI [of _ b']) auto
  qed
qed

section \<open>Isolation and W xor X\<close>

definition wx_safe :: "u64 \<Rightarrow> bool" where
  "wx_safe e \<longleftrightarrow> \<not> (bit e 1 \<and> \<not> bit e 63)"

definition wx_ok :: "kernel \<Rightarrow> bool" where
  "wx_ok k \<longleftrightarrow> (\<forall>r \<in> roots k. \<forall>va < USER_HALF_TOP. \<forall>a e. translate_user_page r va (ptables k) = Some (a, e) \<longrightarrow> wx_safe e)"

text \<open>Only the address space with root \<open>r\<close> changes, and only to safe entries.\<close>

definition only_in :: "nat set \<Rightarrow> nat \<Rightarrow> tables \<Rightarrow> tables \<Rightarrow> bool" where
  "only_in R r m m' \<longleftrightarrow>
     (\<forall>r' \<in> R. \<forall>va < USER_HALF_TOP. translate_user_page r' va m' = translate_user_page r' va m \<or>
        r' = r \<and> (\<forall>a e. translate_user_page r' va m' = Some (a, e) \<longrightarrow> wx_safe e))"

definition mem_step :: "kernel \<Rightarrow> nat \<Rightarrow> outcome \<Rightarrow> bool" where
  "mem_step k r out \<longleftrightarrow> (\<exists>res m' b'. out = Done res (k\<lparr>ptables := m', frames := b'\<rparr>) \<and>
     mem_ok (k\<lparr>ptables := m', frames := b'\<rparr>) \<and> only_in (roots k) r (ptables k) m')"

lemma only_in_refl: "only_in R r m m"
  by (simp add: only_in_def)

lemma only_in_trans: "only_in R r m m1 \<Longrightarrow> only_in R r m1 m2 \<Longrightarrow> only_in R r m m2"
  unfolding only_in_def by metis

lemma mem_step_trans:
  assumes "only_in (roots k) r (ptables k) m1" "mem_step (k\<lparr>ptables := m1\<rparr>) r out"
  shows "mem_step k r out"
  using assms only_in_trans [OF assms(1)] unfolding mem_step_def by fastforce

lemma wx_new_page: "\<not> (writable fl \<and> executable fl) \<Longrightarrow> wx_safe (new_page a fl OR USER)"
  unfolding wx_safe_def new_page_fields by blast

lemma map_pages_step:
  assumes "mem_ok k" "root_of a k = Some r" "in_user virt n" "\<not> (writable fl \<and> executable fl)"
    "map_pages a fl virt phys n k = Some out"
  shows "mem_step k r out"
proof -
  obtain res j m' b' where *: "out = Done res (k\<lparr>ptables := m', frames := b'\<rparr>)"
    "mem_ok (k\<lparr>ptables := m', frames := b'\<rparr>)" "maps_range (roots k) r virt phys j fl (ptables k) m'"
    using map_pages_ok [OF assms(1-3), of fl phys] assms(5) by auto
  have "only_in (roots k) r (ptables k) m'"
    using *(3) wx_new_page [OF assms(4)] by (auto simp: only_in_def maps_range_def)
  then show ?thesis unfolding mem_step_def using *(1,2) by blast
qed

lemma unmap_pages_step:
  assumes "mem_ok k" "root_of a k = Some r" "in_user virt n" "unmap_pages a virt n k = Some out"
  shows "mem_step k r out"
  using assms
proof (induction n arbitrary: k virt)
  case 0
  then have "out = Done (Inr 0) (k\<lparr>ptables := ptables k, frames := frames k\<rparr>)" by simp
  then show ?case using 0(1) only_in_refl unfolding mem_step_def by fastforce
next
  case (Suc n)
  note u = in_user_Suc [OF Suc.prems(3)] and r = root_of_roots [OF Suc.prems(2)]
  let ?m = "unmap_user_page r virt (ptables k)"
  let ?k = "k\<lparr>ptables := ?m\<rparr>"
  have pg: "paging_ok (ptables k) (roots k) (frames k)" using Suc.prems(1) by (simp add: mem_ok_def)
  have ok: "mem_ok ?k" using unmap_user_page_ok(1) [OF pg r u(1)] Suc.prems(1) by (simp add: mem_ok_def)
  have "only_in (roots k) r (ptables k) ?m"
    using unmap_user_page_ok(2) [OF pg r u(1)] by (auto simp: only_in_def)
  moreover have "mem_step ?k r out"
    using Suc.prems(2,4) by (intro Suc.IH [OF ok _ u(2)]) (simp_all add: unmap_page_def)
  ultimately show ?case by (rule mem_step_trans)
qed

lemma protect_pages_step:
  assumes "mem_ok k" "root_of a k = Some r" "in_user virt n" "\<not> (writable fl \<and> executable fl)"
    "protect_pages a fl virt n k = Some out"
  shows "mem_step k r out"
  using assms
proof (induction n arbitrary: k virt)
  case 0
  then have "out = Done (Inr 0) (k\<lparr>ptables := ptables k, frames := frames k\<rparr>)" by simp
  then show ?case using 0(1) only_in_refl unfolding mem_step_def by fastforce
next
  case (Suc n)
  note u = in_user_Suc [OF Suc.prems(3)] and r = root_of_roots [OF Suc.prems(2)]
  obtain q m where q: "protect_user_page r virt fl (ptables k) = (q, m)" by fastforce
  let ?k = "k\<lparr>ptables := m\<rparr>"
  have pg: "paging_ok (ptables k) (roots k) (frames k)" using Suc.prems(1) by (simp add: mem_ok_def)
  note pr = protect_user_page_ok [OF pg r u(1) q]
  have ok: "mem_ok ?k" using pr(1) Suc.prems(1) by (simp add: mem_ok_def)
  have only: "only_in (roots k) r (ptables k) m"
    using pr(2) wx_new_page [OF Suc.prems(4)] by (auto simp: only_in_def split: if_splits)
  show ?case
  proof (cases q)
    case (Inl e)
    then have "out = Done (Inl (protect_error e)) (k\<lparr>ptables := m, frames := frames k\<rparr>)"
      using Suc.prems(2,5) q by (auto simp: protect_page_def fails_def)
    then show ?thesis using ok only unfolding mem_step_def by fastforce
  next
    case (Inr v)
    have "mem_step ?k r out"
      using Suc.prems(2,4,5) q Inr by (intro Suc.IH [OF ok _ u(2)]) (simp_all add: protect_page_def)
    then show ?thesis by (rule mem_step_trans [OF only])
  qed
qed

section \<open>The calls\<close>

text \<open>The address spaces the running thread may change: it has a capability with \<open>MAP\<close> to them.\<close>

definition may_map :: "kernel \<Rightarrow> nat \<Rightarrow> bool" where
  "may_map k r \<longleftrightarrow> (\<exists>t x idx s p a. current (scheds k (this_cpu k)) = Some t \<and> tcbs k t = Some x \<and>
     lookup_cap (tcb_cspace x) idx TagAddressSpace MAP k = ret (Inr s) \<and> object s = Some p \<and>
     as_aspace p k = ret a \<and> root_of a k = ret r)"

definition refused :: "kernel \<Rightarrow> outcome \<Rightarrow> bool" where
  "refused k out \<longleftrightarrow> (\<exists>e. out = Done (Inl e) k)"

definition allowed_step :: "kernel \<Rightarrow> outcome \<Rightarrow> bool" where
  "allowed_step k out \<longleftrightarrow> refused k out \<or> (\<exists>r. may_map k r \<and> mem_step k r out)"

lemma caller_thread:
  "caller_tcb k = Some (Inr t) \<Longrightarrow> current (scheds k (this_cpu k)) = Some t"
  by (auto simp: caller_tcb_def current_tcb_def run_simps split: option.splits if_splits)

lemma caller_space_thread:
  assumes "caller_space k = Some (Inr c)"
  obtains t x where "current (scheds k (this_cpu k)) = Some t" "tcbs k t = Some x" "tcb_cspace x = Some c"
  using assms caller_thread
  by (auto simp: caller_space_def and_then_Inr caller_cspace_def run_simps split: option.splits)

text \<open>An operand that is an address space: the call fails, or goes on with a space it may change.\<close>

lemma aspace_operand_cases:
  assumes "aspace_operand (tcb_cspace x) idx r k f = Some out"
  shows "refused k out \<or> (\<exists>s p a. lookup_cap (tcb_cspace x) idx TagAddressSpace r k = ret (Inr s) \<and>
    object s = Some p \<and> as_aspace p k = ret a \<and> f a = ret out)"
  using assms
  by (auto simp: aspace_operand_def attempt_Some refused_def slot_object_def run_simps split: option.splits)

lemma aspace_operand_allowed:
  assumes t: "current (scheds k (this_cpu k)) = Some t" "tcbs k t = Some x"
    and op: "aspace_operand (tcb_cspace x) idx MAP k f = Some out"
    and loop: "\<And>a. f a = Some out \<Longrightarrow> \<exists>r. root_of a k = Some r \<and> mem_step k r out"
  shows "allowed_step k out"
  using aspace_operand_cases [OF op] loop t unfolding allowed_step_def may_map_def by blast

lemma loops_root:
  "map_pages a fl v ph n k = Some out \<Longrightarrow> 0 < n \<Longrightarrow> \<exists>r. root_of a k = Some r"
  "unmap_pages a v n k = Some out \<Longrightarrow> 0 < n \<Longrightarrow> \<exists>r. root_of a k = Some r"
  "protect_pages a fl v n k = Some out \<Longrightarrow> 0 < n \<Longrightarrow> \<exists>r. root_of a k = Some r"
  by (cases n; auto simp: map_page_def unmap_page_def protect_page_def run_simps)+

text \<open>A call that changes something has passed all its checks.\<close>

lemma attempt_go:
  assumes "attempt q k f = Some out" "\<not> refused k out"
  obtains a where "q = Some (Inr a)" "f a = Some out"
  using assms by (auto simp: attempt_Some refused_def)

lemma fails_go: "\<not> refused k out \<Longrightarrow> fails e k \<noteq> Some out"
  by (auto simp: fails_def refused_def)

lemma guard_go:
  assumes "(if b then fails e k else q) = Some out" "\<not> refused k out"
  obtains "\<not> b" "q = Some out"
  using assms by (auto simp: fails_go split: if_splits)

lemma slot_object_go: "slot_object s = Some (Inr p) \<Longrightarrow> object s = Some p"
  by (auto simp: slot_object_def split: option.splits)

lemma mem_map_cases:
  assumes call: "sys_mem_map tf k = Some out" and go: "\<not> refused k out"
  obtains sz c s p base size w x where "check_range (arg 2 tf) (unat (arg 4 tf)) = ret (Inr sz)"
    "caller_space k = ret (Inr c)" "lookup_cap (Some c) (arg32 0 tf) TagFrame MAP k = ret (Inr s)" "object s = Some p"
    "as_frame p k = ret (base, size)" "unat (arg 3 tf) * PAGE_SIZE + sz \<le> size"
    "map_perms (arg 5 tf) (rights s) = ret (Inr (w, x))" "\<not> (w \<and> x)"
    "aspace_operand (Some c) (arg32 1 tf) MAP k (\<lambda>a.
      map_pages a \<lparr>readable = True, writable = w, executable = x, uncacheable = False\<rparr>
        (arg 2 tf) (of_nat (base + unat (arg 3 tf) * PAGE_SIZE)) (unat (arg 4 tf)) k) = ret out"
  using call go unfolding sys_mem_map_def Let_def
  apply -
  apply (erule (1) attempt_go)+
  apply (clarsimp simp: Option.bind_eq_Some_conv fails_go split: if_split_asm)
  apply (erule (1) attempt_go)
  apply (clarsimp simp: fails_go split: if_split_asm)
  apply (drule slot_object_go, drule leI, drule leI)
  apply blast
  done

lemma mmio_map_cases:
  assumes call: "sys_mmio_map tf k = Some out" and go: "\<not> refused k out"
  obtains t x s p base size fl0 where "arg 2 tf AND 0xFFF = 0" "arg 2 tf < USER_HALF_TOP" "caller_tcb k = ret (Inr t)"
    "tcbs k t = Some x" "lookup_cap (tcb_cspace x) (arg32 1 tf) TagMmioRegion MAP k = ret (Inr s)" "object s = Some p"
    "as_mmio p k = ret (base, size, fl0)" "size \<noteq> 0" "size mod PAGE_SIZE = 0" "unat (arg 2 tf) + size \<le> unat USER_HALF_TOP"
    "aspace_operand (tcb_cspace x) (arg32 0 tf) MAP k (\<lambda>a.
      map_pages a \<lparr>readable = True, writable = contains (rights s) WRITE, executable = False, uncacheable = True\<rparr>
        (arg 2 tf) (of_nat base) (size div PAGE_SIZE) k) = ret out"
  using call go unfolding sys_mmio_map_def Let_def
  apply -
  apply (clarsimp simp: fails_go split: if_split_asm)
  apply (erule (1) attempt_go)
  apply (clarsimp simp: Option.bind_eq_Some_conv)
  apply (erule (1) attempt_go)+
  apply (clarsimp simp: Option.bind_eq_Some_conv fails_go split: if_split_asm)
  apply (drule slot_object_go)
  apply (fastforce simp: not_le not_less)
  done

lemma mem_unmap_cases:
  assumes call: "sys_mem_unmap tf k = Some out" and go: "\<not> refused k out"
  obtains sz c where "check_range (arg 1 tf) (unat (arg 2 tf)) = ret (Inr sz)" "caller_space k = ret (Inr c)"
    "aspace_operand (Some c) (arg32 0 tf) MAP k (\<lambda>a. unmap_pages a (arg 1 tf) (unat (arg 2 tf)) k) = ret out"
  using call go unfolding sys_mem_unmap_def Let_def
  apply -
  apply (erule (1) attempt_go)+
  apply blast
  done

lemma mem_protect_cases:
  assumes call: "sys_mem_protect tf k = Some out" and go: "\<not> refused k out"
  obtains sz c w x where "check_range (arg 2 tf) (unat (arg 3 tf)) = ret (Inr sz)" "caller_space k = ret (Inr c)"
    "\<not> (w \<and> x)" "aspace_operand (Some c) (arg32 1 tf) MAP k (\<lambda>a.
      protect_pages a \<lparr>readable = True, writable = w, executable = x, uncacheable = False\<rparr>
        (arg 2 tf) (unat (arg 3 tf)) k) = ret out"
proof -
  let ?w = "arg 4 tf AND 2 \<noteq> 0" and ?x = "arg 4 tf AND 4 \<noteq> 0"
  show thesis
    using call go unfolding sys_mem_protect_def Let_def
    apply -
    apply (erule (1) attempt_go guard_go)+
    apply (rule that [of _ _ ?w ?x]; simp)
    done
qed

lemma mem_map_allowed:
  assumes ok: "mem_ok k" and go: "\<not> refused k out" and call: "sys_mem_map tf k = Some out"
  shows "allowed_step k out"
  using call
proof (rule mem_map_cases [OF _ go])
  fix sz c s p base size w x
  assume *: "check_range (arg 2 tf) (unat (arg 4 tf)) = ret (Inr sz)" "caller_space k = ret (Inr c)" "\<not> (w \<and> x)"
    "aspace_operand (Some c) (arg32 1 tf) MAP k (\<lambda>a.
      map_pages a \<lparr>readable = True, writable = w, executable = x, uncacheable = False\<rparr>
        (arg 2 tf) (of_nat (base + unat (arg 3 tf) * PAGE_SIZE)) (unat (arg 4 tf)) k) = ret out"
  obtain t y where t: "current (scheds k (this_cpu k)) = Some t" "tcbs k t = Some y" "tcb_cspace y = Some c"
    using caller_space_thread [OF *(2)] .
  show ?thesis
  proof (rule aspace_operand_allowed [OF t(1,2) *(4) [folded t(3)]])
    fix a
    assume m: "map_pages a \<lparr>readable = True, writable = w, executable = x, uncacheable = False\<rparr>
        (arg 2 tf) (of_nat (base + unat (arg 3 tf) * PAGE_SIZE)) (unat (arg 4 tf)) k = Some out"
    then show "\<exists>r. root_of a k = Some r \<and> mem_step k r out"
      using loops_root(1) [OF m] map_pages_step [OF ok _ _ _ m] check_range_Inr [OF *(1)] *(3) by auto
  qed
qed

lemma mmio_map_allowed:
  assumes ok: "mem_ok k" and go: "\<not> refused k out" and call: "sys_mmio_map tf k = Some out"
  shows "allowed_step k out"
  using call
proof (rule mmio_map_cases [OF _ go])
  fix t y s p base size fl0
  assume *: "arg 2 tf AND 0xFFF = 0" "caller_tcb k = ret (Inr t)" "tcbs k t = Some y" "size \<noteq> 0" "size mod PAGE_SIZE = 0"
    "unat (arg 2 tf) + size \<le> unat USER_HALF_TOP"
    "aspace_operand (tcb_cspace y) (arg32 0 tf) MAP k (\<lambda>a.
      map_pages a \<lparr>readable = True, writable = contains (rights s) WRITE, executable = False, uncacheable = True\<rparr>
        (arg 2 tf) (of_nat base) (size div PAGE_SIZE) k) = ret out"
  have u: "in_user (arg 2 tf) (size div PAGE_SIZE)" "0 < size div PAGE_SIZE"
    using *(4,5,6) aligned_page [OF *(1)] by (auto simp: in_user_def PAGE_SIZE_def)
  show ?thesis
  proof (rule aspace_operand_allowed [OF caller_thread [OF *(2)] *(3,7)])
    fix a
    assume m: "map_pages a \<lparr>readable = True, writable = contains (rights s) WRITE, executable = False, uncacheable = True\<rparr>
        (arg 2 tf) (of_nat base) (size div PAGE_SIZE) k = Some out"
    then show "\<exists>r. root_of a k = Some r \<and> mem_step k r out"
      using loops_root(1) [OF m u(2)] map_pages_step [OF ok _ u(1) _ m] by auto
  qed
qed

lemma mem_unmap_allowed:
  assumes ok: "mem_ok k" and go: "\<not> refused k out" and call: "sys_mem_unmap tf k = Some out"
  shows "allowed_step k out"
  using call
proof (rule mem_unmap_cases [OF _ go])
  fix sz c
  assume *: "check_range (arg 1 tf) (unat (arg 2 tf)) = ret (Inr sz)" "caller_space k = ret (Inr c)"
    "aspace_operand (Some c) (arg32 0 tf) MAP k (\<lambda>a. unmap_pages a (arg 1 tf) (unat (arg 2 tf)) k) = ret out"
  obtain t y where t: "current (scheds k (this_cpu k)) = Some t" "tcbs k t = Some y" "tcb_cspace y = Some c"
    using caller_space_thread [OF *(2)] .
  show ?thesis
  proof (rule aspace_operand_allowed [OF t(1,2) *(3) [folded t(3)]])
    fix a
    assume m: "unmap_pages a (arg 1 tf) (unat (arg 2 tf)) k = Some out"
    then show "\<exists>r. root_of a k = Some r \<and> mem_step k r out"
      using loops_root(2) [OF m] unmap_pages_step [OF ok _ _ m] check_range_Inr [OF *(1)] by auto
  qed
qed

lemma mem_protect_allowed:
  assumes ok: "mem_ok k" and go: "\<not> refused k out" and call: "sys_mem_protect tf k = Some out"
  shows "allowed_step k out"
  using call
proof (rule mem_protect_cases [OF _ go])
  fix sz c w x
  assume *: "check_range (arg 2 tf) (unat (arg 3 tf)) = ret (Inr sz)" "caller_space k = ret (Inr c)" "\<not> (w \<and> x)"
    "aspace_operand (Some c) (arg32 1 tf) MAP k (\<lambda>a.
      protect_pages a \<lparr>readable = True, writable = w, executable = x, uncacheable = False\<rparr>
        (arg 2 tf) (unat (arg 3 tf)) k) = ret out"
  obtain t y where t: "current (scheds k (this_cpu k)) = Some t" "tcbs k t = Some y" "tcb_cspace y = Some c"
    using caller_space_thread [OF *(2)] .
  show ?thesis
  proof (rule aspace_operand_allowed [OF t(1,2) *(4) [folded t(3)]])
    fix a
    assume m: "protect_pages a \<lparr>readable = True, writable = w, executable = x, uncacheable = False\<rparr>
        (arg 2 tf) (unat (arg 3 tf)) k = Some out"
    then show "\<exists>r. root_of a k = Some r \<and> mem_step k r out"
      using loops_root(3) [OF m] protect_pages_step [OF ok _ _ _ m] check_range_Inr [OF *(1)] *(3) by auto
  qed
qed

lemma mem_calls_allowed:
  assumes ok: "mem_ok k" and f: "f \<in> {sys_mem_map, sys_mmio_map, sys_mem_unmap, sys_mem_protect}" and call: "f tf k = Some out"
  shows "allowed_step k out"
proof (cases "refused k out")
  case True
  then show ?thesis by (simp add: allowed_step_def)
next
  case False
  with f call show ?thesis
    using mem_map_allowed [OF ok] mmio_map_allowed [OF ok] mem_unmap_allowed [OF ok] mem_protect_allowed [OF ok] by auto
qed

lemma mem_step_keeps:
  assumes "mem_step k r out" "wx_ok k"
  obtains res k' where "out = Done res k'" "mem_ok k'" "wx_ok k'" "core k' = core k"
    "\<And>r' va. r' \<in> roots k \<Longrightarrow> r' \<noteq> r \<Longrightarrow> va < USER_HALF_TOP \<Longrightarrow> translate_user_page r' va (ptables k') = translate_user_page r' va (ptables k)"
proof -
  obtain res m' b' where o: "out = Done res (k\<lparr>ptables := m', frames := b'\<rparr>)" "mem_ok (k\<lparr>ptables := m', frames := b'\<rparr>)"
    "only_in (roots k) r (ptables k) m'" using assms(1) unfolding mem_step_def by blast
  have "wx_ok (k\<lparr>ptables := m', frames := b'\<rparr>)"
    using o(3) assms(2) unfolding wx_ok_def only_in_def by (auto, metis)
  then show thesis using o that [of res "k\<lparr>ptables := m', frames := b'\<rparr>"] by (auto simp: only_in_def core_def)
qed

lemma map_perms_rights:
  "map_perms prot r = Some (Inr (w, x)) \<Longrightarrow> (w \<longrightarrow> contains r WRITE) \<and> (x \<longrightarrow> contains r EXECUTE)"
  by (auto simp: map_perms_def Let_def split: if_splits)

section \<open>Example state\<close>

text \<open>Thread 3 has two frame capabilities, in slot 1 with and in slot 3 without \<open>WRITE\<close>, and in slot 2 a
  capability to the address space 700. There is a second address space.\<close>

definition mem_slot :: "cap_tag \<Rightarrow> rights \<Rightarrow> ptr \<Rightarrow> capability_slot" where
  "mem_slot t r ob = null_slot\<lparr>tag := t, rights := r, object := Some ob\<rparr>"

lemma mem_slot_fields [simp]: "object (mem_slot t r ob) = Some ob" "rights (mem_slot t r ob) = r" "tag (mem_slot t r ob) = t"
  by (simp_all add: mem_slot_def)

definition mem_cspace :: cspace where
  "mem_cspace = (CSpace_new 1 63)\<lparr>directory := (replicate L1_SIZE None)[0 := Some ((replicate L2_SIZE null_slot)
     [1 := mem_slot TagFrame (MAP OR WRITE) 600, 2 := mem_slot TagAddressSpace MAP 601, 3 := mem_slot TagFrame MAP 602])]\<rparr>"

definition mem_kernel :: "tables \<Rightarrow> buddy \<Rightarrow> kernel" where
  "mem_kernel m b = demo_kernel\<lparr>kcaps := (kcaps demo_kernel)\<lparr>cs_heap := [500 \<mapsto> mem_cspace]\<rparr>,
     tcbs := [3 \<mapsto> blank_tcb\<lparr>tcb_cspace := Some 500\<rparr>],
     objects := [600 \<mapsto> KernelObject_new (FrameObj 0x200000 0x2000), 601 \<mapsto> KernelObject_new (AddressSpaceObj (Some 700)),
       602 \<mapsto> KernelObject_new (FrameObj 0x400000 0x1000)],
     aspaces := [700 \<mapsto> \<lparr>root_phys = 0x300000, active_cpus = 0\<rparr>, 701 \<mapsto> \<lparr>root_phys = 0x301000, active_cpus = 0\<rparr>],
     frames := b, ptables := m\<rparr>"

lemma mem_kernel_slots:
  "slot mem_cspace 1 = ret (Some (mem_slot TagFrame (MAP OR WRITE) 600))"
  "slot mem_cspace 2 = ret (Some (mem_slot TagAddressSpace MAP 601))"
  "slot mem_cspace 3 = ret (Some (mem_slot TagFrame MAP 602))"
  by (simp_all add: slot_def mem_cspace_def L1_SIZE_def L2_SIZE_def)

lemma mem_kernel_fields [simp]:
  "ptables (mem_kernel m b) = m" "frames (mem_kernel m b) = b"
  "scheds (mem_kernel m b) (this_cpu (mem_kernel m b)) = scheds demo_kernel 0"
  "(mem_kernel m b)\<lparr>ptables := m', frames := b'\<rparr> = mem_kernel m' b'"
  by (simp_all add: mem_kernel_def demo_kernel_def blank_kernel_def)

lemma mem_kernel_roots [simp]: "roots (mem_kernel m b) = {0x300000, 0x301000}"
proof -
  have "aspaces (mem_kernel m b) 701 = Some \<lparr>root_phys = 0x301000, active_cpus = 0\<rparr>"
    "aspaces (mem_kernel m b) 700 = Some \<lparr>root_phys = 0x300000, active_cpus = 0\<rparr>"
    by (simp_all add: mem_kernel_def)
  moreover have "aspaces (mem_kernel m b) a = Some sp \<Longrightarrow> a = 700 \<or> a = 701" for a sp
    by (auto simp: mem_kernel_def split: if_splits)
  ultimately show ?thesis unfolding roots_def by force
qed

lemma mem_kernel_caller: "caller_space (mem_kernel m b) = ret (Inr 500)"
  by (simp add: caller_space_def caller_tcb_def current_tcb_def caller_cspace_def mem_kernel_def demo_kernel_def
      blank_kernel_def MAX_CPUS_def)

lemma mem_kernel_lookup:
  "lookup_cap (Some 500) (Suc 0) TagFrame MAP (mem_kernel m b) = ret (Inr (mem_slot TagFrame (MAP OR WRITE) 600))"
  "lookup_cap (Some 500) 2 TagAddressSpace MAP (mem_kernel m b) = ret (Inr (mem_slot TagAddressSpace MAP 601))"
  using mem_kernel_slots
  by (simp_all add: lookup_cap_def mem_kernel_def cspace_at_def mem_slot_def contains_def MAP_def WRITE_def)

lemma mem_kernel_objects:
  "as_frame 600 (mem_kernel m b) = ret (0x200000, 0x2000)" "as_aspace 601 (mem_kernel m b) = ret (Some 700)"
  "root_of (Some 700) (mem_kernel m b) = ret 0x300000"
  by (simp_all add: as_frame_def as_aspace_def root_of_def mem_kernel_def KernelObject_new_def)

lemma mem_kernel_may_map: "\<not> may_map (mem_kernel m b) 0x301000"
  by (auto simp: may_map_def as_aspace_def root_of_def mem_kernel_def KernelObject_new_def run_simps
      split: if_splits)

definition empty_tables :: tables where
  "empty_tables = (\<lambda>_ _. 0)"

lemma empty_translate: "translate_user_page r va empty_tables = None"
  by (simp add: translate_user_page_def leaf_table_def next_table_def empty_tables_def)

lemma mem_kernel_ok: "mem_ok (mem_kernel empty_tables demo_buddy)" "wx_ok (mem_kernel empty_tables demo_buddy)"
proof -
  have r: "reach empty_tables f is = (if is = [] then Some f else None)" for f "is"
    by (cases "is") (auto simp: empty_tables_def next_table_def)
  have "frames_ok demo_buddy"
    using demo_buddy_ok demand_room [of "free_blocks demo_buddy"] by (auto simp: frames_ok_def MAX_ORDER_def POOL_SIZE_def)
  then show "mem_ok (mem_kernel empty_tables demo_buddy)"
    using demo_buddy_ok(2) by (auto simp: mem_ok_def paging_ok_def separate_def allocated_def r PAGE_SIZE_def split: if_splits)
  show "wx_ok (mem_kernel empty_tables demo_buddy)" by (simp add: wx_ok_def empty_translate)
qed

definition mem_frame :: "u64 list \<Rightarrow> trap_frame" where
  "mem_frame xs = zero_frame\<lparr>rdi := xs ! 0, rsi := xs ! 1, rdx := xs ! 2, r10 := xs ! 3, r8 := xs ! 4, r9 := xs ! 5\<rparr>"

text \<open>A page of address space 700 mapped to any frame: three frames for tables are free.\<close>

lemma mem_kernel_map_page:
  "\<exists>m b. map_page (Some 700) 0x10000 pa fl (mem_kernel empty_tables demo_buddy) = ret (Inr (), mem_kernel m b) \<and>
     mem_ok (mem_kernel m b) \<and> translate_user_page 0x300000 0x10000 m = Some (pa AND PHYS_MASK, new_page pa fl OR USER)"
proof -
  let ?R = "{0x300000, 0x301000} :: nat set"
  have ok: "paging_ok empty_tables ?R demo_buddy" "frames_ok demo_buddy" using mem_kernel_ok(1) by (simp_all add: mem_ok_def)
  have va: "(0x10000 :: u64) < USER_HALF_TOP" by (simp add: USER_HALF_TOP_def)
  have ur: "res \<noteq> Inl () \<Longrightarrow> res = Inr ()" for res :: "(unit, unit) result" by (cases res) auto
  have "card (free_frames demo_buddy) = 4" using demo_buddy_ok(2) by simp
  with map_user_page_ok [OF ok insertI1 va, of pa fl] obtain m b where
    m: "map_user_page 0x300000 0x10000 pa fl empty_tables demo_buddy = ret (Inr (), m, b)" "paging_ok m ?R b" "frames_ok b"
      "\<forall>r' \<in> ?R. \<forall>va' < USER_HALF_TOP. translate_user_page r' va' m =
         (if r' = 0x300000 \<and> page_of va' = page_of 0x10000 then Some (pa AND PHYS_MASK, new_page pa fl OR USER)
          else translate_user_page r' va' empty_tables)"
    by (elim exE conjE) (rule that, auto dest!: ur)
  have "translate_user_page 0x300000 0x10000 m = Some (pa AND PHYS_MASK, new_page pa fl OR USER)" using m(4) va by simp
  then show ?thesis
    using m(1-3) mem_kernel_objects(3) by (intro exI [of _ m] exI [of _ b]) (simp add: map_page_def mem_ok_def)
qed

text \<open>Mapping the second page of the writable frame.\<close>

lemma mem_map_call:
  "sys_mem_map (mem_frame [1, 2, 0x10000, 1, 1, 2]) (mem_kernel m b) =
     map_pages (Some 700) \<lparr>readable = True, writable = True, executable = False, uncacheable = False\<rparr>
       0x10000 0x201000 1 (mem_kernel m b)"
proof -
  have "check_range 0x10000 1 = ret (Inr 0x1000)"
    by (simp add: check_range_def USER_HALF_TOP_def PAGE_SIZE_def U64_MAX_def)
  moreover have "map_perms 2 (MAP OR WRITE) = ret (Inr (True, False))"
    by (simp add: map_perms_def contains_def MAP_def WRITE_def)
  ultimately show ?thesis
    using mem_kernel_caller mem_kernel_lookup mem_kernel_objects
    by (simp add: sys_mem_map_def aspace_operand_def mem_frame_def arg_def arg32_def slot_object_def PAGE_SIZE_def U64_MAX_def)
qed

lemma mem_map_demo:
  "\<exists>k'. sys_mem_map (mem_frame [1, 2, 0x10000, 1, 1, 2]) (mem_kernel empty_tables demo_buddy) = ret (Done (Inr 0) k')"
  using mem_kernel_map_page [of "0x201000" "\<lparr>readable = True, writable = True, executable = False, uncacheable = False\<rparr>"]
  unfolding mem_map_call by auto

section \<open>Properties\<close>

text \<open>(C37) Isolation. Mapping memory or device registers, unmapping and protecting keep the tables of
  different address spaces separate and outside the free memory, never make a page both writable and executable,
  change no capability and no kernel object, and leave every translation as it was in an address space
  for which the caller has no capability with \<open>MAP\<close>.\<close>

theorem mem_calls_isolated:
  assumes "mem_ok k" "wx_ok k" "f \<in> {sys_mem_map, sys_mmio_map, sys_mem_unmap, sys_mem_protect}" "f tf k = ret out"
  shows "\<exists>res k'. out = Done res k' \<and> mem_ok k' \<and> wx_ok k' \<and> core k' = core k \<and>
    (\<forall>r \<in> roots k. \<not> may_map k r \<longrightarrow>
       (\<forall>va < USER_HALF_TOP. translate_user_page r va (ptables k') = translate_user_page r va (ptables k)))"
  using mem_calls_allowed [OF assms(1,3,4)] unfolding allowed_step_def
proof (elim disjE exE conjE)
  fix r
  assume r: "may_map k r" "mem_step k r out"
  show ?thesis by (rule mem_step_keeps [OF r(2) assms(2)]) (use r(1) in blast)
qed (use assms in \<open>auto simp: refused_def\<close>)

theorem mem_calls_isolated_witness:
  "mem_ok (mem_kernel empty_tables demo_buddy) \<and> wx_ok (mem_kernel empty_tables demo_buddy) \<and>
   (\<exists>k'. sys_mem_map (mem_frame [1, 2, 0x10000, 1, 1, 2]) (mem_kernel empty_tables demo_buddy) = ret (Done (Inr 0) k') \<and>
      mem_ok k' \<and> wx_ok k' \<and> (\<forall>va < USER_HALF_TOP. translate_user_page 0x301000 va (ptables k') = None))"
proof -
  obtain k' where c: "sys_mem_map (mem_frame [1, 2, 0x10000, 1, 1, 2]) (mem_kernel empty_tables demo_buddy) = ret (Done (Inr 0) k')"
    using mem_map_demo by blast
  have "sys_mem_map \<in> {sys_mem_map, sys_mmio_map, sys_mem_unmap, sys_mem_protect}" by simp
  from mem_calls_isolated [OF mem_kernel_ok this c] show ?thesis
    using c mem_kernel_ok mem_kernel_may_map by (auto simp: empty_translate)
qed



text \<open>(C39) What protecting needs. Any frame capability with \<open>MAP\<close> and \<open>WRITE\<close> makes any mapped page of an address space
  writable that the caller has a capability with \<open>MAP\<close> for, whatever frame the page was mapped from: the frame
  capability that \<open>sys_mem_protect\<close> takes as the authority for the new permissions is not compared with
  the physical address \<open>pa\<close> of the page.\<close>

theorem mem_protect_any_frame:
  assumes "mem_ok k" "caller_space k = ret (Inr c)"
    and "lookup_cap (Some c) (arg32 0 tf) TagFrame MAP k = ret (Inr s)" "object s = Some p" "contains (rights s) WRITE"
    and "lookup_cap (Some c) (arg32 1 tf) TagAddressSpace MAP k = ret (Inr s')" "object s' = Some p'" "as_aspace p' k = ret a"
    and "root_of a k = ret r" "check_range (arg 2 tf) 1 = ret (Inr sz)" "arg 3 tf = 1" "arg 4 tf = 2"
    and "translate_user_page r (arg 2 tf) (ptables k) = Some (pa, e)"
  shows "\<exists>k' e'. sys_mem_protect tf k = ret (Done (Inr 0) k') \<and>
    translate_user_page r (arg 2 tf) (ptables k') = Some (pa, e') \<and> bit e' 1"
proof -
  let ?fl = "\<lparr>readable = True, writable = True, executable = False, uncacheable = False\<rparr>"
  have u: "in_user (arg 2 tf) (Suc 0)" using check_range_Inr [OF assms(10)] by simp
  note v = in_user_Suc(1) [OF u]
  obtain q m where q: "protect_user_page r (arg 2 tf) ?fl (ptables k) = (q, m)" by fastforce
  have pg: "paging_ok (ptables k) (roots k) (frames k)" using assms(1) by (simp add: mem_ok_def)
  note pr = protect_user_page_ok [OF pg root_of_roots [OF assms(9)] v q]
  have "q = Inr ()" using pr(3) assms(13) by simp
  moreover from this have "translate_user_page r (arg 2 tf) m = Some (pa, new_page pa ?fl OR USER)"
    using pr(2) [OF root_of_roots [OF assms(9)] v] assms(13) by simp
  moreover have "bit (new_page pa ?fl OR USER) 1" by (simp only: new_page_fields) simp
  moreover have "sys_mem_protect tf k = protect_pages a ?fl (arg 2 tf) 1 k"
    using assms by (simp add: sys_mem_protect_def Let_def aspace_operand_def slot_object_def)
  ultimately show ?thesis
    using assms(9) q by (intro exI [of _ "k\<lparr>ptables := m\<rparr>"] exI [of _ "new_page pa ?fl OR USER"]) (simp add: protect_page_def)
qed

theorem mem_protect_any_frame_witness:
  "\<exists>m b k' e e'. mem_ok (mem_kernel m b) \<and> translate_user_page 0x300000 0x10000 m = Some (0x400000, e) \<and> \<not> bit e 1 \<and>
     as_frame 600 (mem_kernel m b) = ret (0x200000, 0x2000) \<and>
     sys_mem_protect (mem_frame [1, 2, 0x10000, 1, 2, 0]) (mem_kernel m b) = ret (Done (Inr 0) k') \<and>
     translate_user_page 0x300000 0x10000 (ptables k') = Some (0x400000, e') \<and> bit e' 1"
proof -
  let ?fl = "\<lparr>readable = True, writable = False, executable = False, uncacheable = False\<rparr>"
  let ?tf = "mem_frame [1, 2, 0x10000, 1, 2, 0]"
  obtain m b where k: "mem_ok (mem_kernel m b)"
    and t: "translate_user_page 0x300000 0x10000 m = Some (0x400000, new_page 0x400000 ?fl OR USER)"
    using mem_kernel_map_page [of "0x400000" ?fl] by (auto simp: PHYS_MASK_def)
  have args: "arg 2 ?tf = 0x10000" "arg32 0 ?tf = Suc 0" "arg32 1 ?tf = 2" "arg 3 ?tf = 1" "arg 4 ?tf = 2"
    by (simp_all add: mem_frame_def arg_def arg32_def)
  have ro: "\<not> bit (new_page 0x400000 ?fl OR USER) 1" by (simp only: new_page_fields) simp
  have cr: "check_range (arg 2 ?tf) 1 = ret (Inr 0x1000)"
    by (simp add: args check_range_def USER_HALF_TOP_def PAGE_SIZE_def U64_MAX_def)
  have wr: "contains (rights (mem_slot TagFrame (MAP OR WRITE) 600)) WRITE"
    by (simp add: mem_slot_def contains_def MAP_def WRITE_def)
  have "\<exists>k' e'. sys_mem_protect ?tf (mem_kernel m b) = ret (Done (Inr 0) k') \<and>
      translate_user_page 0x300000 (arg 2 ?tf) (ptables k') = Some (0x400000, e') \<and> bit e' 1"
    using mem_protect_any_frame [OF k mem_kernel_caller _ mem_slot_fields(1) wr _ mem_slot_fields(1)
        mem_kernel_objects(2,3) cr args(4,5)] args mem_kernel_lookup t by simp
  then show ?thesis using k t ro args(1) mem_kernel_objects(1) by metis
qed

end
