(* ===== verification/Spec2Isabelle.thy ===== *)
theory Spec2Isabelle
  imports Thread_Calls Cap_Safety Ipc_Calls Mem_Safety
begin

text \<open>
  A verification development of the kernel of seraph, a capability-based microkernel written in Rust
  (\<open>kernel/src\<close>, with the system call numbers and error codes of \<open>abi/syscall\<close>). The definitions follow the
  x86-64 build.

  \<^bold>\<open>The program.\<close> User threads enter the kernel by system calls that name kernel objects through slots of a
  capability space (CSpace). A CSpace is a directory of slots; the slots of all CSpaces are nodes of one
  derivation tree, along which authority is revoked. Objects are counted by the capabilities that name them
  and destroyed with the last one. Threads run on per-CPU run queues, block on endpoints, signals, event
  queues and wait sets, and are woken by other threads, by device interrupts or by the timer. Memory comes
  from a buddy allocator and is mapped into address spaces page by page.

  \<^bold>\<open>The state.\<close> \<open>Kernel_State\<close> collects the statics and heap structures in the record \<open>kernel\<close>; each heap is a
  partial map from addresses, so that a freed or never allocated address is \<open>None\<close> and its dereference is the
  value \<open>panic\<close>. A function that can panic returns in the option monad \<open>'a run\<close>; its panics are those of the
  debug build: failed assertions, \<open>debug_assert\<close> included, arithmetic overflow and array bounds. Errors
  are values of a sum type. A system call is a function of the register frame and the state; a call that
  blocks is cut at its call of \<open>schedule\<close>, and what follows is a definition of its own (\<open>Yielded\<close>, \<open>resume_point\<close>).
  Each operation is one atomic step, because it holds its lock; the exception is \<open>Signal\<close>, where the code
  skips the lock and the model interleaves.

  \<^bold>\<open>The theories\<close>, in the order of the code's layers:
  \<^item> \<open>Kernel_Prelude\<close>: the run monad, results, linked list segments, words. \<open>Intrusive_Fifo\<close>: the locales
    \<open>link_field\<close> and \<open>fifo_queue\<close>, interpreted on the run queues and on the wait queues of endpoints.
    \<open>Ring_Buffer\<close>: the locale \<open>bounded_fifo\<close>, interpreted on event queues and on the ready ring of wait sets.
  \<^item> \<open>Cap_Slot\<close> (\<open>cap/slot.rs\<close>), \<open>Cap_Space\<close> (\<open>cap/cspace.rs\<close>; locales \<open>slot_store\<close> and \<open>cap_table\<close>), \<open>Derivation\<close> and
    \<open>Derivation_Tree\<close> (\<open>cap/derivation.rs\<close> and the registry of \<open>cap/mod.rs\<close>), \<open>Cap_Move\<close>
    (\<open>move_cap_between_cspaces\<close> of \<open>cap/mod.rs\<close>). A CSpace refines the partial map \<open>caps\<close>, all of them together
    the map \<open>gcaps\<close>, and the links of its capabilities a forest (\<open>tree_rep\<close>).
  \<^item> \<open>Syscall_Abi\<close>, \<open>Trap_Frame\<close>: error codes, the register frame, \<open>validate_write_regs\<close>.
  \<^item> \<open>Run_Queue\<close> (\<open>sched/run_queue.rs\<close>), \<open>Scheduler\<close> (\<open>sched/mod.rs\<close>, \<open>percpu.rs\<close>). \<open>run_queues k Q\<close> refines the
    linked queues and bit masks of all CPUs to lists.
  \<^item> \<open>Wait_Set\<close>, \<open>Event_Queue\<close>, \<open>Signal\<close>, \<open>Endpoint\<close> (\<open>kernel/src/ipc\<close>), \<open>Irq\<close> (\<open>irq.rs\<close>).
  \<^item> \<open>Buddy\<close> (\<open>mm/buddy.rs\<close>), \<open>Paging\<close> (\<open>arch/x86_64/paging.rs\<close>).
  \<^item> \<open>Object_Lifetime\<close> (\<open>cap/object.rs\<close>): reference counts and every arm of \<open>dealloc_object\<close>.
  \<^item> \<open>Syscall_Core\<close>, \<open>Thread_Calls\<close>, \<open>Cap_Calls\<close>, \<open>Ipc_Calls\<close>, \<open>Mem_Calls\<close>: the handlers of \<open>kernel/src/syscall\<close>.
    \<open>Kernel_Frame\<close>, \<open>Cap_Accounting\<close>, \<open>Cap_Safety\<close> and \<open>Mem_Safety\<close> prove what holds across calls.

  \<^bold>\<open>What is shown.\<close>
  \<^item> Capabilities: insertion, freeing, pre-allocation and enumeration of a CSpace on every branch; deleting
    and moving a capability splice and rename the forest; revocation removes exactly the strict
    descendants. Over all calls that copy, move, delete or revoke, the reference count of every object
    stays the number of capabilities that name it, and no authority appears that did not exist.
  \<^item> Scheduling: the queue operations refine lists, \<open>schedule\<close> runs the thread that the selection order demands,
    a pass over the sleep list wakes exactly the expired threads, placement is on a least loaded CPU.
  \<^item> IPC: endpoints serve both sides in arrival order and complete a call, receive and reply; event queues
    deliver in order; a wait set delivers a notification unless its ring is full; for signals, the values that
    waits return in any interleaving are those of an atomic signal and a waiter cannot sleep on over pending bits.
  \<^item> Memory: the allocator hands out free, aligned blocks and takes exactly what is returned; page table
    operations keep address spaces apart and W^X intact, and a mapping grants no more than its capability.
  \<^item> Destruction: deallocating an endpoint, a signal or a thread leaves no queue entry, route or waiter field
    that refers to it, under the stated conditions.

  Eight properties are about behaviour that deviates from what the code or its documents intend: an index
  past the directory panics (\<open>huge_index_panics\<close>), a wait set delivers a token twice
  (\<open>waitset_add_delivers_twice\<close>), a stopped and restarted thread drops its successors (\<open>stop_start_loses_threads\<close>), a
  reply follows a freed pointer (\<open>reply_to_freed_caller\<close>), a dead CSpace hides descendants from revocation
  (\<open>revoke_misses_after_cspace_death\<close>), any frame capability authorises any page (\<open>mem_protect_any_frame\<close>),
  a wait returns an empty mask (\<open>signal_spurious_wakeup\<close>), and a flag passes the register check
  (\<open>validate_write_regs_safe\<close>). Revocation keeps its root, although three documents say otherwise.

  \<^bold>\<open>Bounds and termination.\<close> No fuel is used. Loops over pointers are \<open>partial_function\<close>s, and their lemmas state that
  they return on well-formed structures; the other loops are structural or have a measure. Words have
  their width where the code computes with them (rights, tokens, registers, page table entries, reference
  counts, masks); addresses and counters of the frame allocator, ticks and indices are naturals, with the
  checks of the code written out.

  \<^bold>\<open>Not modelled.\<close> The interleaving model of signals has one waiting thread, no effect on wait sets and no
  cancellation; relaxed memory is represented only by the order that the fences give. Spinning on a flag
  that another CPU must set is \<open>panic\<close>, for instance in the deallocation of a thread that still runs.
  The contents of user memory are a map by page table root and address that the page tables do not
  govern: faults on user buffers are not modelled. The kernel half of the page tables, TLB flushes, the
  kernel heap, the assembly of trap entry and context switch, device registers, RISC-V, the interrupt, port
  and DMA calls of \<open>syscall/hw.rs\<close>, booting and all user-space programs are left out.
\<close>

section \<open>Slot indices across the system calls\<close>

text \<open>In a state that satisfies the invariant the CSpace of the caller is live, and its lookups of an index past the
  directory panic.\<close>

lemma caller_lookup:
  assumes k: "cap_inv k" and c: "caller_space k = ret (Inr c)"
  obtains t x cs where "caller_tcb k = ret (Inr t)" "tcbs k t = Some x" "tcb_cspace x = Some c" "cspace_at c (kcaps k) = Some cs"
    "\<And>i. 16384 \<le> i \<Longrightarrow> slot cs i = panic" "\<And>i. i < 16384 \<Longrightarrow> slot cs i \<noteq> panic"
proof -
  obtain t x where t: "caller_tcb k = ret (Inr t)" "tcbs k t = Some x" "tcb_cspace x = Some c"
    using c by (auto simp: caller_space_def and_then_def caller_cspace_def split: bind_splits sum.split_asm option.split_asm)
  then obtain n where "registered (kcaps k) c n" using k unfolding cap_inv_def by blast
  then obtain cs where cs: "cs_heap (kcaps k) c = Some cs" using registered_cspace [OF cap_inv_ok(1) [OF k]] by blast
  then have "dir_wf cs" using cap_inv_ok(1) [OF k] by (auto simp: st_ok_def cs_ok_wf)
  then have "slot cs i = panic \<longleftrightarrow> 16384 \<le> i" for i using slot_panic_iff [of cs i] by (simp add: L1_SIZE_def L2_SIZE_def)
  then show thesis using that [OF t, of cs] cs by (auto simp: cspace_at_def)
qed

section \<open>Properties\<close>

text \<open>(C9) A slot index from user space can stop the kernel. In every state that satisfies the capability invariant, a
  thread that passes an index of 16384 or more as the capability argument of any of these calls makes the
  kernel panic: the index reaches the directory array unchecked. (No smaller index makes a lookup panic.)\<close>

theorem huge_index_panics:
  assumes "cap_inv k" "caller_space k = ret (Inr c)"
  shows "(16384 \<le> arg32 0 tf \<longrightarrow> (\<forall>f \<in> {sys_cap_copy, sys_cap_derive, sys_cap_delete, sys_cap_revoke, sys_ipc_call,
      sys_ipc_recv, sys_signal_wait, sys_event_post, sys_event_recv, sys_wait_set_wait, sys_thread_configure, sys_thread_start,
      sys_thread_stop, sys_thread_bind_notification}. f tf k = panic)) \<and>
    (arg32 0 tf < 16384 \<longrightarrow> (\<forall>t r. lookup_cap (Some c) (arg32 0 tf) t r k \<noteq> panic))"
proof (intro conjI impI ballI allI)
  obtain t x cs where t: "caller_tcb k = ret (Inr t)" "tcbs k t = Some x" "tcb_cspace x = Some c"
      "cspace_at c (kcaps k) = Some cs" and cs: "\<And>i. 16384 \<le> i \<Longrightarrow> slot cs i = panic" "\<And>i. i < 16384 \<Longrightarrow> slot cs i \<noteq> panic"
    using caller_lookup [OF assms] by blast
  show "lookup_cap (Some c) (arg32 0 tf) tg r k \<noteq> panic" if "arg32 0 tf < 16384" for tg r
    using cs(2) [OF that] t(4) by (auto simp: lookup_cap_def split: bind_splits option.split)
  fix f
  assume i: "16384 \<le> arg32 0 tf" and f: "f \<in> {sys_cap_copy, sys_cap_derive, sys_cap_delete, sys_cap_revoke, sys_ipc_call,
      sys_ipc_recv, sys_signal_wait, sys_event_post, sys_event_recv, sys_wait_set_wait, sys_thread_configure, sys_thread_start,
      sys_thread_stop, sys_thread_bind_notification}"
  have l: "lookup_cap (Some c) (arg32 0 tf) tg r k = panic" for tg r using cs(1) [OF i] t(4) by (simp add: lookup_cap_def)
  have s: "source_cap c (arg32 0 tf) k = panic" using cs(1) [OF i] t(4) by (simp add: source_cap_def ptr_slot_def)
  have o: "with_object (arg32 0 tf) tg r h k g = panic" for tg r h g using t l by (simp add: with_object_def)
  have w: "with_thread (arg32 0 tf) r k g = panic" for r g
    using t l by (simp add: with_thread_def thread_target_def caller_cspace_def and_then_def)
  show "f tf k = panic"
    using f t l s o w cs(1) [OF i] assms(2)
    by (auto simp: sys_cap_copy_def sys_cap_derive_def sys_cap_delete_def sys_cap_revoke_def sys_ipc_call_def sys_ipc_recv_def
        sys_signal_wait_def sys_event_post_def sys_event_recv_def sys_wait_set_wait_def sys_thread_configure_def
        sys_thread_start_def sys_thread_stop_def sys_thread_bind_notification_def caller_cspace_def)
qed

theorem huge_index_panics_witness:
  "caller_space (cap_kernel 0 two_spaces) = ret (Inr 10) \<and> sys_cap_delete (index_frame 16384) (cap_kernel 0 two_spaces) = panic \<and>
    sys_ipc_recv (index_frame 16384) (cap_kernel 0 two_spaces) = panic"
proof -
  have "tree_rep (gcaps two_spaces) (\<lambda>_. []) {}" using tree_empty by (simp add: two_spaces_ok(2))
  then have k: "cap_inv (cap_kernel 0 two_spaces)"
    using cap_kernel_inv [OF two_spaces_ok(1) _ _, of "\<lambda>_. []" 0] by (simp add: two_spaces_ok(2) held_def obj_refs_def)
  have "arg32 0 (index_frame 16384) = 16384"
    by (simp add: arg32_def arg_def index_frame_def unsigned_ucast_eq unat_of_nat take_bit_eq_mod)
  then show ?thesis using huge_index_panics [OF k cap_kernel_caller, of "index_frame 16384"] cap_kernel_caller by simp
qed

end
